(* ===== verification/Prelude.thy ===== *)
theory Prelude
  imports Main "HOL-Library.Word" "HOL-Library.List_Lexorder" "HOL-Library.Char_ord"
    "HOL-Library.Monad_Syntax" "HOL-Library.Multiset"
begin

text \<open>
  Shared vocabulary of the development: Rust's machine integers (\<open>u64\<close>, \<open>i64\<close>,
  \<open>u8\<close>) over \<^typ>\<open>'a word\<close> with their checked, saturating and wrapping operations,
  big-endian byte strings (\<open>to_be_bytes\<close>, \<open>from_be_bytes\<close> of the standard library,
  used for every key of the database), association lists standing for the hash maps whose
  iteration order the code must not depend on, and a binary search with the contract of
  the standard library's \<open>binary_search_by\<close>.

  Collections: \<open>rust_arith\<close> holds the defining equations of the integer operations,
  \<open>alist_simps\<close> the lookup laws of association lists.
\<close>

named_theorems rust_arith \<open>definitions of Rust's integer operations\<close>
named_theorems alist_simps \<open>lookup laws of association lists\<close>

section \<open>Machine integers\<close>

type_synonym u64 = "64 word"
type_synonym i64 = "64 word"
type_synonym byte = "8 word"

abbreviation i64_min :: int where "i64_min \<equiv> - (2 ^ 63)"
abbreviation i64_max :: int where "i64_max \<equiv> 2 ^ 63 - 1"
abbreviation u64_max :: nat where "u64_max \<equiv> 2 ^ 64 - 1"

text \<open>Unsigned operations: \<open>checked_*\<close> is \<open>None\<close> on overflow, \<open>saturating_*\<close> clamps.\<close>

definition checked_add_u64 :: "u64 \<Rightarrow> u64 \<Rightarrow> u64 option" where
  [rust_arith]: "checked_add_u64 a b = (if unat a + unat b \<le> u64_max then Some (a + b) else None)"

definition checked_sub_u64 :: "u64 \<Rightarrow> u64 \<Rightarrow> u64 option" where
  [rust_arith]: "checked_sub_u64 a b = (if unat b \<le> unat a then Some (a - b) else None)"

definition checked_mul_u64 :: "u64 \<Rightarrow> u64 \<Rightarrow> u64 option" where
  [rust_arith]: "checked_mul_u64 a b = (if unat a * unat b \<le> u64_max then Some (a * b) else None)"

definition saturating_add_u64 :: "u64 \<Rightarrow> u64 \<Rightarrow> u64" where
  [rust_arith]: "saturating_add_u64 a b = (if unat a + unat b \<le> u64_max then a + b else - 1)"

definition saturating_sub_u64 :: "u64 \<Rightarrow> u64 \<Rightarrow> u64" where
  [rust_arith]: "saturating_sub_u64 a b = (if unat b \<le> unat a then a - b else 0)"

text \<open>Signed operations on the two's complement reading \<^const>\<open>sint\<close>.\<close>

definition checked_add_i64 :: "i64 \<Rightarrow> i64 \<Rightarrow> i64 option" where
  [rust_arith]: "checked_add_i64 a b =
     (if i64_min \<le> sint a + sint b \<and> sint a + sint b \<le> i64_max then Some (a + b) else None)"

definition checked_sub_i64 :: "i64 \<Rightarrow> i64 \<Rightarrow> i64 option" where
  [rust_arith]: "checked_sub_i64 a b =
     (if i64_min \<le> sint a - sint b \<and> sint a - sint b \<le> i64_max then Some (a - b) else None)"

definition saturate_i64 :: "int \<Rightarrow> i64" where
  [rust_arith]: "saturate_i64 k =
     (if k < i64_min then word_of_int i64_min else if i64_max < k then word_of_int i64_max
      else word_of_int k)"

definition saturating_add_i64 :: "i64 \<Rightarrow> i64 \<Rightarrow> i64" where
  [rust_arith]: "saturating_add_i64 a b = saturate_i64 (sint a + sint b)"

definition saturating_sub_i64 :: "i64 \<Rightarrow> i64 \<Rightarrow> i64" where
  [rust_arith]: "saturating_sub_i64 a b = saturate_i64 (sint a - sint b)"

lemma sint_range_i64: "i64_min \<le> sint (w :: i64)" "sint (w :: i64) \<le> i64_max"
  using sint_ge [of w] sint_lt [of w] by simp_all

lemma sint_word_of_int_i64 [simp]:
  "i64_min \<le> k \<Longrightarrow> k \<le> i64_max \<Longrightarrow> sint (word_of_int k :: i64) = k"
  by (simp add: sint_sbintrunc' signed_take_bit_int_eq_self)

lemma sint_add_in_range:
  "i64_min \<le> sint (a :: i64) + sint b \<Longrightarrow> sint a + sint b \<le> i64_max \<Longrightarrow>
   sint (a + b) = sint a + sint b"
  by (simp add: signed_take_bit_int_eq_self sint_word_ariths)

lemma sint_sub_in_range:
  "i64_min \<le> sint (a :: i64) - sint b \<Longrightarrow> sint a - sint b \<le> i64_max \<Longrightarrow>
   sint (a - b) = sint a - sint b"
  by (simp add: signed_take_bit_int_eq_self sint_word_ariths)

lemma sint_saturate_i64:
  "sint (saturate_i64 k) = max i64_min (min i64_max k)"
  by (auto simp: saturate_i64_def)

lemma sint_cases_uint:
  "sint (w :: 64 word) = (if uint w < 2 ^ 63 then uint w else uint w - 2 ^ 64)"
proof -
  have r: "0 \<le> uint w" "uint w < 2 ^ 64" using uint_lt2p [of w] by simp_all
  have e: "sint w = signed_take_bit 63 (uint w)" by (simp add: sint_uint)
  show ?thesis
  proof (cases "uint w < 2 ^ 63")
    case True
    then have "signed_take_bit 63 (uint w) = uint w"
      by (intro signed_take_bit_int_eq_self) (use r in linarith)+
    with True e show ?thesis by simp
  next
    case False
    have "(word_of_int (uint w - 2 ^ 64) :: 64 word) = w"
    proof -
      have "(word_of_int (2 ^ 64) :: 64 word) = 0" by simp
      then show ?thesis
        by (simp only: wi_hom_sub [symmetric] word_of_int_uint diff_0_right)
    qed
    then have "sint w = sint (word_of_int (uint w - 2 ^ 64) :: 64 word)" by (simp only:)
    also have "\<dots> = signed_take_bit 63 (uint w - 2 ^ 64)" by (simp only: sint_sbintrunc') simp
    also have "\<dots> = uint w - 2 ^ 64"
      by (intro signed_take_bit_int_eq_self) (use r False in simp)+
    finally show ?thesis using False by simp
  qed
qed

lemma sint_eq_unat_small: "unat (w :: u64) < 2 ^ 63 \<Longrightarrow> sint w = int (unat w)"
proof -
  assume "unat w < 2 ^ 63"
  then have "int (unat w) < int (2 ^ 63)" by (simp only: of_nat_less_iff)
  then show ?thesis by (simp add: sint_cases_uint)
qed

lemma sint_neg_large: "2 ^ 63 \<le> unat (w :: u64) \<Longrightarrow> sint w < 0"
proof -
  assume "2 ^ 63 \<le> unat w"
  then have "int (2 ^ 63) \<le> int (unat w)" by (simp only: of_nat_le_iff)
  moreover have "uint w < 2 ^ 64" using uint_lt2p [of w] by simp
  ultimately show ?thesis by (simp add: sint_cases_uint)
qed

lemma sint_inject_i64: "sint (a :: i64) = sint b \<longleftrightarrow> a = b"
  by (auto intro: signed_word_eqI)

section \<open>Big-endian bytes\<close>

text \<open>
  \<open>be_bytes n v\<close> is the \<open>n\<close>-byte big-endian representation of \<open>v\<close> modulo
  \<open>256 ^ n\<close>; \<open>u64::to_be_bytes\<close> is its instance at eight bytes.
\<close>

fun be_bytes :: "nat \<Rightarrow> nat \<Rightarrow> byte list" where
  "be_bytes 0 v = []"
| "be_bytes (Suc n) v = be_bytes n (v div 256) @ [of_nat (v mod 256)]"

definition be_value :: "byte list \<Rightarrow> nat" where
  "be_value bs = foldl (\<lambda>acc b. acc * 256 + unat b) 0 bs"

lemma length_be_bytes [simp]: "length (be_bytes n v) = n"
  by (induction n arbitrary: v) auto

lemma unat_of_nat_byte [simp]: "unat (of_nat (v mod 256) :: byte) = v mod 256"
  by (simp add: unat_of_nat)

lemma be_value_snoc: "be_value (bs @ [b]) = be_value bs * 256 + unat b"
  by (simp add: be_value_def)

lemma be_value_Nil [simp]: "be_value [] = 0"
  by (simp add: be_value_def)

lemma unat_byte_less [simp]: "unat (b :: byte) < 256"
  using unsigned_less [of b, where ?'a = nat] by simp

lemma be_value_bytes: "be_value (be_bytes n v) = v mod 256 ^ n"
proof (induction n arbitrary: v)
  case (Suc n)
  have "v mod 256 ^ Suc n = v div 256 mod 256 ^ n * 256 + v mod 256"
    by (simp add: mod_mult2_eq mult.commute)
  with Suc show ?case by (simp add: be_value_snoc)
qed simp

lemma be_value_less: "be_value bs < 256 ^ length bs"
proof (induction bs rule: rev_induct)
  case (snoc b bs)
  have "unat b \<le> 255" using unat_byte_less [of b] by linarith
  with snoc show ?case by (simp add: be_value_snoc)
qed simp

lemma be_bytes_value: "be_bytes (length bs) (be_value bs) = bs"
  by (induction bs rule: rev_induct) (simp_all add: be_value_snoc)

definition to_be_bytes :: "u64 \<Rightarrow> byte list" where
  "to_be_bytes w = be_bytes 8 (unat w)"

definition from_be_bytes :: "byte list \<Rightarrow> u64" where
  "from_be_bytes bs = of_nat (be_value bs)"

lemma length_to_be_bytes [simp]: "length (to_be_bytes w) = 8"
  by (simp add: to_be_bytes_def)

lemma to_be_bytes_not_Nil [simp]: "to_be_bytes w \<noteq> []"
  using length_to_be_bytes [of w] by (metis length_0_conv zero_neq_numeral)

lemma unat_u64_less: "unat (w :: u64) < 2 ^ 64"
  using unsigned_less [of w, where ?'a = nat] by simp

lemma from_to_be_bytes [simp]: "from_be_bytes (to_be_bytes w) = w"
  using unat_u64_less [of w] by (simp add: from_be_bytes_def to_be_bytes_def be_value_bytes)

lemma to_from_be_bytes: "length bs = 8 \<Longrightarrow> to_be_bytes (from_be_bytes bs) = bs"
  using be_value_less [of bs] be_bytes_value [of bs]
  by (simp add: from_be_bytes_def to_be_bytes_def unat_of_nat)

lemma to_be_bytes_inject [simp]: "to_be_bytes a = to_be_bytes b \<longleftrightarrow> a = b"
  by (metis from_to_be_bytes)

section \<open>Association lists for hash maps\<close>

text \<open>
  A \<open>HashMap\<close> is a list of key/value pairs; its order is the iteration order, which the
  language leaves open. \<open>al_insert\<close> is \<open>HashMap::insert\<close>, \<open>al_remove\<close> is
  \<open>HashMap::remove\<close>; lookups are \<^const>\<open>map_of\<close>.
\<close>

fun al_insert :: "'k \<Rightarrow> 'v \<Rightarrow> ('k \<times> 'v) list \<Rightarrow> ('k \<times> 'v) list" where
  "al_insert k v [] = [(k, v)]"
| "al_insert k v ((k', v') # m) = (if k = k' then (k, v) # m else (k', v') # al_insert k v m)"

definition al_remove :: "'k \<Rightarrow> ('k \<times> 'v) list \<Rightarrow> ('k \<times> 'v) list" where
  "al_remove k m = filter (\<lambda>p. fst p \<noteq> k) m"

abbreviation al_keys :: "('k \<times> 'v) list \<Rightarrow> 'k set" where
  "al_keys m \<equiv> fst ` set m"

abbreviation al_wf :: "('k \<times> 'v) list \<Rightarrow> bool" where
  "al_wf m \<equiv> distinct (map fst m)"

lemma map_of_al_insert [simp, alist_simps]: "map_of (al_insert k v m) = (map_of m)(k \<mapsto> v)"
  by (induction m) (auto simp: fun_eq_iff)

lemma map_of_al_remove [simp, alist_simps]: "map_of (al_remove k m) = (map_of m)(k := None)"
  by (induction m) (auto simp: al_remove_def fun_eq_iff)

lemma al_keys_al_insert [simp]: "al_keys (al_insert k v m) = insert k (al_keys m)"
proof (induction m)
  case (Cons p m)
  then show ?case by (cases p) (simp add: insert_commute)
qed simp

lemma al_keys_al_remove [simp]: "al_keys (al_remove k m) = al_keys m - {k}"
  by (auto simp: al_remove_def)

lemma al_wf_al_insert [simp, intro]: "al_wf m \<Longrightarrow> al_wf (al_insert k v m)"
proof (induction m)
  case (Cons p m)
  obtain k' v' where p: "p = (k', v')" by (cases p)
  have "fst ` set (al_insert k v m) = insert k (al_keys m)" by simp
  with Cons p show ?case by auto
qed simp

lemma distinct_map_fst_filter: "distinct (map fst m) \<Longrightarrow> distinct (map fst (filter P m))"
  by (induction m) auto

lemma al_wf_al_remove [simp, intro]: "al_wf m \<Longrightarrow> al_wf (al_remove k m)"
  by (simp add: al_remove_def distinct_map_fst_filter)

lemma map_of_Some_in_set: "al_wf m \<Longrightarrow> map_of m k = Some v \<longleftrightarrow> (k, v) \<in> set m"
  by (rule map_of_eq_Some_iff)

lemma al_key_iff: "k \<in> al_keys m \<longleftrightarrow> map_of m k \<noteq> None"
  by (simp add: map_of_eq_None_iff)

lemma al_key_ex: "k \<in> al_keys m \<longleftrightarrow> (\<exists>v. (k, v) \<in> set m)"
  by force

lemma option_eqI: "(\<And>x. a = Some x \<longleftrightarrow> b = Some x) \<Longrightarrow> a = b"
  by (cases a; cases b) auto

section \<open>Results\<close>

text \<open>A fallible Rust function returns \<open>Inl\<close> of its error or \<open>Inr\<close> of its value;
  \<open>res_bind\<close> is the question mark operator.\<close>

fun res_bind :: "'e + 'a \<Rightarrow> ('a \<Rightarrow> 'e + 'b) \<Rightarrow> 'e + 'b" where
  "res_bind (Inl e) f = Inl e"
| "res_bind (Inr a) f = f a"

lemma res_bind_Inr [simp]:
  "res_bind r f = Inr b \<longleftrightarrow> (\<exists>a. r = Inr a \<and> f a = Inr b)"
  by (cases r) auto

lemma res_bind_cong [fundef_cong]:
  "r = r' \<Longrightarrow> (\<And>a. r' = Inr a \<Longrightarrow> f a = g a) \<Longrightarrow> res_bind r f = res_bind r' g"
  by (cases r) auto

fun res_ok :: "'e + 'a \<Rightarrow> 'a option" where
  "res_ok (Inl e) = None"
| "res_ok (Inr a) = Some a"

fun ok_or :: "'e \<Rightarrow> 'a option \<Rightarrow> 'e + 'a" where
  "ok_or e None = Inl e"
| "ok_or e (Some a) = Inr a"

lemma ok_or_Inr [simp]: "ok_or e x = Inr a \<longleftrightarrow> x = Some a"
  by (cases x) auto

lemma ok_or_Inl [simp]: "ok_or e x = Inl e' \<longleftrightarrow> x = None \<and> e' = e"
  by (cases x) auto

lemma res_bind_Inl [simp]:
  "res_bind r f = Inl e \<longleftrightarrow> r = Inl e \<or> (\<exists>a. r = Inr a \<and> f a = Inl e)"
  by (cases r) auto

lemma res_ok_Some [simp]: "res_ok r = Some a \<longleftrightarrow> r = Inr a"
  by (cases r) auto

end
