(* ===== verification/Pdu_Count.thy ===== *)
theory Pdu_Count
  imports Prelude
begin

text \<open>
  The position of an event in a room's timeline, \<open>src/core/matrix/pdu/count.rs\<close>: a
  \<open>Count\<close> is \<open>Normal\<close> (an event received live, counted upwards in a \<open>u64\<close>) or
  \<open>Backfilled\<close> (history fetched later, counted downwards in an \<open>i64\<close>). Both are
  read as signed 64-bit numbers for the order, for the textual pagination tokens and for
  the arithmetic; \<open>debug_assert_valid\<close> only exists in debug builds, so the operations
  below are those of a release build and its condition is the predicate
  \<open>count_valid\<close>. Errors are the messages of \<open>err!(\<dots>)\<close>.
\<close>

section \<open>Data\<close>

datatype count = Normal u64 | Backfilled i64

datatype direction = Forward | Backward

datatype count_error =
    Arithmetic string
  | InvalidParam string

section \<open>Conversions\<close>

definition from_signed :: "i64 \<Rightarrow> count" where
  "from_signed w = (if sint w \<le> 0 then Backfilled w else Normal w)"

definition from_unsigned :: "u64 \<Rightarrow> count" where
  "from_unsigned w = from_signed w"

fun into_unsigned :: "count \<Rightarrow> u64" where
  "into_unsigned (Normal i) = i"
| "into_unsigned (Backfilled i) = i"

fun into_signed :: "count \<Rightarrow> i64" where
  "into_signed (Normal i) = i"
| "into_signed (Backfilled i) = i"

fun into_normal :: "count \<Rightarrow> count" where
  "into_normal (Normal i) = Normal i"
| "into_normal (Backfilled i) = Normal 0"

fun debug_assert_valid :: "count \<Rightarrow> bool" where
  "debug_assert_valid (Normal i) = True"
| "debug_assert_valid (Backfilled i) = (sint i \<le> 0)"

section \<open>Arithmetic\<close>

fun count_checked_add :: "count \<Rightarrow> u64 \<Rightarrow> count_error + count" where
  "count_checked_add (Normal i) add =
     (case checked_add_u64 i add of
        None \<Rightarrow> Inl (Arithmetic ''Count::Normal overflow'')
      | Some j \<Rightarrow> Inr (Normal j))"
| "count_checked_add (Backfilled i) add =
     (case checked_add_i64 i add of
        None \<Rightarrow> Inl (Arithmetic ''Count::Backfilled overflow'')
      | Some j \<Rightarrow> Inr (from_signed j))"

fun count_checked_sub :: "count \<Rightarrow> u64 \<Rightarrow> count_error + count" where
  "count_checked_sub (Normal i) sub =
     (case checked_sub_u64 i sub of
        None \<Rightarrow> Inl (Arithmetic ''Count::Normal underflow'')
      | Some j \<Rightarrow> Inr (Normal j))"
| "count_checked_sub (Backfilled i) sub =
     (case checked_sub_i64 i sub of
        None \<Rightarrow> Inl (Arithmetic ''Count::Backfilled underflow'')
      | Some j \<Rightarrow> Inr (Backfilled j))"

fun count_checked_inc :: "count \<Rightarrow> direction \<Rightarrow> count_error + count" where
  "count_checked_inc c Forward = count_checked_add c 1"
| "count_checked_inc c Backward = count_checked_sub c 1"

fun count_saturating_add :: "count \<Rightarrow> u64 \<Rightarrow> count" where
  "count_saturating_add (Normal i) add = Normal (saturating_add_u64 i add)"
| "count_saturating_add (Backfilled i) add = from_signed (saturating_add_i64 i add)"

fun count_saturating_sub :: "count \<Rightarrow> u64 \<Rightarrow> count" where
  "count_saturating_sub (Normal i) sub = Normal (saturating_sub_u64 i sub)"
| "count_saturating_sub (Backfilled i) sub = Backfilled (saturating_sub_i64 i sub)"

fun count_saturating_inc :: "count \<Rightarrow> direction \<Rightarrow> count" where
  "count_saturating_inc c Forward = count_saturating_add c 1"
| "count_saturating_inc c Backward = count_saturating_sub c 1"

definition count_min :: count where
  "count_min = Backfilled (word_of_int i64_min)"

definition count_max :: count where
  "count_max = Normal (word_of_int i64_max)"

definition count_default :: count where
  "count_default = Normal 0"

text \<open>\<open>Ord for Count\<close>: the sign of the comparison of the signed readings.\<close>

definition count_less_eq :: "count \<Rightarrow> count \<Rightarrow> bool" where
  "count_less_eq a b = (sint (into_signed a) \<le> sint (into_signed b))"

definition count_less :: "count \<Rightarrow> count \<Rightarrow> bool" where
  "count_less a b = (sint (into_signed a) < sint (into_signed b))"

section \<open>Tokens\<close>

text \<open>Decimal digits, and \<open>str::parse\<close> for \<open>i64\<close> (an optional sign, at least one
  digit, nothing else, and the value in range).\<close>

definition digit :: "nat \<Rightarrow> char" where
  "digit d = char_of (48 + d)"

definition is_digit :: "char \<Rightarrow> bool" where
  "is_digit c = (48 \<le> (of_char c :: nat) \<and> (of_char c :: nat) \<le> 57)"

definition digit_val :: "char \<Rightarrow> nat" where
  "digit_val c = of_char c - 48"

fun show_nat :: "nat \<Rightarrow> string" where
  "show_nat n = (if n < 10 then [digit n] else show_nat (n div 10) @ [digit (n mod 10)])"

declare show_nat.simps [simp del]

definition parse_digits :: "string \<Rightarrow> nat option" where
  "parse_digits s =
     (if s \<noteq> [] \<and> list_all is_digit s then Some (foldl (\<lambda>a c. a * 10 + digit_val c) 0 s) else None)"

definition i64_of_int :: "int \<Rightarrow> i64 option" where
  "i64_of_int k = (if i64_min \<le> k \<and> k \<le> i64_max then Some (word_of_int k) else None)"

definition parse_i64 :: "string \<Rightarrow> i64 option" where
  "parse_i64 s =
     (case s of
        [] \<Rightarrow> None
      | c # r \<Rightarrow>
          if c = CHR ''-'' then Option.bind (parse_digits r) (\<lambda>n. i64_of_int (- int n))
          else if c = CHR ''+'' then Option.bind (parse_digits r) (\<lambda>n. i64_of_int (int n))
          else Option.bind (parse_digits s) (\<lambda>n. i64_of_int (int n)))"

text \<open>\<open>str::split_once\<close> at the first occurrence of a character.\<close>

fun split_once :: "char \<Rightarrow> string \<Rightarrow> (string \<times> string) option" where
  "split_once c [] = None"
| "split_once c (x # xs) =
     (if x = c then Some ([], xs) else map_option (\<lambda>(a, b). (x # a, b)) (split_once c xs))"

definition strip_prefix_char :: "char \<Rightarrow> string \<Rightarrow> string option" where
  "strip_prefix_char c s = (case s of [] \<Rightarrow> None | x # xs \<Rightarrow> if x = c then Some xs else None)"

definition synapse_room_stream_position :: "string \<Rightarrow> string" where
  "synapse_room_stream_position token =
     (let room_token = (case split_once CHR ''_'' token of None \<Rightarrow> token | Some (r, _) \<Rightarrow> r) in
      case strip_prefix_char CHR ''s'' room_token of
        Some stream \<Rightarrow> stream
      | None \<Rightarrow>
        (case strip_prefix_char CHR ''t'' room_token of
           Some historic \<Rightarrow>
             (case split_once CHR ''-'' historic of None \<Rightarrow> token | Some (_, stream) \<Rightarrow> stream)
         | None \<Rightarrow>
           (case strip_prefix_char CHR ''m'' room_token of
              Some multi_writer \<Rightarrow>
                (case split_once CHR ''~'' multi_writer of
                   None \<Rightarrow> multi_writer | Some (stream, _) \<Rightarrow> stream)
            | None \<Rightarrow> token)))"

definition count_from_str :: "string \<Rightarrow> count_error + count" where
  "count_from_str token =
     (case parse_i64 (synapse_room_stream_position token) of
        None \<Rightarrow> Inl (InvalidParam ''Invalid room stream token'')
      | Some n \<Rightarrow> Inr (from_signed n))"

definition show_int :: "int \<Rightarrow> string" where
  "show_int k = (if k < 0 then CHR ''-'' # show_nat (nat (- k)) else show_nat (nat k))"

fun count_display :: "count \<Rightarrow> string" where
  "count_display (Normal i) = show_nat (unat i)"
| "count_display (Backfilled i) = show_int (sint i)"

section \<open>Well-formed counts\<close>

text \<open>
  The counts the constructors build: a \<open>Normal\<close> count is a positive \<open>i64\<close>, a
  \<open>Backfilled\<close> one is not positive. \<open>Normal 0\<close> (the default) is the one count in use
  that lies outside; it compares equal to \<open>Backfilled 0\<close>.
\<close>

fun count_wf :: "count \<Rightarrow> bool" where
  "count_wf (Normal i) = (0 < sint i)"
| "count_wf (Backfilled i) = (sint i \<le> 0)"

lemma count_wf_from_signed [simp, intro]: "count_wf (from_signed w)"
  by (simp add: from_signed_def)

lemma into_signed_from_signed [simp]: "into_signed (from_signed w) = w"
  by (simp add: from_signed_def)

lemma from_signed_into_signed: "count_wf c \<Longrightarrow> from_signed (into_signed c) = c"
  by (cases c) (auto simp: from_signed_def)

lemma count_wf_iff: "count_wf c \<longleftrightarrow> (\<exists>w. c = from_signed w)"
  by (metis count_wf_from_signed from_signed_into_signed)

lemma count_wf_eqI:
  "count_wf a \<Longrightarrow> count_wf b \<Longrightarrow> sint (into_signed a) = sint (into_signed b) \<Longrightarrow> a = b"
  by (metis from_signed_into_signed sint_inject_i64)

lemma count_wf_valid: "count_wf c \<Longrightarrow> debug_assert_valid c"
  by (cases c) auto

lemma sint_normal: "0 \<le> sint (i :: u64) \<Longrightarrow> uint i < 2 ^ 63 \<and> sint i = uint i"
  using uint_lt2p [of i] by (auto simp: sint_cases_uint split: if_splits)

section \<open>Arithmetic lemmas\<close>

lemma sint_small: "uint (n :: u64) < 2 ^ 63 \<Longrightarrow> sint n = uint n"
  by (simp add: sint_cases_uint)

lemma uint_add_small: "uint a + uint b < 2 ^ 64 \<Longrightarrow> uint (a + b :: u64) = uint a + uint b"
  by (simp add: uint_word_ariths)

lemma unat_add_le_u64_max: "unat (a :: u64) + unat b \<le> u64_max \<longleftrightarrow> uint a + uint b < 2 ^ 64"
proof -
  have "unat a + unat b \<le> u64_max \<longleftrightarrow> int (unat a + unat b) \<le> int u64_max"
    by (simp only: of_nat_le_iff)
  also have "\<dots> \<longleftrightarrow> uint a + uint b \<le> 2 ^ 64 - 1" by simp
  finally show ?thesis by linarith
qed

lemma count_checked_add_wf:
  assumes "count_wf c" "uint add < 2 ^ 63" "sint (into_signed c) + uint add \<le> i64_max"
  shows "\<exists>d. count_checked_add c add = Inr d \<and> count_wf d \<and>
             sint (into_signed d) = sint (into_signed c) + uint add"
proof (cases c)
  case (Normal i)
  with assms have i: "uint i < 2 ^ 63" "sint i = uint i" "0 < uint i"
    using sint_normal [of i] by auto
  have sum: "uint i + uint add < 2 ^ 63" using assms i Normal by simp
  then have "sint (i + add) = uint i + uint add"
    by (subst sint_small) (simp_all add: uint_add_small)
  moreover have "checked_add_u64 i add = Some (i + add)"
    unfolding checked_add_u64_def unat_add_le_u64_max using sum by simp
  ultimately show ?thesis using Normal i by (simp add: add_pos_nonneg)
next
  case (Backfilled i)
  have a: "sint add = uint add" "0 \<le> sint add" using sint_small [OF assms(2)] by auto
  have r: "i64_min \<le> sint i + sint add" "sint i + sint add \<le> i64_max"
    using assms(3) a Backfilled sint_range_i64 [of i] by (simp_all only: into_signed.simps)
  then have "checked_add_i64 i add = Some (i + add)"
    by (simp add: checked_add_i64_def)
  moreover have "sint (i + add) = sint i + sint add"
    using r by (rule sint_add_in_range)
  ultimately show ?thesis using Backfilled a by simp
qed

lemma word_of_int_sint_sum: "word_of_int (sint a + sint b) = (a + b :: i64)"
  by (simp add: wi_hom_add [symmetric])

lemma word_of_int_sint_diff: "word_of_int (sint a - sint b) = (a - b :: i64)"
  by (simp add: wi_hom_sub [symmetric])

lemma count_saturating_add_eq_checked:
  "count_checked_add c n = Inr d \<Longrightarrow> count_saturating_add c n = d"
  by (cases c)
    (auto simp: rust_arith word_of_int_sint_sum split: if_splits option.splits)

lemma count_saturating_sub_eq_checked:
  "count_checked_sub c n = Inr d \<Longrightarrow> count_saturating_sub c n = d"
  by (cases c)
    (auto simp: rust_arith word_of_int_sint_diff split: if_splits option.splits)

section \<open>Token lemmas\<close>

lemma is_digit_digit [simp]: "d < 10 \<Longrightarrow> is_digit (digit d)"
  by (simp add: is_digit_def digit_def of_char_of)

lemma digit_val_digit [simp]: "d < 10 \<Longrightarrow> digit_val (digit d) = d"
  by (simp add: digit_val_def digit_def of_char_of)

lemma show_nat_not_Nil [simp]: "show_nat n \<noteq> []"
  by (subst show_nat.simps) simp

lemma show_nat_digits: "list_all is_digit (show_nat n)"
proof (induction n rule: show_nat.induct)
  case (1 n)
  then show ?case by (cases "n < 10") (simp_all add: show_nat.simps [of n])
qed

lemma show_nat_value: "foldl (\<lambda>a c. a * 10 + digit_val c) 0 (show_nat n) = n"
proof (induction n rule: show_nat.induct)
  case (1 n)
  then show ?case by (cases "n < 10") (simp_all add: show_nat.simps [of n])
qed

lemma parse_digits_show_nat [simp]: "parse_digits (show_nat n) = Some n"
  by (simp add: parse_digits_def show_nat_digits show_nat_value)

lemma is_digit_not_special:
  "is_digit c \<Longrightarrow> c \<noteq> CHR ''-'' \<and> c \<noteq> CHR ''+'' \<and> c \<noteq> CHR ''_'' \<and> c \<noteq> CHR ''s'' \<and>
     c \<noteq> CHR ''t'' \<and> c \<noteq> CHR ''m''"
  by (auto simp: is_digit_def)

lemma split_once_None: "c \<notin> set s \<Longrightarrow> split_once c s = None"
  by (induction s) auto

lemma split_once_at: "c \<notin> set s \<Longrightarrow> split_once c (s @ c # r) = Some (s, r)"
  by (induction s) auto

lemma show_nat_no_special:
  "x \<in> set (show_nat n) \<Longrightarrow> x \<noteq> CHR ''-'' \<and> x \<noteq> CHR ''+'' \<and> x \<noteq> CHR ''_'' \<and> x \<noteq> CHR ''s'' \<and>
     x \<noteq> CHR ''t'' \<and> x \<noteq> CHR ''m''"
  using show_nat_digits [of n] is_digit_not_special [of x] by (auto simp: list_all_iff)

lemma show_nat_hd: "\<exists>c r. show_nat n = c # r \<and> is_digit c"
proof -
  obtain c r where "show_nat n = c # r" by (cases "show_nat n") auto
  moreover have "is_digit c" using show_nat_digits [of n] calculation by simp
  ultimately show ?thesis by blast
qed

lemma parse_i64_show_nat:
  "int n \<le> i64_max \<Longrightarrow> parse_i64 (show_nat n) = Some (word_of_int (int n))"
proof -
  assume n: "int n \<le> i64_max"
  obtain c r where c: "show_nat n = c # r" "is_digit c" using show_nat_hd by blast
  have "parse_i64 (show_nat n) = Option.bind (parse_digits (show_nat n)) (\<lambda>n. i64_of_int (int n))"
    using c is_digit_not_special [of c] by (simp add: parse_i64_def)
  then show ?thesis using n by (simp add: i64_of_int_def)
qed

lemma parse_i64_show_int:
  assumes "i64_min \<le> k" "k \<le> i64_max"
  shows "parse_i64 (show_int k) = Some (word_of_int k)"
proof (cases "k < 0")
  case True
  then show ?thesis using assms by (simp add: show_int_def parse_i64_def i64_of_int_def)
next
  case False
  then show ?thesis using assms parse_i64_show_nat [of "nat k"] by (simp add: show_int_def)
qed

lemma stream_position_plain:
  assumes "s = c # r" "c \<noteq> CHR ''s''" "c \<noteq> CHR ''t''" "c \<noteq> CHR ''m''" "CHR ''_'' \<notin> set s"
  shows "synapse_room_stream_position s = s"
  using assms by (simp add: synapse_room_stream_position_def strip_prefix_char_def split_once_None)

lemma stream_position_show_int: "synapse_room_stream_position (show_int k) = show_int k"
proof (cases "k < 0")
  case True
  then show ?thesis
    using show_nat_no_special [of "CHR ''_''" "nat (- k)"]
    by (intro stream_position_plain [where c = "CHR ''-''"]) (auto simp: show_int_def)
next
  case False
  obtain c r where c: "show_nat (nat k) = c # r" "is_digit c" using show_nat_hd by blast
  with False show ?thesis
    using show_nat_no_special [of "CHR ''_''" "nat k"] is_digit_not_special [of c]
    by (intro stream_position_plain [where c = c and r = r]) (auto simp: show_int_def)
qed

lemma count_display_wf: "count_wf c \<Longrightarrow> count_display c = show_int (sint (into_signed c))"
proof (cases c)
  case (Normal i)
  assume "count_wf c"
  with Normal have "sint i = uint i" "0 < sint i" using sint_normal [of i] by auto
  moreover from this have "nat (sint i) = unat i" by simp
  ultimately show ?thesis using Normal by (simp add: show_int_def)
qed simp

section \<open>Properties\<close>



text \<open>
  C27: a pagination token survives printing and parsing: the token printed for a well-formed
  count is read back as the same count by \<open>FromStr\<close>.
\<close>

theorem count_token_roundtrip:
  assumes "count_wf c"
  shows "count_from_str (count_display c) = Inr c"
proof -
  have "parse_i64 (show_int (sint (into_signed c))) = Some (word_of_int (sint (into_signed c)))"
    by (rule parse_i64_show_int) (rule sint_range_i64)+
  with assms show ?thesis
    by (simp add: count_from_str_def count_display_wf stream_position_show_int from_signed_into_signed)
qed

theorem count_token_roundtrip_witness:
  "count_from_str (count_display (Backfilled (- 42))) = Inr (Backfilled (- 42))"
  by (rule count_token_roundtrip) simp

text \<open>
  The room stream tokens of Synapse are accepted: in a live token \<open>s<n>_\<dots>\<close>, a
  historic token \<open>t<depth>-<n>_\<dots>\<close> and a multi-writer token \<open>m<n>~\<dots>\<close> the position
  read is \<open>n\<close>, for every \<open>n\<close> that fits an \<open>i64\<close> and any suffix.
\<close>

lemma count_synapse_tokens:
  assumes "int n \<le> i64_max"
  shows "count_from_str (CHR ''s'' # show_nat n @ CHR ''_'' # rest) =
           Inr (from_signed (word_of_int (int n))) \<and>
         count_from_str (CHR ''t'' # show_nat d @ CHR ''-'' # show_nat n @ CHR ''_'' # rest) =
           Inr (from_signed (word_of_int (int n))) \<and>
         count_from_str (CHR ''m'' # show_nat n @ CHR ''~'' # show_nat d) =
           Inr (from_signed (word_of_int (int n)))"
proof -
  note no = show_nat_no_special
  have u: "CHR ''_'' \<notin> set (show_nat k)" "CHR ''-'' \<notin> set (show_nat k)" for k
    using no [of "CHR ''_''" k] no [of "CHR ''-''" k] by blast+
  have t: "CHR ''~'' \<notin> set (show_nat k)" for k
    using show_nat_digits [of k] by (auto simp: list_all_iff is_digit_def)
  have "split_once CHR ''_'' (show_nat d @ CHR ''-'' # show_nat n @ CHR ''_'' # rest) =
          Some (show_nat d @ CHR ''-'' # show_nat n, rest)"
    using split_once_at [of "CHR ''_''" "show_nat d @ CHR ''-'' # show_nat n" rest] u by simp
  moreover have "split_once CHR ''_'' (show_nat n @ CHR ''~'' # show_nat d) = None"
    by (rule split_once_None) (use u in auto)
  ultimately show ?thesis
    using u t parse_i64_show_nat [OF assms]
    by (simp add: count_from_str_def synapse_room_stream_position_def strip_prefix_char_def
        split_once_at)
qed

text \<open>
  At the top of the range the two views of a position disagree: one step forward from
  \<open>Count::max()\<close> neither fails nor saturates but returns a count that the order places at
  or below \<open>Count::min()\<close>.
\<close>

lemma count_max_step_wraps:
  "\<exists>d. count_checked_inc count_max Forward = Inr d \<and> count_saturating_inc count_max Forward = d \<and>
       count_less_eq d count_min \<and> \<not> count_wf d"
proof -
  define d where "d = Normal (2 ^ 63)"
  have "count_checked_inc count_max Forward = Inr d"
    by (simp add: count_max_def d_def checked_add_u64_def)
  then show ?thesis
    using count_saturating_add_eq_checked [of count_max 1 d]
    by (simp add: d_def count_less_eq_def count_min_def)
qed

end
