(* ===== verification/Kv_Map.thy ===== *)
theory Kv_Map
  imports Prelude
begin

text \<open>
  The key-ordered columns of the database. The service code sees a column (\<open>Arc<Map>\<close>)
  through point operations and through streams that start at a key and run in bytewise
  lexicographic order, the order RocksDB keeps its keys in. The contract a client relies on
  is the locale \<open>ordered_column\<close>; a column value is a strictly sorted association list,
  and the interpretation at the end discharges the contract for it.
\<close>

type_synonym key = "byte list"
type_synonym 'v column = "(key \<times> 'v) list"

section \<open>Columns\<close>

fun kv_insert :: "key \<Rightarrow> 'v \<Rightarrow> 'v column \<Rightarrow> 'v column" where
  "kv_insert k v [] = [(k, v)]"
| "kv_insert k v ((k', v') # c) =
     (if k < k' then (k, v) # (k', v') # c
      else if k = k' then (k, v) # c
      else (k', v') # kv_insert k v c)"

definition kv_remove :: "key \<Rightarrow> 'v column \<Rightarrow> 'v column" where
  "kv_remove k c = filter (\<lambda>e. fst e \<noteq> k) c"

definition kv_get :: "'v column \<Rightarrow> key \<Rightarrow> 'v option" where
  "kv_get c k = map_of c k"

definition kv_stream_from :: "'v column \<Rightarrow> key \<Rightarrow> (key \<times> 'v) list" where
  "kv_stream_from c k = filter (\<lambda>e. k \<le> fst e) c"

definition kv_rev_stream_from :: "'v column \<Rightarrow> key \<Rightarrow> (key \<times> 'v) list" where
  "kv_rev_stream_from c k = rev (filter (\<lambda>e. fst e \<le> k) c)"

definition kv_sorted :: "'v column \<Rightarrow> bool" where
  "kv_sorted c = sorted_wrt (<) (map fst c)"

definition starts_with :: "byte list \<Rightarrow> byte list \<Rightarrow> bool" where
  "starts_with k p = (take (length p) k = p)"

text \<open>The streams of \<open>src/database/map/stream_prefix.rs\<close> and \<open>keys_prefix.rs\<close>: from the prefix on,
  as long as the keys start with it.\<close>

definition kv_stream_prefix :: "'v column \<Rightarrow> key \<Rightarrow> (key \<times> 'v) list" where
  "kv_stream_prefix c p = takeWhile (\<lambda>kv. starts_with (fst kv) p) (kv_stream_from c p)"

definition kv_keys_prefix :: "'v column \<Rightarrow> key \<Rightarrow> key list" where
  "kv_keys_prefix c p = map fst (kv_stream_prefix c p)"

definition kv_rev_keys_prefix :: "'v column \<Rightarrow> key \<Rightarrow> key list" where
  "kv_rev_keys_prefix c p = map fst (takeWhile (\<lambda>kv. starts_with (fst kv) p) (kv_rev_stream_from c p))"

lemma sandwich_prefix: "p @ x \<le> a \<Longrightarrow> a \<le> p @ y \<Longrightarrow> \<exists>z. a = p @ (z :: 'a::linorder list)"
proof (induction p arbitrary: a)
  case (Cons b p)
  then obtain c a' where "a = c # a'" by (cases a) auto
  with Cons show ?case by fastforce
qed simp

lemma starts_with_iff: "starts_with k p \<longleftrightarrow> (\<exists>z. k = p @ z)"
  unfolding starts_with_def by (metis append_eq_conv_conj append_take_drop_id)

section \<open>The contract of a column\<close>

lemma set_takeWhile_sorted:
  assumes "sorted_wrt R (map fst s)"
    and "\<And>a b. a \<in> fst ` set s \<Longrightarrow> R a b \<Longrightarrow> P b \<Longrightarrow> P a"
  shows "set (takeWhile (\<lambda>e. P (fst e)) s) = {e \<in> set s. P (fst e)}"
  using assms
proof (induction s)
  case (Cons e s)
  have IH: "set (takeWhile (\<lambda>e. P (fst e)) s) = {e \<in> set s. P (fst e)}"
  proof (rule Cons.IH)
    show "sorted_wrt R (map fst s)" using Cons.prems(1) by simp
    show "P a" if "a \<in> fst ` set s" "R a b" "P b" for a b
      using Cons.prems(2) [of a b] that by auto
  qed
  show ?case
  proof (cases "P (fst e)")
    case True
    with IH show ?thesis by auto
  next
    case False
    have "\<not> P (fst x)" if "x \<in> set s" for x
      using Cons.prems(2) [of "fst e" "fst x"] Cons.prems(1) that False by auto
    with False show ?thesis by auto
  qed
qed simp

lemma sorted_wrt_map_takeWhile:
  "sorted_wrt R (map f xs) \<Longrightarrow> sorted_wrt R (map f (takeWhile P xs))"
  by (induction xs) (auto dest: set_takeWhileD)

locale ordered_column =
  fixes get :: "'c \<Rightarrow> 'k::linorder \<Rightarrow> 'v option"
    and ins :: "'k \<Rightarrow> 'v \<Rightarrow> 'c \<Rightarrow> 'c"
    and del :: "'k \<Rightarrow> 'c \<Rightarrow> 'c"
    and stream_from :: "'c \<Rightarrow> 'k \<Rightarrow> ('k \<times> 'v) list"
    and rev_stream_from :: "'c \<Rightarrow> 'k \<Rightarrow> ('k \<times> 'v) list"
    and invar :: "'c \<Rightarrow> bool"
  assumes get_ins: "invar c \<Longrightarrow> get (ins k v c) = (get c)(k \<mapsto> v)"
    and get_del: "invar c \<Longrightarrow> get (del k c) = (get c)(k := None)"
    and invar_ins: "invar c \<Longrightarrow> invar (ins k v c)"
    and invar_del: "invar c \<Longrightarrow> invar (del k c)"
    and set_stream_from: "invar c \<Longrightarrow> set (stream_from c k) = {(k', v). k \<le> k' \<and> get c k' = Some v}"
    and sorted_stream_from: "invar c \<Longrightarrow> sorted_wrt (<) (map fst (stream_from c k))"
    and set_rev_stream_from:
      "invar c \<Longrightarrow> set (rev_stream_from c k) = {(k', v). k' \<le> k \<and> get c k' = Some v}"
    and sorted_rev_stream_from: "invar c \<Longrightarrow> sorted_wrt (>) (map fst (rev_stream_from c k))"
begin

text \<open>
  A stream cut by \<open>take_while\<close> at an upward (downward) closed condition is the sorted
  list of the entries that satisfy it: nothing after the cut satisfies the condition.
\<close>

lemma takeWhile_stream_from:
  assumes "invar c" and "\<And>a b. k \<le> a \<Longrightarrow> a < b \<Longrightarrow> P b \<Longrightarrow> P a"
  shows "set (takeWhile (\<lambda>e. P (fst e)) (stream_from c k)) =
           {(k', v). k \<le> k' \<and> P k' \<and> get c k' = Some v}"
proof -
  have "set (takeWhile (\<lambda>e. P (fst e)) (stream_from c k)) = {e \<in> set (stream_from c k). P (fst e)}"
    by (rule set_takeWhile_sorted [OF sorted_stream_from [OF assms(1)]])
      (use assms(2) set_stream_from [OF assms(1)] in auto)
  then show ?thesis using set_stream_from [OF assms(1)] by auto
qed

lemma takeWhile_rev_stream_from:
  assumes "invar c" and "\<And>a b. a \<le> k \<Longrightarrow> b < a \<Longrightarrow> P b \<Longrightarrow> P a"
  shows "set (takeWhile (\<lambda>e. P (fst e)) (rev_stream_from c k)) =
           {(k', v). k' \<le> k \<and> P k' \<and> get c k' = Some v}"
proof -
  have "set (takeWhile (\<lambda>e. P (fst e)) (rev_stream_from c k)) = {e \<in> set (rev_stream_from c k). P (fst e)}"
    by (rule set_takeWhile_sorted [OF sorted_rev_stream_from [OF assms(1)]])
      (use assms(2) set_rev_stream_from [OF assms(1)] in auto)
  then show ?thesis using set_rev_stream_from [OF assms(1)] by auto
qed

lemma sorted_takeWhile_stream_from:
  assumes "invar c"
  shows "sorted_wrt (<) (map fst (takeWhile Q (stream_from c k)))"
    and "sorted_wrt (>) (map fst (takeWhile Q (rev_stream_from c k)))"
  using sorted_stream_from [OF assms] sorted_rev_stream_from [OF assms]
  by (simp_all add: sorted_wrt_map_takeWhile)

end

section \<open>Sorted association lists satisfy the contract\<close>

lemma kv_keys_insert: "fst ` set (kv_insert k v c) = insert k (fst ` set c)"
  by (induction c) (force split: if_splits)+

lemma kv_sorted_Cons: "kv_sorted (e # c) \<longleftrightarrow> (\<forall>k \<in> fst ` set c. fst e < k) \<and> kv_sorted c"
  by (simp add: kv_sorted_def)

lemma kv_sorted_insert: "kv_sorted c \<Longrightarrow> kv_sorted (kv_insert k v c)"
proof (induction c)
  case (Cons e c)
  obtain k' v' where e: "e = (k', v')" by (cases e)
  consider "k < k'" | "k = k'" | "k' < k" using linorder_less_linear by blast
  then show ?case
  proof cases
    case 3
    then have "kv_insert k v (e # c) = e # kv_insert k v c" using e by auto
    then show ?thesis using Cons 3 e by (simp add: kv_sorted_Cons kv_keys_insert)
  qed (use Cons e in \<open>auto simp: kv_sorted_Cons intro: less_trans\<close>)
qed (simp add: kv_sorted_def)

lemma kv_sorted_distinct: "kv_sorted c \<Longrightarrow> distinct (map fst c)"
  by (induction c) (auto simp: kv_sorted_def)

lemma kv_get_insert: "kv_sorted c \<Longrightarrow> kv_get (kv_insert k v c) = (kv_get c)(k \<mapsto> v)"
proof (induction c)
  case (Cons e c)
  then show ?case
    by (cases e) (auto simp: kv_get_def kv_sorted_Cons fun_eq_iff)
qed (simp add: kv_get_def fun_eq_iff)

lemma kv_get_remove: "kv_get (kv_remove k c) = (kv_get c)(k := None)"
  by (induction c) (auto simp: kv_get_def kv_remove_def fun_eq_iff)

lemma kv_sorted_remove: "kv_sorted c \<Longrightarrow> kv_sorted (kv_remove k c)"
  by (induction c) (auto simp: kv_sorted_def kv_remove_def)

lemma kv_get_Some: "kv_sorted c \<Longrightarrow> kv_get c k = Some v \<longleftrightarrow> (k, v) \<in> set c"
  unfolding kv_get_def by (rule map_of_eq_Some_iff) (rule kv_sorted_distinct)

lemma sorted_wrt_map_filter: "sorted_wrt R (map f xs) \<Longrightarrow> sorted_wrt R (map f (filter P xs))"
  by (induction xs) auto

interpretation kv: ordered_column kv_get kv_insert kv_remove kv_stream_from kv_rev_stream_from kv_sorted
proof (unfold_locales, goal_cases)
  case (5 c k)
  then show ?case by (auto simp: kv_stream_from_def kv_get_Some)
next
  case (6 c k)
  then show ?case unfolding kv_sorted_def kv_stream_from_def by (rule sorted_wrt_map_filter)
next
  case (7 c k)
  then show ?case by (auto simp: kv_rev_stream_from_def kv_get_Some)
next
  case (8 c k)
  then have "sorted_wrt (<) (map fst (filter (\<lambda>e. fst e \<le> k) c))"
    unfolding kv_sorted_def by (rule sorted_wrt_map_filter)
  then show ?case by (simp add: kv_rev_stream_from_def rev_map [symmetric] sorted_wrt_rev)
qed (simp_all add: kv_get_insert kv_get_remove kv_sorted_insert kv_sorted_remove)

section \<open>Prefix scans\<close>

lemma starts_with_ge: "starts_with k p \<Longrightarrow> p \<le> (k :: key)"
  by (induction p arbitrary: k) (auto simp: starts_with_iff)

lemma starts_with_convex:
  assumes "p \<le> a" "a \<le> b" "starts_with b p"
  shows "starts_with a (p :: key)"
proof -
  obtain z where "b = p @ z" using assms(3) by (auto simp: starts_with_iff)
  with sandwich_prefix [of p "[]" a z] assms(1,2) show ?thesis by (simp add: starts_with_iff)
qed

lemma set_stream_prefix:
  assumes "kv_sorted c"
  shows "set (kv_stream_prefix c p) = {(k, v). starts_with k p \<and> kv_get c k = Some v}"
  unfolding kv_stream_prefix_def
  using kv.takeWhile_stream_from [OF assms, of p "\<lambda>k. starts_with k p"] starts_with_convex
  by (auto intro: starts_with_ge less_imp_le)

lemma set_keys_prefix:
  assumes "kv_sorted c"
  shows "set (kv_keys_prefix c p) = {k. starts_with k p \<and> kv_get c k \<noteq> None}"
  using set_stream_prefix [OF assms] by (force simp: kv_keys_prefix_def)

lemma sorted_keys_prefix: "kv_sorted c \<Longrightarrow> sorted_wrt (<) (kv_keys_prefix c p)"
  using kv.sorted_takeWhile_stream_from(1) by (simp add: kv_keys_prefix_def kv_stream_prefix_def)

lemma distinct_keys_prefix: "kv_sorted c \<Longrightarrow> distinct (kv_keys_prefix c p)"
  using sorted_keys_prefix strict_sorted_iff by blast

text \<open>A reverse scan starts at the prefix and runs down, away from the keys that extend it: it finds at
  most the key that is the prefix itself.\<close>

lemma rev_keys_prefix_only_itself:
  assumes "kv_sorted c"
  shows "set (kv_rev_keys_prefix c p) = {k. k = p \<and> kv_get c k \<noteq> None}"
proof -
  have "set (takeWhile (\<lambda>kv. starts_with (fst kv) p) (kv_rev_stream_from c p)) =
      {(k', v). k' \<le> p \<and> starts_with k' p \<and> kv_get c k' = Some v}"
    by (rule kv.takeWhile_rev_stream_from [OF assms]) (metis starts_with_ge order_less_le_trans leD)
  moreover have "k \<le> p \<and> starts_with k p \<longleftrightarrow> k = p" for k
    using starts_with_ge [of k p] by (auto simp: starts_with_def)
  ultimately have "set (takeWhile (\<lambda>kv. starts_with (fst kv) p) (kv_rev_stream_from c p)) =
      {(k', v). k' = p \<and> kv_get c k' = Some v}" by blast
  then show ?thesis by (force simp: kv_rev_keys_prefix_def image_iff)
qed

end
