(* ===== verification/Pdu_Id.thy ===== *)
theory Pdu_Id
  imports Pdu_Count Kv_Map
begin

text \<open>
  The database key of an event, \<open>src/core/matrix/pdu/id.rs\<close> and \<open>raw_id.rs\<close>, and
  the byte helpers of \<open>src/core/utils/bytes.rs\<close>. A live event is stored under the
  sixteen bytes \<open>room \<cdot> count\<close>, a backfilled one under the twenty-four bytes
  \<open>room \<cdot> 0 \<cdot> count\<close>, all big-endian, so that a scan in key order is a scan in
  timeline order. The lemmas below say for which counts that is so. A Rust panic
  (\<open>expect\<close>, \<open>unimplemented!\<close>) is \<^const>\<open>None\<close>.
\<close>

section \<open>Byte helpers\<close>

definition u8x8_from_bytes :: "byte list \<Rightarrow> byte list option" where
  "u8x8_from_bytes bs = (if length bs = 8 then Some bs else None)"

definition u64_from_u8x8 :: "byte list \<Rightarrow> u64" where
  "u64_from_u8x8 bs = from_be_bytes bs"

definition u64_from_bytes :: "byte list \<Rightarrow> u64 option" where
  "u64_from_bytes bs = map_option u64_from_u8x8 (u8x8_from_bytes bs)"

definition u64_from_bytes_or_zero :: "byte list \<Rightarrow> u64" where
  "u64_from_bytes_or_zero bs = (case u64_from_bytes bs of None \<Rightarrow> 0 | Some w \<Rightarrow> w)"

definition increment :: "byte list option \<Rightarrow> byte list" where
  "increment old =
     to_be_bytes ((case old of None \<Rightarrow> 0 | Some bs \<Rightarrow> u64_from_bytes_or_zero bs) + 1)"

lemma u64_from_bytes_to_be [simp]: "u64_from_bytes (to_be_bytes w) = Some w"
  by (simp add: u64_from_bytes_def u8x8_from_bytes_def u64_from_u8x8_def)

section \<open>Identifiers\<close>

type_synonym short_id = u64

record pdu_id =
  id_shortroomid :: short_id
  id_shorteventid :: count

datatype raw_id = RawNormal "byte list" | RawBackfilled "byte list"

definition INT_LEN :: nat where "INT_LEN = 8"
definition NORMAL_LEN :: nat where "NORMAL_LEN = 16"
definition BACKFILLED_LEN :: nat where "BACKFILLED_LEN = 24"

lemmas raw_len_defs = INT_LEN_def NORMAL_LEN_def BACKFILLED_LEN_def

fun raw_shortroomid :: "raw_id \<Rightarrow> byte list" where
  "raw_shortroomid (RawNormal raw) = take INT_LEN raw"
| "raw_shortroomid (RawBackfilled raw) = take INT_LEN raw"

fun raw_shorteventid :: "raw_id \<Rightarrow> byte list" where
  "raw_shorteventid (RawNormal raw) = take INT_LEN (drop INT_LEN raw)"
| "raw_shorteventid (RawBackfilled raw) = take INT_LEN (drop (2 * INT_LEN) raw)"

fun raw_as_bytes :: "raw_id \<Rightarrow> byte list" where
  "raw_as_bytes (RawNormal raw) = raw"
| "raw_as_bytes (RawBackfilled raw) = raw"

definition raw_from_bytes :: "byte list \<Rightarrow> raw_id option" where
  "raw_from_bytes bs =
     (if length bs = NORMAL_LEN then Some (RawNormal bs)
      else if length bs = BACKFILLED_LEN then Some (RawBackfilled bs)
      else None)"

definition raw_from_id :: "pdu_id \<Rightarrow> raw_id" where
  "raw_from_id i =
     (case id_shorteventid i of
        Normal n \<Rightarrow> RawNormal (to_be_bytes (id_shortroomid i) @ to_be_bytes n)
      | Backfilled n \<Rightarrow>
          RawBackfilled (to_be_bytes (id_shortroomid i) @ to_be_bytes 0 @ to_be_bytes n))"

definition id_from_raw :: "raw_id \<Rightarrow> pdu_id" where
  "id_from_raw raw =
     \<lparr>id_shortroomid = u64_from_u8x8 (raw_shortroomid raw),
      id_shorteventid = from_unsigned (u64_from_u8x8 (raw_shorteventid raw))\<rparr>"

definition raw_pdu_count :: "raw_id \<Rightarrow> count" where
  "raw_pdu_count raw = id_shorteventid (id_from_raw raw)"

fun raw_wf :: "raw_id \<Rightarrow> bool" where
  "raw_wf (RawNormal raw) = (length raw = NORMAL_LEN)"
| "raw_wf (RawBackfilled raw) = (length raw = BACKFILLED_LEN)"

lemma raw_wf_from_id [simp]: "raw_wf (raw_from_id i)"
  by (simp add: raw_from_id_def raw_len_defs split: count.split)

lemma raw_from_as_bytes: "raw_wf r \<Longrightarrow> raw_from_bytes (raw_as_bytes r) = Some r"
  by (cases r) (simp_all add: raw_from_bytes_def raw_len_defs)

lemma id_from_raw_from_id:
  assumes "count_wf (id_shorteventid i)"
  shows "id_from_raw (raw_from_id i) = i"
proof (cases "id_shorteventid i")
  case (Normal n)
  with assms show ?thesis
    by (cases i) (simp add: raw_from_id_def id_from_raw_def u64_from_u8x8_def raw_len_defs
        from_unsigned_def from_signed_def)
next
  case (Backfilled n)
  with assms show ?thesis
    by (cases i) (simp add: raw_from_id_def id_from_raw_def u64_from_u8x8_def raw_len_defs
        from_unsigned_def from_signed_def)
qed

section \<open>Key order\<close>

lemma less_append_same_length:
  "length a = length b \<Longrightarrow> a @ x < b @ y \<longleftrightarrow> a < b \<or> a = b \<and> x < (y :: 'a::linorder list)"
  by (induction a b rule: list_induct2) auto

lemma less_div_mod:
  "(v :: nat) < w \<longleftrightarrow> v div k < w div k \<or> v div k = w div k \<and> v mod k < w mod k"
proof (cases "v div k = w div k")
  case True
  then show ?thesis
    using div_mult_mod_eq [of v k] div_mult_mod_eq [of w k] by (metis nat_add_left_cancel_less less_irrefl)
next
  case False
  then show ?thesis
    using div_le_mono [of v w k] div_le_mono [of w v k] by linarith
qed

lemma be_bytes_less:
  "v < 256 ^ n \<Longrightarrow> w < 256 ^ n \<Longrightarrow> be_bytes n v < be_bytes n w \<longleftrightarrow> v < w"
proof (induction n arbitrary: v w)
  case (Suc n)
  have d: "v div 256 < 256 ^ n" "w div 256 < 256 ^ n"
    using Suc.prems by (simp_all add: less_mult_imp_div_less mult.commute)
  have eq: "be_bytes n (v div 256) = be_bytes n (w div 256) \<longleftrightarrow> v div 256 = w div 256"
    using d by (metis be_value_bytes mod_less)
  have m: "(of_nat (v mod 256) :: byte) < of_nat (w mod 256) \<longleftrightarrow> v mod 256 < w mod 256"
    by (simp add: word_less_nat_alt)
  have "be_bytes (Suc n) v < be_bytes (Suc n) w \<longleftrightarrow>
          v div 256 < w div 256 \<or> v div 256 = w div 256 \<and> v mod 256 < w mod 256"
    using Suc.IH [OF d] eq m by (simp add: less_append_same_length)
  also have "\<dots> \<longleftrightarrow> v < w" by (rule less_div_mod [symmetric])
  finally show ?case .
qed simp

lemma to_be_bytes_less [simp]: "to_be_bytes v < to_be_bytes w \<longleftrightarrow> v < w"
proof -
  have "(256 :: nat) ^ 8 = 2 ^ 64" by simp
  then show ?thesis
    using be_bytes_less [of "unat v" 8 "unat w"] unat_u64_less [of v] unat_u64_less [of w]
    by (simp only: to_be_bytes_def word_less_nat_alt)
qed

lemma to_be_bytes_append_less:
  "to_be_bytes n < to_be_bytes m @ y \<longleftrightarrow> n < m \<or> n = m \<and> y \<noteq> []"
  "to_be_bytes m @ y < to_be_bytes n \<longleftrightarrow> m < n"
  using less_append_same_length [of "to_be_bytes n" "to_be_bytes m" "[]" y]
    less_append_same_length [of "to_be_bytes m" "to_be_bytes n" y "[]"]
  by (cases y; auto)+

lemmas key_order = less_append_same_length to_be_bytes_append_less not_less [symmetric]

definition pdu_key :: "pdu_id \<Rightarrow> key" where
  "pdu_key i = raw_as_bytes (raw_from_id i)"

lemma pdu_key_simps:
  "pdu_key \<lparr>id_shortroomid = r, id_shorteventid = Normal n\<rparr> = to_be_bytes r @ to_be_bytes n"
  "pdu_key \<lparr>id_shortroomid = r, id_shorteventid = Backfilled n\<rparr> =
     to_be_bytes r @ to_be_bytes 0 @ to_be_bytes n"
  by (simp_all add: pdu_key_def raw_from_id_def)

text \<open>The counts a stored event carries: never zero.\<close>

definition count_stored :: "count \<Rightarrow> bool" where
  "count_stored c \<longleftrightarrow> count_wf c \<and> sint (into_signed c) \<noteq> 0"

lemma sint_less_same_sign:
  "(sint (a :: i64) < 0) = (sint b < 0) \<Longrightarrow> a < b \<longleftrightarrow> sint a < sint b"
  using uint_lt2p [of a] uint_lt2p [of b]
  by (auto simp: word_less_def sint_cases_uint split: if_splits)

lemma pdu_key_less_same_room:
  assumes "count_stored c" "count_stored d"
  shows "pdu_key \<lparr>id_shortroomid = r, id_shorteventid = c\<rparr> <
         pdu_key \<lparr>id_shortroomid = r, id_shorteventid = d\<rparr> \<longleftrightarrow> count_less c d"
proof -
  have pos: "0 < n" if "0 < sint n" for n :: u64
    using that by (auto simp: word_less_def sint_cases_uint split: if_splits)
  show ?thesis
    using assms
    by (cases c; cases d)
      (auto simp: pdu_key_simps count_stored_def count_less_def less_append_same_length to_be_bytes_append_less pos
        sint_less_same_sign)
qed

lemma pdu_key_less_room:
  "r < s \<Longrightarrow> pdu_key \<lparr>id_shortroomid = r, id_shorteventid = c\<rparr> <
             pdu_key \<lparr>id_shortroomid = s, id_shorteventid = d\<rparr>"
  by (cases c; cases d) (auto simp: pdu_key_simps less_append_same_length)

end
