(* ===== verification/Timeline_Data.thy ===== *)
theory Timeline_Data
  imports Pdu_Id
begin

text \<open>
  The timeline columns, \<open>src/service/rooms/timeline/data.rs\<close>: where an event is stored,
  how it is found by its id, and the two paginated scans \<open>pdus\<close> and \<open>pdus_rev\<close> that
  every message endpoint is built on. The state is the record of the columns the code
  writes. Event JSON is kept as a value of an arbitrary type and \<open>de\<close> stands for
  \<open>serde_json::from_slice\<close>; \<open>short\<close> is the short room id lookup of the short
  service. \<open>select_ok\<close> (the first of two futures to succeed) is the set of the outcomes it
  may have.
\<close>

section \<open>State and errors\<close>

datatype tl_error =
    TlNotFound string
  | TlJson
  | TlPanic string

record 'j timeline_data =
  eventid_outlierpdu :: "string \<rightharpoonup> 'j"
  eventid_pduid :: "string \<rightharpoonup> key"
  pduid_pdu :: "'j column"
  roomid_lasttimelinecount :: "string \<rightharpoonup> key"

section \<open>Operations\<close>

definition count_to_id ::
    "(string \<Rightarrow> short_id option) \<Rightarrow> string \<Rightarrow> count \<Rightarrow> direction \<Rightarrow> tl_error + raw_id" where
  "count_to_id short room_id shorteventid dir =
     res_bind (ok_or (TlNotFound ''Room not found'') (short room_id))
       (\<lambda>shortroomid.
          Inr (raw_from_id \<lparr>id_shortroomid = shortroomid,
                            id_shorteventid = count_saturating_inc shorteventid dir\<rparr>))"

definition from_json_slice :: "('j \<Rightarrow> 'p option) \<Rightarrow> key \<times> 'j \<Rightarrow> tl_error + (count \<times> 'p)" where
  "from_json_slice de kv =
     (case raw_from_bytes (fst kv) of
        None \<Rightarrow> Inl (TlPanic ''unrecognized RawId length'')
      | Some raw \<Rightarrow>
          (case de (snd kv) of
             None \<Rightarrow> Inl TlJson
           | Some p \<Rightarrow> Inr (raw_pdu_count raw, p)))"

definition pdus ::
    "('j \<Rightarrow> 'p option) \<Rightarrow> (string \<Rightarrow> short_id option) \<Rightarrow> 'j timeline_data \<Rightarrow> string \<Rightarrow> count \<Rightarrow>
     tl_error + (tl_error + (count \<times> 'p)) list" where
  "pdus de short d room_id start =
     res_bind (count_to_id short room_id start Forward)
       (\<lambda>current.
          let prefix = raw_shortroomid current in
          Inr (map (from_json_slice de)
            (takeWhile (\<lambda>kv. starts_with (fst kv) prefix)
              (kv_stream_from (pduid_pdu d) (raw_as_bytes current)))))"

definition pdus_rev ::
    "('j \<Rightarrow> 'p option) \<Rightarrow> (string \<Rightarrow> short_id option) \<Rightarrow> 'j timeline_data \<Rightarrow> string \<Rightarrow> count \<Rightarrow>
     tl_error + (tl_error + (count \<times> 'p)) list" where
  "pdus_rev de short d room_id until =
     res_bind (count_to_id short room_id until Backward)
       (\<lambda>current.
          let prefix = raw_shortroomid current in
          Inr (map (from_json_slice de)
            (takeWhile (\<lambda>kv. starts_with (fst kv) prefix)
              (kv_rev_stream_from (pduid_pdu d) (raw_as_bytes current)))))"

text \<open>\<open>try_next\<close> on the stream of results: the first item, its error propagated.\<close>

definition try_next :: "tl_error + (tl_error + 'a) list \<Rightarrow> tl_error + 'a option" where
  "try_next s =
     res_bind s (\<lambda>xs. case xs of [] \<Rightarrow> Inr None | x # _ \<Rightarrow> res_bind x (\<lambda>a. Inr (Some a)))"

fun is_normal :: "count \<Rightarrow> bool" where
  "is_normal (Normal n) = True"
| "is_normal (Backfilled n) = False"

definition last_timeline_count ::
    "('j \<Rightarrow> 'p option) \<Rightarrow> (string \<Rightarrow> short_id option) \<Rightarrow> 'j timeline_data \<Rightarrow> string \<Rightarrow> tl_error + count" where
  "last_timeline_count de short d room_id =
     res_bind (try_next (pdus_rev de short d room_id count_max))
       (\<lambda>r. Inr (case r of
                    Some (c, _) \<Rightarrow> if is_normal c then c else count_max
                  | None \<Rightarrow> count_max))"

definition latest_pdu_in_room ::
    "('j \<Rightarrow> 'p option) \<Rightarrow> (string \<Rightarrow> short_id option) \<Rightarrow> 'j timeline_data \<Rightarrow> string \<Rightarrow> tl_error + 'p" where
  "latest_pdu_in_room de short d room_id =
     res_bind (try_next (pdus_rev de short d room_id count_max))
       (\<lambda>r. ok_or (TlNotFound ''no PDU's found in room'') (map_option snd r))"

definition room_activity ::
    "('j \<Rightarrow> 'p option) \<Rightarrow> (string \<Rightarrow> short_id option) \<Rightarrow> 'j timeline_data \<Rightarrow> string \<Rightarrow>
     tl_error + (u64 \<times> 'j timeline_data)" where
  "room_activity de short d room_id =
     (case Option.bind (roomid_lasttimelinecount d room_id) u64_from_bytes of
        Some n \<Rightarrow> Inr (n, d)
      | None \<Rightarrow>
          res_bind (try_next (pdus_rev de short d room_id count_max))
            (\<lambda>r. case r of
                    Some (Normal n, _) \<Rightarrow>
                      Inr (n, d\<lparr>roomid_lasttimelinecount :=
                                      (roomid_lasttimelinecount d)(room_id \<mapsto> to_be_bytes n)\<rparr>)
                  | _ \<Rightarrow> Inr (0, d)))"

definition get_pdu_id :: "'j timeline_data \<Rightarrow> string \<Rightarrow> tl_error + raw_id" where
  "get_pdu_id d event_id =
     res_bind (ok_or (TlNotFound ''eventid_pduid'') (eventid_pduid d event_id))
       (\<lambda>bs. ok_or (TlPanic ''unrecognized RawId length'') (raw_from_bytes bs))"

definition get_pdu_count :: "'j timeline_data \<Rightarrow> string \<Rightarrow> tl_error + count" where
  "get_pdu_count d event_id = res_bind (get_pdu_id d event_id) (\<lambda>raw. Inr (raw_pdu_count raw))"

definition get_non_outlier_pdu ::
    "('j \<Rightarrow> 'p option) \<Rightarrow> 'j timeline_data \<Rightarrow> string \<Rightarrow> tl_error + 'p" where
  "get_non_outlier_pdu de d event_id =
     res_bind (get_pdu_id d event_id)
       (\<lambda>raw. res_bind (ok_or (TlNotFound ''pduid_pdu'') (kv_get (pduid_pdu d) (raw_as_bytes raw)))
         (\<lambda>j. ok_or TlJson (de j)))"

definition get_outlier_pdu ::
    "('j \<Rightarrow> 'p option) \<Rightarrow> 'j timeline_data \<Rightarrow> string \<Rightarrow> tl_error + 'p" where
  "get_outlier_pdu de d event_id =
     res_bind (ok_or (TlNotFound ''eventid_outlierpdu'') (eventid_outlierpdu d event_id))
       (\<lambda>j. ok_or TlJson (de j))"

definition select_ok :: "tl_error + 'a \<Rightarrow> tl_error + 'a \<Rightarrow> (tl_error + 'a) set" where
  "select_ok a b =
     (if (\<exists>x \<in> {a, b}. \<not> isl x) then {x \<in> {a, b}. \<not> isl x} else {a, b})"

definition get_pdu ::
    "('j \<Rightarrow> 'p option) \<Rightarrow> 'j timeline_data \<Rightarrow> string \<Rightarrow> (tl_error + 'p) set" where
  "get_pdu de d event_id =
     select_ok (get_non_outlier_pdu de d event_id) (get_outlier_pdu de d event_id)"

definition append_pdu ::
    "raw_id \<Rightarrow> string \<Rightarrow> string \<Rightarrow> 'j \<Rightarrow> count \<Rightarrow> 'j timeline_data \<Rightarrow> 'j timeline_data" where
  "append_pdu pdu_id event_id room_id json cnt d =
     d\<lparr>pduid_pdu := kv_insert (raw_as_bytes pdu_id) json (pduid_pdu d),
       eventid_pduid := (eventid_pduid d)(event_id \<mapsto> raw_as_bytes pdu_id),
       eventid_outlierpdu := (eventid_outlierpdu d)(event_id := None),
       roomid_lasttimelinecount :=
         (roomid_lasttimelinecount d)(room_id \<mapsto> to_be_bytes (into_unsigned cnt))\<rparr>"

definition prepend_backfill_pdu ::
    "raw_id \<Rightarrow> string \<Rightarrow> 'j \<Rightarrow> 'j timeline_data \<Rightarrow> 'j timeline_data" where
  "prepend_backfill_pdu pdu_id event_id json d =
     d\<lparr>pduid_pdu := kv_insert (raw_as_bytes pdu_id) json (pduid_pdu d),
       eventid_pduid := (eventid_pduid d)(event_id \<mapsto> raw_as_bytes pdu_id),
       eventid_outlierpdu := (eventid_outlierpdu d)(event_id := None)\<rparr>"

definition replace_pdu :: "raw_id \<Rightarrow> 'j \<Rightarrow> 'j timeline_data \<Rightarrow> tl_error + 'j timeline_data" where
  "replace_pdu pdu_id pdu_json d =
     (case kv_get (pduid_pdu d) (raw_as_bytes pdu_id) of
        None \<Rightarrow> Inl (TlNotFound ''PDU does not exist.'')
      | Some _ \<Rightarrow> Inr (d\<lparr>pduid_pdu := kv_insert (raw_as_bytes pdu_id) pdu_json (pduid_pdu d)\<rparr>))"

section \<open>Invariant\<close>

text \<open>
  The column is sorted and every key in it is the key of an event with a non-zero,
  well-formed count; every indexed event points to a stored entry; an event is not both in
  the timeline and an outlier.
\<close>

definition timeline_wf :: "'j timeline_data \<Rightarrow> bool" where
  "timeline_wf d \<longleftrightarrow>
     kv_sorted (pduid_pdu d) \<and>
     (\<forall>k j. kv_get (pduid_pdu d) k = Some j \<longrightarrow> (\<exists>r c. count_stored c \<and>
        k = pdu_key \<lparr>id_shortroomid = r, id_shorteventid = c\<rparr>)) \<and>
     (\<forall>e k. eventid_pduid d e = Some k \<longrightarrow> kv_get (pduid_pdu d) k \<noteq> None) \<and>
     dom (eventid_pduid d) \<inter> dom (eventid_outlierpdu d) = {}"

text \<open>The timeline of a room: the positions of its events with their JSON.\<close>

definition room_entries :: "'j timeline_data \<Rightarrow> short_id \<Rightarrow> (count \<times> 'j) set" where
  "room_entries d r =
     {(c, j). count_stored c \<and>
        kv_get (pduid_pdu d) (pdu_key \<lparr>id_shortroomid = r, id_shorteventid = c\<rparr>) = Some j}"

definition decode_entry :: "('j \<Rightarrow> 'p option) \<Rightarrow> count \<times> 'j \<Rightarrow> tl_error + (count \<times> 'p)" where
  "decode_entry de cj = (case de (snd cj) of None \<Rightarrow> Inl TlJson | Some p \<Rightarrow> Inr (fst cj, p))"

section \<open>Scan lemmas\<close>

lemma pdu_key_room_prefix:
  "\<exists>z. pdu_key \<lparr>id_shortroomid = r, id_shorteventid = c\<rparr> = to_be_bytes r @ z"
  by (cases c) (auto simp: pdu_key_simps)

lemma pdu_key_starts_with [simp]:
  "starts_with (pdu_key \<lparr>id_shortroomid = r, id_shorteventid = c\<rparr>) (to_be_bytes s) \<longleftrightarrow> r = s"
proof -
  obtain z where z: "pdu_key \<lparr>id_shortroomid = r, id_shorteventid = c\<rparr> = to_be_bytes r @ z"
    using pdu_key_room_prefix by blast
  show ?thesis unfolding starts_with_iff z using to_be_bytes_inject [of r s]
    by (auto simp: append_eq_append_conv)
qed

lemma raw_shortroomid_from_id [simp]:
  "raw_shortroomid (raw_from_id i) = to_be_bytes (id_shortroomid i)"
  by (simp add: raw_from_id_def INT_LEN_def split: count.split)

lemma raw_from_bytes_pdu_key [simp]: "raw_from_bytes (pdu_key i) = Some (raw_from_id i)"
  unfolding pdu_key_def by (rule raw_from_as_bytes) simp

lemma raw_pdu_count_from_id [simp]:
  "count_wf c \<Longrightarrow> raw_pdu_count (raw_from_id \<lparr>id_shortroomid = r, id_shorteventid = c\<rparr>) = c"
  by (simp add: raw_pdu_count_def id_from_raw_from_id)

lemma count_stored_wf [simp]: "count_stored c \<Longrightarrow> count_wf c"
  by (simp add: count_stored_def)

lemma from_json_slice_pdu_key:
  "count_stored c \<Longrightarrow>
   from_json_slice de (pdu_key \<lparr>id_shortroomid = r, id_shorteventid = c\<rparr>, j) = decode_entry de (c, j)"
  by (simp add: from_json_slice_def decode_entry_def split: option.split)

text \<open>The streams cut at the end of the room are exactly the room's keys on one side.\<close>

lemma room_scan_forward:
  assumes "kv_sorted col"
  shows "set (takeWhile (\<lambda>kv. starts_with (fst kv) (to_be_bytes r))
           (kv_stream_from col (to_be_bytes r @ x))) =
         {(k, j). to_be_bytes r @ x \<le> k \<and> starts_with k (to_be_bytes r) \<and> kv_get col k = Some j}"
proof (rule kv.takeWhile_stream_from [OF assms])
  fix a b assume "to_be_bytes r @ x \<le> a" "a < b" "starts_with b (to_be_bytes r)"
  then show "starts_with a (to_be_bytes r)"
    unfolding starts_with_iff using sandwich_prefix [of "to_be_bytes r" x a] less_imp_le by blast
qed

lemma room_scan_backward:
  assumes "kv_sorted col"
  shows "set (takeWhile (\<lambda>kv. starts_with (fst kv) (to_be_bytes r))
           (kv_rev_stream_from col (to_be_bytes r @ x))) =
         {(k, j). k \<le> to_be_bytes r @ x \<and> starts_with k (to_be_bytes r) \<and> kv_get col k = Some j}"
proof (rule kv.takeWhile_rev_stream_from [OF assms])
  fix a b assume "a \<le> to_be_bytes r @ x" "b < a" "starts_with b (to_be_bytes r)"
  then show "starts_with a (to_be_bytes r)"
    unfolding starts_with_iff using sandwich_prefix [of "to_be_bytes r" _ a x] less_imp_le by blast
qed

lemma timeline_wf_key:
  assumes "timeline_wf d" "kv_get (pduid_pdu d) k = Some j"
  obtains r c where "count_stored c" "k = pdu_key \<lparr>id_shortroomid = r, id_shorteventid = c\<rparr>"
  using assms unfolding timeline_wf_def by blast

text \<open>
  A list of entries of one room, sorted by key either way, is the same list of counts
  sorted in timeline order.
\<close>

definition entry_of :: "key \<times> 'j \<Rightarrow> count \<times> 'j" where
  "entry_of kv = (raw_pdu_count (the (raw_from_bytes (fst kv))), snd kv)"

lemma entry_of_pdu_key [simp]:
  "count_wf c \<Longrightarrow> entry_of (pdu_key \<lparr>id_shortroomid = r, id_shorteventid = c\<rparr>, j) = (c, j)"
  by (simp add: entry_of_def)

definition room_keys :: "short_id \<Rightarrow> (key \<times> 'j) list \<Rightarrow> bool" where
  "room_keys r xs \<longleftrightarrow>
     (\<forall>e \<in> set xs. \<exists>c. count_stored c \<and> fst e = pdu_key \<lparr>id_shortroomid = r, id_shorteventid = c\<rparr>)"

lemma room_keys_decode:
  "room_keys r xs \<Longrightarrow> map (from_json_slice de) xs = map (decode_entry de) (map entry_of xs)"
  by (induction xs) (auto simp: room_keys_def from_json_slice_pdu_key)

lemma room_keys_sorted:
  "room_keys r xs \<Longrightarrow> sorted_wrt (<) (map fst xs) \<Longrightarrow> sorted_wrt count_less (map fst (map entry_of xs))"
proof (induction xs)
  case (Cons e xs)
  then obtain c where c: "count_stored c" "fst e = pdu_key \<lparr>id_shortroomid = r, id_shorteventid = c\<rparr>"
    by (auto simp: room_keys_def)
  have "count_less (fst (entry_of e)) (fst (entry_of x))" if x: "x \<in> set xs" for x
  proof -
    obtain c' where c': "count_stored c'" "fst x = pdu_key \<lparr>id_shortroomid = r, id_shorteventid = c'\<rparr>"
      using Cons.prems(1) x by (auto simp: room_keys_def)
    have "fst e < fst x" using Cons.prems(2) x by auto
    then show ?thesis using c c' pdu_key_less_same_room [OF c(1) c'(1), of r]
      by (cases e; cases x) simp
  qed
  with Cons show ?case by (simp add: room_keys_def)
qed simp

lemma room_keys_rev_sorted:
  assumes "room_keys r xs" "sorted_wrt (>) (map fst xs)"
  shows "sorted_wrt (\<lambda>a b. count_less b a) (map fst (map entry_of xs))"
proof -
  have "room_keys r (rev xs)" "sorted_wrt (<) (map fst (rev xs))"
    using assms by (simp_all add: room_keys_def rev_map [symmetric] sorted_wrt_rev)
  from room_keys_sorted [OF this] show ?thesis
    by (simp add: rev_map [symmetric] sorted_wrt_rev)
qed

section \<open>Positions before and after a token\<close>

lemma step_forward:
  assumes "count_wf c" "sint (into_signed c) < i64_max"
  shows "sint (into_signed (count_saturating_inc c Forward)) = sint (into_signed c) + 1"
    and "count_wf (count_saturating_inc c Forward)"
proof -
  have "sint (into_signed c) + uint (1 :: u64) \<le> i64_max" using assms(2) by simp
  from count_checked_add_wf [OF assms(1) _ this] obtain d where
    "count_checked_add c 1 = Inr d" "count_wf d" "sint (into_signed d) = sint (into_signed c) + 1"
    by auto
  then show "sint (into_signed (count_saturating_inc c Forward)) = sint (into_signed c) + 1"
    and "count_wf (count_saturating_inc c Forward)"
    using count_saturating_add_eq_checked by auto
qed

lemma step_backward:
  assumes "count_wf c" "i64_min < sint (into_signed c)" "sint (into_signed c) \<noteq> 1"
  shows "sint (into_signed (count_saturating_inc c Backward)) = sint (into_signed c) - 1"
    and "count_wf (count_saturating_inc c Backward)"
proof -
  have "sint (into_signed (count_saturating_inc c Backward)) = sint (into_signed c) - 1 \<and>
        count_wf (count_saturating_inc c Backward)"
  proof (cases c)
    case (Normal n)
    then have n: "uint n < 2 ^ 63" "sint n = uint n" "1 < uint n"
      using assms sint_normal [of n] by auto
    then have m: "uint (n - 1) = uint n - 1" by (simp add: uint_word_ariths)
    have "unat (1 :: u64) \<le> unat n"
      using n(3) unfolding word_le_nat_alt [symmetric] word_le_def by simp
    moreover have "sint (n - 1) = uint n - 1" using m n(1) by (subst sint_small) auto
    ultimately show ?thesis using Normal n by (simp add: saturating_sub_u64_def)
  next
    case (Backfilled n)
    then have n: "i64_min \<le> sint n - 1" "sint n \<le> 0" using assms by auto
    then show ?thesis using Backfilled by (simp add: saturating_sub_i64_def sint_saturate_i64)
  qed
  then show "sint (into_signed (count_saturating_inc c Backward)) = sint (into_signed c) - 1"
    and "count_wf (count_saturating_inc c Backward)" by auto
qed

section \<open>The scans\<close>

lemma room_key_entry:
  assumes "timeline_wf d" "kv_get (pduid_pdu d) k = Some j" "starts_with k (to_be_bytes r)"
  shows "\<exists>c. (c, j) \<in> room_entries d r \<and> k = pdu_key \<lparr>id_shortroomid = r, id_shorteventid = c\<rparr>"
proof -
  obtain r' c where "count_stored c" "k = pdu_key \<lparr>id_shortroomid = r', id_shorteventid = c\<rparr>"
    using timeline_wf_key [OF assms(1,2)] .
  then show ?thesis using assms(2,3) by (auto simp: room_entries_def)
qed

lemma room_side_keys:
  assumes wf: "timeline_wf d" and "count_stored s"
    and start: "start = pdu_key \<lparr>id_shortroomid = r, id_shorteventid = s\<rparr>"
  shows "{(k, j). start \<le> k \<and> starts_with k (to_be_bytes r) \<and> kv_get (pduid_pdu d) k = Some j} =
         (\<lambda>(c, j). (pdu_key \<lparr>id_shortroomid = r, id_shorteventid = c\<rparr>, j)) `
           {(c, j) \<in> room_entries d r. \<not> count_less c s}"
    and "{(k, j). k \<le> start \<and> starts_with k (to_be_bytes r) \<and> kv_get (pduid_pdu d) k = Some j} =
         (\<lambda>(c, j). (pdu_key \<lparr>id_shortroomid = r, id_shorteventid = c\<rparr>, j)) `
           {(c, j) \<in> room_entries d r. \<not> count_less s c}"
proof -
  have lt: "count_less c s \<longleftrightarrow> pdu_key \<lparr>id_shortroomid = r, id_shorteventid = c\<rparr> < start"
    "count_less s c \<longleftrightarrow> start < pdu_key \<lparr>id_shortroomid = r, id_shorteventid = c\<rparr>"
    if "(c, j) \<in> room_entries d r" for c j
    using that assms(2) by (simp_all add: start room_entries_def pdu_key_less_same_room)
  have mem: "{(k, j). Q k \<and> starts_with k (to_be_bytes r) \<and> kv_get (pduid_pdu d) k = Some j} =
      (\<lambda>(c, j). (pdu_key \<lparr>id_shortroomid = r, id_shorteventid = c\<rparr>, j)) `
        {(c, j) \<in> room_entries d r. Q (pdu_key \<lparr>id_shortroomid = r, id_shorteventid = c\<rparr>)}" for Q
    using room_key_entry [OF wf] by (fastforce simp: room_entries_def)
  show "{(k, j). start \<le> k \<and> starts_with k (to_be_bytes r) \<and> kv_get (pduid_pdu d) k = Some j} =
         (\<lambda>(c, j). (pdu_key \<lparr>id_shortroomid = r, id_shorteventid = c\<rparr>, j)) `
           {(c, j) \<in> room_entries d r. \<not> count_less c s}"
    unfolding mem using lt(1) by (intro arg_cong2 [of _ _ _ _ image]) auto
  show "{(k, j). k \<le> start \<and> starts_with k (to_be_bytes r) \<and> kv_get (pduid_pdu d) k = Some j} =
         (\<lambda>(c, j). (pdu_key \<lparr>id_shortroomid = r, id_shorteventid = c\<rparr>, j)) `
           {(c, j) \<in> room_entries d r. \<not> count_less s c}"
    unfolding mem using lt(2) by (intro arg_cong2 [of _ _ _ _ image]) auto
qed

lemma room_keys_of_entries:
  assumes "set xs = (\<lambda>(c, j). (pdu_key \<lparr>id_shortroomid = r, id_shorteventid = c\<rparr>, j)) `
                      {(c, j) \<in> room_entries d r. P c}"
  shows "room_keys r xs" and "set (map entry_of xs) = {(c, j) \<in> room_entries d r. P c}"
proof -
  show "room_keys r xs" using assms by (auto simp: room_keys_def room_entries_def)
  have "set (map entry_of xs) = entry_of ` set xs" by simp
  also have "\<dots> = {(c, j) \<in> room_entries d r. P c}"
    unfolding assms by (force simp: room_entries_def image_iff)
  finally show "set (map entry_of xs) = {(c, j) \<in> room_entries d r. P c}" .
qed

lemma pdus_scan:
  assumes wf: "timeline_wf d" and r: "short room = Some r"
    and c: "count_wf start" "sint (into_signed start) < i64_max" "sint (into_signed start) \<noteq> - 1"
  shows "\<exists>xs. pdus de short d room start = Inr (map (decode_entry de) xs) \<and>
              sorted_wrt count_less (map fst xs) \<and>
              set xs = {(c, j) \<in> room_entries d r. count_less start c}"
proof -
  define s where "s = count_saturating_inc start Forward"
  have s: "sint (into_signed s) = sint (into_signed start) + 1" "count_stored s"
    using step_forward [OF c(1,2)] c(3) by (auto simp: s_def count_stored_def)
  let ?k = "pdu_key \<lparr>id_shortroomid = r, id_shorteventid = s\<rparr>"
  obtain z where z: "?k = to_be_bytes r @ z" using pdu_key_room_prefix by blast
  define ks where "ks = takeWhile (\<lambda>kv. starts_with (fst kv) (to_be_bytes r))
                          (kv_stream_from (pduid_pdu d) ?k)"
  have sorted: "kv_sorted (pduid_pdu d)" using wf by (simp add: timeline_wf_def)
  have "set ks = (\<lambda>(c, j). (pdu_key \<lparr>id_shortroomid = r, id_shorteventid = c\<rparr>, j)) `
                   {(c, j) \<in> room_entries d r. \<not> count_less c s}"
    using room_scan_forward [OF sorted, of r z] room_side_keys(1) [OF wf s(2) refl, of r]
    by (simp add: ks_def z)
  note rk = room_keys_of_entries [OF this]
  have "sorted_wrt count_less (map fst (map entry_of ks))"
    using rk(1) kv.sorted_takeWhile_stream_from(1) [OF sorted]
    by (intro room_keys_sorted) (auto simp: ks_def)
  moreover have "pdus de short d room start = Inr (map (decode_entry de) (map entry_of ks))"
    using r room_keys_decode [OF rk(1)]
    by (simp add: pdus_def count_to_id_def ks_def s_def pdu_key_def)
  moreover have "set (map entry_of ks) = {(c, j) \<in> room_entries d r. count_less start c}"
    using rk(2) s(1) by (auto simp: count_less_def)
  ultimately show ?thesis by blast
qed

lemma pdus_rev_scan:
  assumes wf: "timeline_wf d" and r: "short room = Some r"
    and c: "count_wf until" "i64_min < sint (into_signed until)" "sint (into_signed until) \<noteq> 1"
  shows "\<exists>xs. pdus_rev de short d room until = Inr (map (decode_entry de) xs) \<and>
              sorted_wrt (\<lambda>a b. count_less b a) (map fst xs) \<and>
              set xs = {(c, j) \<in> room_entries d r. count_less c until}"
proof -
  define s where "s = count_saturating_inc until Backward"
  have s: "sint (into_signed s) = sint (into_signed until) - 1" "count_stored s"
    using step_backward [OF c] c(3) by (auto simp: s_def count_stored_def)
  let ?k = "pdu_key \<lparr>id_shortroomid = r, id_shorteventid = s\<rparr>"
  obtain z where z: "?k = to_be_bytes r @ z" using pdu_key_room_prefix by blast
  define ks where "ks = takeWhile (\<lambda>kv. starts_with (fst kv) (to_be_bytes r))
                          (kv_rev_stream_from (pduid_pdu d) ?k)"
  have sorted: "kv_sorted (pduid_pdu d)" using wf by (simp add: timeline_wf_def)
  have "set ks = (\<lambda>(c, j). (pdu_key \<lparr>id_shortroomid = r, id_shorteventid = c\<rparr>, j)) `
                   {(c, j) \<in> room_entries d r. \<not> count_less s c}"
    using room_scan_backward [OF sorted, of r z] room_side_keys(2) [OF wf s(2) refl, of r]
    by (simp add: ks_def z)
  note rk = room_keys_of_entries [OF this]
  have "sorted_wrt (\<lambda>a b. count_less b a) (map fst (map entry_of ks))"
    using rk(1) kv.sorted_takeWhile_stream_from(2) [OF sorted]
    by (intro room_keys_rev_sorted) (auto simp: ks_def)
  moreover have "pdus_rev de short d room until = Inr (map (decode_entry de) (map entry_of ks))"
    using r room_keys_decode [OF rk(1)]
    by (simp add: pdus_rev_def count_to_id_def ks_def s_def pdu_key_def)
  moreover have "set (map entry_of ks) = {(c, j) \<in> room_entries d r. count_less c until}"
    using rk(2) s(1) by (auto simp: count_less_def)
  ultimately show ?thesis by blast
qed

section \<open>Writes\<close>

lemma timeline_wf_store:
  assumes wf: "timeline_wf d" and c: "count_stored c"
    and k: "k = pdu_key \<lparr>id_shortroomid = r, id_shorteventid = c\<rparr>"
  shows "timeline_wf (d\<lparr>pduid_pdu := kv_insert k j (pduid_pdu d),
             eventid_pduid := (eventid_pduid d)(e \<mapsto> k),
             eventid_outlierpdu := (eventid_outlierpdu d)(e := None)\<rparr>) \<and>
         timeline_wf (d\<lparr>pduid_pdu := kv_insert k j (pduid_pdu d),
             eventid_pduid := (eventid_pduid d)(e \<mapsto> k),
             eventid_outlierpdu := (eventid_outlierpdu d)(e := None),
             roomid_lasttimelinecount := l\<rparr>)"
proof -
  have sorted: "kv_sorted (pduid_pdu d)" using wf by (simp add: timeline_wf_def)
  have get: "kv_get (kv_insert k j (pduid_pdu d)) = (kv_get (pduid_pdu d))(k \<mapsto> j)"
    by (rule kv_get_insert [OF sorted])
  have "\<exists>r c. count_stored c \<and> k = pdu_key \<lparr>id_shortroomid = r, id_shorteventid = c\<rparr>"
    using c k by blast
  with wf show ?thesis
    unfolding timeline_wf_def by (auto simp: get kv_sorted_insert)
qed

lemma append_pdu_wf:
  assumes "timeline_wf d" "count_stored c" "raw = raw_from_id \<lparr>id_shortroomid = r, id_shorteventid = c\<rparr>"
  shows "timeline_wf (append_pdu raw e room j c d)"
  using timeline_wf_store [OF assms(1,2) refl, where r = r and j = j and e = e] by (simp add: append_pdu_def assms(3) pdu_key_def)

lemma prepend_backfill_pdu_wf:
  assumes "timeline_wf d" "count_stored c" "raw = raw_from_id \<lparr>id_shortroomid = r, id_shorteventid = c\<rparr>"
  shows "timeline_wf (prepend_backfill_pdu raw e j d)"
  using timeline_wf_store [OF assms(1,2) refl, where r = r and j = j and e = e]
  by (simp add: prepend_backfill_pdu_def assms(3) pdu_key_def)

lemma replace_pdu_wf:
  assumes "timeline_wf d" "replace_pdu raw j d = Inr d'"
  shows "timeline_wf d'"
proof -
  have sorted: "kv_sorted (pduid_pdu d)" using assms(1) by (simp add: timeline_wf_def)
  obtain j0 where j0: "kv_get (pduid_pdu d) (raw_as_bytes raw) = Some j0"
    and d': "d' = d\<lparr>pduid_pdu := kv_insert (raw_as_bytes raw) j (pduid_pdu d)\<rparr>"
    using assms(2) by (auto simp: replace_pdu_def split: option.splits)
  then show ?thesis
    using assms(1) by (auto simp: timeline_wf_def kv_get_insert [OF sorted] kv_sorted_insert)
qed

section \<open>Properties\<close>

text \<open>
  C20: a forward scan is complete and ordered: on a well-formed timeline, \<open>pdus(room, start)\<close>
  yields exactly the room's events whose position is after \<open>start\<close>, each once, in
  increasing position, whatever mix of backfilled and live events the room has. The token
  \<open>-1\<close> and the greatest position are excluded.
\<close>

theorem pdus_after:
  assumes "timeline_wf d" "short room = Some r" "count_wf start"
    and "sint (into_signed start) < i64_max" "sint (into_signed start) \<noteq> - 1"
  shows "\<exists>xs. pdus de short d room start = Inr (map (decode_entry de) xs) \<and>
              sorted_wrt count_less (map fst xs) \<and>
              set xs = {(c, j) \<in> room_entries d r. count_less start c}"
  using assms by (rule pdus_scan)

definition sample_timeline :: "string timeline_data" where
  "sample_timeline =
     append_pdu (raw_from_id \<lparr>id_shortroomid = 7, id_shorteventid = Normal 3\<rparr>) ''$live'' ''!r'' ''live'' (Normal 3)
       (prepend_backfill_pdu (raw_from_id \<lparr>id_shortroomid = 7, id_shorteventid = Backfilled (- 5)\<rparr>) ''$old'' ''old''
         \<lparr>eventid_outlierpdu = Map.empty, eventid_pduid = Map.empty, pduid_pdu = [],
          roomid_lasttimelinecount = Map.empty\<rparr>)"

lemma sample_timeline_wf: "timeline_wf sample_timeline"
  unfolding sample_timeline_def
  by (intro append_pdu_wf prepend_backfill_pdu_wf refl)
    (simp_all add: timeline_wf_def kv_sorted_def kv_get_def count_stored_def)

theorem pdus_after_witness:
  "\<exists>xs. pdus Some (\<lambda>_. Some 7) sample_timeline ''!r'' (Backfilled (- 9)) = Inr (map (decode_entry Some) xs) \<and>
        sorted_wrt count_less (map fst xs) \<and>
        set xs = {(c, j) \<in> room_entries sample_timeline 7. count_less (Backfilled (- 9)) c}"
  by (rule pdus_after [OF sample_timeline_wf]) simp_all

text \<open>
  C21: a backward scan is complete and ordered: \<open>pdus_rev(room, until)\<close> yields exactly the
  room's events whose position is before \<open>until\<close>, each once, in decreasing position. The
  token \<open>1\<close> and the least position are excluded.
\<close>

theorem pdus_rev_before:
  assumes "timeline_wf d" "short room = Some r" "count_wf until"
    and "i64_min < sint (into_signed until)" "sint (into_signed until) \<noteq> 1"
  shows "\<exists>xs. pdus_rev de short d room until = Inr (map (decode_entry de) xs) \<and>
              sorted_wrt (\<lambda>a b. count_less b a) (map fst xs) \<and>
              set xs = {(c, j) \<in> room_entries d r. count_less c until}"
  using assms by (rule pdus_rev_scan)

theorem pdus_rev_before_witness:
  "\<exists>xs. pdus_rev Some (\<lambda>_. Some 7) sample_timeline ''!r'' (Normal 4) = Inr (map (decode_entry Some) xs) \<and>
        sorted_wrt (\<lambda>a b. count_less b a) (map fst xs) \<and>
        set xs = {(c, j) \<in> room_entries sample_timeline 7. count_less c (Normal 4)}"
  by (rule pdus_rev_before [OF sample_timeline_wf]) simp_all

text \<open>
  The two excluded tokens really fail. Scanning forward from \<open>-1\<close> seeks to the key of
  \<open>Backfilled 0\<close>, which sorts below every backfilled event, and returns an event from
  before the token; scanning backward from \<open>1\<close> seeks to the key of \<open>Normal 0\<close>, a proper
  prefix of every backfilled key, and misses the backfilled history altogether.
\<close>

lemma pagination_across_zero:
  "pdus Some (\<lambda>_. Some 7) sample_timeline ''!r'' (Backfilled (- 1)) =
     Inr [Inr (Backfilled (- 5), ''old''), Inr (Normal 3, ''live'')] \<and>
   pdus_rev Some (\<lambda>_. Some 7) sample_timeline ''!r'' (Normal 1) = Inr [] \<and>
   (Backfilled (- 5), ''old'') \<in> room_entries sample_timeline 7"
proof -
  let ?old = "to_be_bytes 7 @ to_be_bytes 0 @ to_be_bytes (- 5)" and ?live = "to_be_bytes 7 @ to_be_bytes 3"
  have "length (to_be_bytes 3) \<noteq> length (to_be_bytes 0 @ to_be_bytes (- 5))" by simp
  then have ne: "to_be_bytes 3 \<noteq> to_be_bytes 0 @ to_be_bytes (- 5)" by metis
  have col: "pduid_pdu sample_timeline = [(?old, ''old''), (?live, ''live'')]"
    by (simp add: sample_timeline_def append_pdu_def prepend_backfill_pdu_def raw_from_id_def key_order ne)
  have dec: "from_json_slice Some (?old, ''old'') = Inr (Backfilled (- 5), ''old'')"
    "from_json_slice Some (?live, ''live'') = Inr (Normal 3, ''live'')"
    using from_json_slice_pdu_key [of "Backfilled (- 5)" Some 7] from_json_slice_pdu_key [of "Normal 3" Some 7]
    by (simp_all add: pdu_key_simps count_stored_def decode_entry_def)
  have "(Backfilled (- 5), ''old'') \<in> room_entries sample_timeline 7"
    by (simp add: room_entries_def count_stored_def col kv_get_def pdu_key_simps)
  moreover have "pdus Some (\<lambda>_. Some 7) sample_timeline ''!r'' (Backfilled (- 1)) =
     Inr [Inr (Backfilled (- 5), ''old''), Inr (Normal 3, ''live'')]"
    by (simp add: pdus_def count_to_id_def saturating_add_i64_def saturate_i64_def from_signed_def
        raw_from_id_def INT_LEN_def kv_stream_from_def col key_order starts_with_def dec)
  moreover have "pdus_rev Some (\<lambda>_. Some 7) sample_timeline ''!r'' (Normal 1) = Inr []"
    by (simp add: pdus_rev_def count_to_id_def saturating_sub_u64_def raw_from_id_def INT_LEN_def
        kv_rev_stream_from_def col key_order)
  ultimately show ?thesis by blast
qed



end
