(* ===== verification/Short_Ids.thy ===== *)
theory Short_Ids
  imports Pdu_Id
begin

text \<open>
  The global counter (\<open>src/service/globals/data.rs\<close>) and the tables of short ids
  (\<open>src/service/rooms/short/mod.rs\<close>) that replace event ids, state keys, room ids and
  state hashes by \<open>u64\<close>s drawn from it. The state is one record; every operation that may
  create an id returns it with the new state. What the other services rely on is the locale
  \<open>short_table\<close>, interpreted below for each of the four tables.
\<close>

section \<open>State\<close>

type_synonym state_key_pair = "string \<times> string"

record short_state =
  counter :: u64
  global_count :: "byte list option"
  eventid_shorteventid :: "string \<rightharpoonup> u64"
  shorteventid_eventid :: "u64 \<rightharpoonup> string"
  statekey_shortstatekey :: "state_key_pair \<rightharpoonup> u64"
  shortstatekey_statekey :: "u64 \<rightharpoonup> state_key_pair"
  roomid_shortroomid :: "string \<rightharpoonup> u64"
  statehash_shortstatehash :: "byte list \<rightharpoonup> u64"

section \<open>The counter\<close>

definition stored_count :: "short_state \<Rightarrow> u64 option" where
  "stored_count s = (case global_count s of None \<Rightarrow> Some 0 | Some bs \<Rightarrow> u64_from_bytes bs)"

definition next_count :: "short_state \<Rightarrow> u64 \<times> short_state" where
  "next_count s =
     (let c = (case checked_add_u64 (counter s) 1 of Some c \<Rightarrow> c | None \<Rightarrow> counter s)
      in (c, s\<lparr>counter := c, global_count := Some (to_be_bytes c)\<rparr>))"

definition current_count :: "short_state \<Rightarrow> u64" where
  "current_count s = counter s"

section \<open>Short event ids\<close>

definition create_shorteventid :: "short_state \<Rightarrow> string \<Rightarrow> u64 \<times> short_state" where
  "create_shorteventid s event_id =
     (let (short, s) = next_count s in
      (short, s\<lparr>eventid_shorteventid := (eventid_shorteventid s)(event_id \<mapsto> short),
                shorteventid_eventid := (shorteventid_eventid s)(short \<mapsto> event_id)\<rparr>))"

definition get_shorteventid :: "short_state \<Rightarrow> string \<Rightarrow> u64 option" where
  "get_shorteventid s event_id = eventid_shorteventid s event_id"

definition get_or_create_shorteventid :: "short_state \<Rightarrow> string \<Rightarrow> u64 \<times> short_state" where
  "get_or_create_shorteventid s event_id =
     (case get_shorteventid s event_id of
        Some short \<Rightarrow> (short, s)
      | None \<Rightarrow> create_shorteventid s event_id)"

definition get_eventid_from_short :: "short_state \<Rightarrow> u64 \<Rightarrow> string option" where
  "get_eventid_from_short s short = shorteventid_eventid s short"

section \<open>Short state keys, room ids and state hashes\<close>

definition get_shortstatekey :: "short_state \<Rightarrow> state_key_pair \<Rightarrow> u64 option" where
  "get_shortstatekey s k = statekey_shortstatekey s k"

definition create_shortstatekey :: "short_state \<Rightarrow> state_key_pair \<Rightarrow> u64 \<times> short_state" where
  "create_shortstatekey s k =
     (let (short, s) = next_count s in
      (short, s\<lparr>statekey_shortstatekey := (statekey_shortstatekey s)(k \<mapsto> short),
                shortstatekey_statekey := (shortstatekey_statekey s)(short \<mapsto> k)\<rparr>))"

definition get_or_create_shortstatekey :: "short_state \<Rightarrow> state_key_pair \<Rightarrow> u64 \<times> short_state" where
  "get_or_create_shortstatekey s k =
     (case get_shortstatekey s k of Some short \<Rightarrow> (short, s) | None \<Rightarrow> create_shortstatekey s k)"

definition get_statekey_from_short :: "short_state \<Rightarrow> u64 \<Rightarrow> state_key_pair option" where
  "get_statekey_from_short s short = shortstatekey_statekey s short"

definition get_shortroomid :: "short_state \<Rightarrow> string \<Rightarrow> u64 option" where
  "get_shortroomid s room_id = roomid_shortroomid s room_id"

definition create_shortroomid :: "short_state \<Rightarrow> string \<Rightarrow> u64 \<times> short_state" where
  "create_shortroomid s room_id =
     (let (short, s) = next_count s in
      (short, s\<lparr>roomid_shortroomid := (roomid_shortroomid s)(room_id \<mapsto> short)\<rparr>))"

definition get_or_create_shortroomid :: "short_state \<Rightarrow> string \<Rightarrow> u64 \<times> short_state" where
  "get_or_create_shortroomid s room_id =
     (case get_shortroomid s room_id of Some short \<Rightarrow> (short, s) | None \<Rightarrow> create_shortroomid s room_id)"

definition create_shortstatehash :: "short_state \<Rightarrow> byte list \<Rightarrow> u64 \<times> short_state" where
  "create_shortstatehash s state_hash =
     (let (short, s) = next_count s in
      (short, s\<lparr>statehash_shortstatehash := (statehash_shortstatehash s)(state_hash \<mapsto> short)\<rparr>))"

text \<open>The flag of the result is \<^const>\<open>True\<close> when the hash was already known.\<close>

definition get_or_create_shortstatehash ::
    "short_state \<Rightarrow> byte list \<Rightarrow> (u64 \<times> bool) \<times> short_state" where
  "get_or_create_shortstatehash s state_hash =
     (case statehash_shortstatehash s state_hash of
        Some short \<Rightarrow> ((short, True), s)
      | None \<Rightarrow> (let (short, s) = create_shortstatehash s state_hash in ((short, False), s)))"

text \<open>
  A batch: the lookups of all ids are answered first, then the ids that were missing are
  created one after the other.
\<close>

fun create_missing :: "short_state \<Rightarrow> (u64 option \<times> string) list \<Rightarrow> u64 list \<times> short_state" where
  "create_missing s [] = ([], s)"
| "create_missing s ((Some short, event_id) # rest) =
     (let (shorts, s) = create_missing s rest in (short # shorts, s))"
| "create_missing s ((None, event_id) # rest) =
     (let (short, s) = create_shorteventid s event_id; (shorts, s) = create_missing s rest
      in (short # shorts, s))"

definition multi_get_or_create_shorteventid :: "short_state \<Rightarrow> string list \<Rightarrow> u64 list \<times> short_state" where
  "multi_get_or_create_shorteventid s event_ids =
     create_missing s (zip (map (eventid_shorteventid s) event_ids) event_ids)"

definition multi_get_eventid_from_short :: "short_state \<Rightarrow> u64 list \<Rightarrow> string option list" where
  "multi_get_eventid_from_short s shorts = map (shorteventid_eventid s) shorts"

definition multi_get_statekey_from_short :: "short_state \<Rightarrow> u64 list \<Rightarrow> state_key_pair option list" where
  "multi_get_statekey_from_short s shorts = map (shortstatekey_statekey s) shorts"

definition multi_get_state_from_short ::
    "short_state \<Rightarrow> (u64 \<times> u64) list \<Rightarrow> (state_key_pair \<times> string) option list" where
  "multi_get_state_from_short s short_state =
     (let short_state_keys = map fst short_state; short_event_ids = map snd short_state in
      map (\<lambda>p. case p of (Some state_key, Some event_id) \<Rightarrow> Some (state_key, event_id) | _ \<Rightarrow> None)
        (zip (multi_get_statekey_from_short s short_state_keys)
             (multi_get_eventid_from_short s short_event_ids)))"

section \<open>The contract of a table\<close>

lemma max_word_bounds: "(0 :: u64) < - 1" "(1 :: u64) < - 1"
  by (simp_all add: word_order.not_eq_extremum [symmetric])

lemma counter_step:
  assumes "c < (- 1 :: u64)"
  shows "c < c + 1" and "c \<le> c + 1" and "0 < c + 1"
proof -
  from assms show c: "c < c + 1" by (metis inc_less_eq_self_iff_eq not_less word_order.extremum_strict)
  then show "c \<le> c + 1" by simp
  from c show "0 < c + 1" using word_neq_0_conv by fastforce
qed

definition fetch_or_create ::
    "('s \<Rightarrow> 'a \<Rightarrow> u64 option) \<Rightarrow> ('s \<Rightarrow> 'a \<Rightarrow> u64 \<times> 's) \<Rightarrow> 's \<Rightarrow> 'a \<Rightarrow> u64 \<times> 's" where
  "fetch_or_create look create s a = (case look s a of Some n \<Rightarrow> (n, s) | None \<Rightarrow> create s a)"

locale short_table =
  fixes look :: "'s \<Rightarrow> 'a \<Rightarrow> u64 option"
    and create :: "'s \<Rightarrow> 'a \<Rightarrow> u64 \<times> 's"
    and cnt :: "'s \<Rightarrow> u64"
    and invar :: "'s \<Rightarrow> bool"
  assumes look_create: "create s a = (n, s') \<Longrightarrow> look s' = (look s)(a \<mapsto> n)"
    and create_value: "create s a = (n, s') \<Longrightarrow> cnt s < - 1 \<Longrightarrow> n = cnt s + 1 \<and> cnt s' = cnt s + 1"
    and invar_create: "create s a = (n, s') \<Longrightarrow> invar s \<Longrightarrow> cnt s < - 1 \<Longrightarrow> look s a = None \<Longrightarrow> invar s'"
    and look_bound: "invar s \<Longrightarrow> look s a = Some n \<Longrightarrow> 0 < n \<and> n \<le> cnt s"
    and look_inj: "invar s \<Longrightarrow> look s a = Some n \<Longrightarrow> look s b = Some n \<Longrightarrow> a = b"
begin

text \<open>
  Interning: the id returned is stored for the key, positive, within the counter; no other
  key has it; ids handed out before are kept; the invariant survives.
\<close>

lemma fetch_or_create_spec:
  assumes "invar s" "cnt s < - 1" "fetch_or_create look create s a = (n, s')"
  shows "invar s'" and "look s' a = Some n" and "0 < n" and "n \<le> cnt s'"
    and "\<And>b m. look s b = Some m \<Longrightarrow> look s' b = Some m"
    and "\<And>b. look s' b = Some n \<Longrightarrow> b = a"
    and "look s a = None \<Longrightarrow> n = cnt s + 1"
    and "cnt s \<le> cnt s'"
proof -
  note le = counter_step(2) [OF assms(2)]
  have "invar s' \<and> look s' a = Some n \<and> cnt s \<le> cnt s' \<and>
        (\<forall>b m. look s b = Some m \<longrightarrow> look s' b = Some m) \<and> (look s a = None \<longrightarrow> n = cnt s + 1)"
  proof (cases "look s a")
    case None
    then have c: "create s a = (n, s')" using assms(3) by (simp add: fetch_or_create_def)
    then show ?thesis
      using None look_create [OF c] invar_create [OF c assms(1,2)] create_value [OF c assms(2)] le by auto
  next
    case (Some k)
    then show ?thesis using assms(1,3) by (simp add: fetch_or_create_def)
  qed
  moreover from this have "0 < n \<and> n \<le> cnt s'" using look_bound by blast
  ultimately show "invar s'" "look s' a = Some n" "0 < n" "n \<le> cnt s'"
    "\<And>b m. look s b = Some m \<Longrightarrow> look s' b = Some m"
    "\<And>b. look s' b = Some n \<Longrightarrow> b = a" "look s a = None \<Longrightarrow> n = cnt s + 1" "cnt s \<le> cnt s'"
    using look_inj by blast+
qed

text \<open>Asking again changes nothing.\<close>

lemma fetch_or_create_idem:
  assumes "invar s" "cnt s < - 1" "fetch_or_create look create s a = (n, s')"
  shows "fetch_or_create look create s' a = (n, s')"
  using fetch_or_create_spec(2) [OF assms] by (simp add: fetch_or_create_def)

end

section \<open>Invariant\<close>

definition table_wf :: "u64 \<Rightarrow> ('a \<rightharpoonup> u64) \<Rightarrow> bool" where
  "table_wf c t \<longleftrightarrow> (\<forall>a n. t a = Some n \<longrightarrow> 0 < n \<and> n \<le> c) \<and> (\<forall>a b n. t a = Some n \<longrightarrow> t b = Some n \<longrightarrow> a = b)"

definition inverse_wf :: "('a \<rightharpoonup> u64) \<Rightarrow> (u64 \<rightharpoonup> 'a) \<Rightarrow> bool" where
  "inverse_wf t r \<longleftrightarrow> (\<forall>a n. t a = Some n \<longleftrightarrow> r n = Some a)"

definition short_wf :: "short_state \<Rightarrow> bool" where
  "short_wf s \<longleftrightarrow>
     stored_count s = Some (counter s) \<and>
     table_wf (counter s) (eventid_shorteventid s) \<and>
     inverse_wf (eventid_shorteventid s) (shorteventid_eventid s) \<and>
     table_wf (counter s) (statekey_shortstatekey s) \<and>
     inverse_wf (statekey_shortstatekey s) (shortstatekey_statekey s) \<and>
     table_wf (counter s) (roomid_shortroomid s) \<and>
     table_wf (counter s) (statehash_shortstatehash s)"

lemma checked_inc_counter: "c < - 1 \<Longrightarrow> checked_add_u64 c 1 = Some (c + 1)"
proof -
  assume "c < - 1"
  then have "unat c < unat (- 1 :: u64)" by (simp only: word_less_nat_alt)
  then show ?thesis using unat_u64_less [of "- 1"] by (simp add: checked_add_u64_def)
qed

lemma unat_counter_step: "c < (- 1 :: u64) \<Longrightarrow> unat (c + 1) = unat c + 1"
  using checked_inc_counter [of c] by (auto simp: checked_add_u64_def unat_word_ariths split: if_splits)

lemma next_count_value:
  assumes "counter s < - 1"
  shows "next_count s = (counter s + 1, s\<lparr>counter := counter s + 1,
           global_count := Some (to_be_bytes (counter s + 1))\<rparr>)"
  using assms by (simp add: next_count_def checked_inc_counter Let_def)

lemma table_wf_mono: "table_wf c t \<Longrightarrow> c < - 1 \<Longrightarrow> table_wf (c + 1) t"
  unfolding table_wf_def by (meson order_trans counter_step)

lemma table_wf_insert:
  assumes "table_wf c t" "c < - 1"
  shows "table_wf (c + 1) (t(a \<mapsto> c + 1))"
  unfolding table_wf_def
proof (intro conjI allI impI)
  note step = counter_step [OF assms(2)]
  { fix b n assume b: "(t(a \<mapsto> c + 1)) b = Some n"
    then show "0 < n" "n \<le> c + 1"
      using assms(1) step by (auto simp: table_wf_def split: if_splits) (meson order_trans)
  }
  { fix b b' n assume "(t(a \<mapsto> c + 1)) b = Some n" "(t(a \<mapsto> c + 1)) b' = Some n"
    then show "b = b'"
      using assms(1) step by (auto simp: table_wf_def split: if_splits) (meson leD)+
  }
qed

lemma table_wf_fresh: "table_wf c t \<Longrightarrow> c < - 1 \<Longrightarrow> t a \<noteq> Some (c + 1)"
  unfolding table_wf_def using counter_step(1) [of c] by (meson leD)

lemma inverse_wf_insert:
  assumes "inverse_wf t r" "t a = None" "\<forall>b. t b \<noteq> Some n"
  shows "inverse_wf (t(a \<mapsto> n)) (r(n \<mapsto> a))"
proof -
  have "r m \<noteq> Some a" for m using assms(1,2) unfolding inverse_wf_def by (metis option.distinct(1))
  moreover have "r n = None" using assms(1,3) unfolding inverse_wf_def by (meson not_None_eq)
  ultimately show ?thesis using assms unfolding inverse_wf_def by auto
qed

lemmas short_wf_defs = short_wf_def stored_count_def

lemmas wf_rules = table_wf_mono table_wf_insert inverse_wf_insert

lemma short_wf_create_shorteventid:
  assumes "short_wf s" "counter s < - 1" "get_shorteventid s a = None"
    "create_shorteventid s a = (n, s')"
  shows "short_wf s'"
  using assms table_wf_fresh [of "counter s" "eventid_shorteventid s"]
  by (auto simp: create_shorteventid_def get_shorteventid_def next_count_value short_wf_defs intro!: wf_rules)

lemma short_wf_create_shortstatekey:
  assumes "short_wf s" "counter s < - 1" "get_shortstatekey s a = None"
    "create_shortstatekey s a = (n, s')"
  shows "short_wf s'"
  using assms table_wf_fresh [of "counter s" "statekey_shortstatekey s"]
  by (auto simp: create_shortstatekey_def get_shortstatekey_def next_count_value short_wf_defs intro!: wf_rules)

lemma short_wf_create_shortroomid:
  assumes "short_wf s" "counter s < - 1" "create_shortroomid s a = (n, s')"
  shows "short_wf s'"
  using assms by (auto simp: create_shortroomid_def next_count_value short_wf_defs intro!: wf_rules)

lemma short_wf_create_shortstatehash:
  assumes "short_wf s" "counter s < - 1" "create_shortstatehash s a = (n, s')"
  shows "short_wf s'"
  using assms by (auto simp: create_shortstatehash_def next_count_value short_wf_defs intro!: wf_rules)

section \<open>The four tables meet the contract\<close>

lemma table_wf_bound: "table_wf c t \<Longrightarrow> t a = Some n \<Longrightarrow> 0 < n \<and> n \<le> c"
  and table_wf_inj: "table_wf c t \<Longrightarrow> t a = Some n \<Longrightarrow> t b = Some n \<Longrightarrow> a = b"
  by (simp add: table_wf_def) (unfold table_wf_def, blast)

lemma short_wf_tables:
  assumes "short_wf s"
  shows "table_wf (counter s) (eventid_shorteventid s)" "table_wf (counter s) (statekey_shortstatekey s)"
    "table_wf (counter s) (roomid_shortroomid s)" "table_wf (counter s) (statehash_shortstatehash s)"
    "inverse_wf (eventid_shorteventid s) (shorteventid_eventid s)"
    "inverse_wf (statekey_shortstatekey s) (shortstatekey_statekey s)"
  using assms by (simp_all add: short_wf_def)

definition get_shortstatehash :: "short_state \<Rightarrow> byte list \<Rightarrow> u64 option" where
  "get_shortstatehash s state_hash = statehash_shortstatehash s state_hash"

lemmas look_defs = get_shorteventid_def get_shortstatekey_def get_shortroomid_def get_shortstatehash_def
lemmas create_defs = create_shorteventid_def create_shortstatekey_def create_shortroomid_def
  create_shortstatehash_def

lemma create_looks:
  "create_shorteventid s a = (n, s') \<Longrightarrow> get_shorteventid s' = (get_shorteventid s)(a \<mapsto> n)"
  "create_shortstatekey s b = (n, s') \<Longrightarrow> get_shortstatekey s' = (get_shortstatekey s)(b \<mapsto> n)"
  "create_shortroomid s a = (n, s') \<Longrightarrow> get_shortroomid s' = (get_shortroomid s)(a \<mapsto> n)"
  "create_shortstatehash s c = (n, s') \<Longrightarrow> get_shortstatehash s' = (get_shortstatehash s)(c \<mapsto> n)"
  by (auto simp: create_defs look_defs next_count_def Let_def fun_eq_iff)

lemma create_counts:
  assumes "counter s < - 1"
  shows "create_shorteventid s a = (n, s') \<Longrightarrow> n = counter s + 1 \<and> counter s' = counter s + 1"
    and "create_shortstatekey s b = (n, s') \<Longrightarrow> n = counter s + 1 \<and> counter s' = counter s + 1"
    and "create_shortroomid s a = (n, s') \<Longrightarrow> n = counter s + 1 \<and> counter s' = counter s + 1"
    and "create_shortstatehash s c = (n, s') \<Longrightarrow> n = counter s + 1 \<and> counter s' = counter s + 1"
  using assms by (auto simp: create_defs next_count_value)

lemma look_bounds:
  assumes "short_wf s"
  shows "get_shorteventid s a = Some n \<Longrightarrow> 0 < n \<and> n \<le> counter s"
    and "get_shortstatekey s b = Some n \<Longrightarrow> 0 < n \<and> n \<le> counter s"
    and "get_shortroomid s a = Some n \<Longrightarrow> 0 < n \<and> n \<le> counter s"
    and "get_shortstatehash s c = Some n \<Longrightarrow> 0 < n \<and> n \<le> counter s"
  unfolding look_defs using short_wf_tables [OF assms] by (meson table_wf_bound)+

lemma look_injs:
  assumes "short_wf s"
  shows "get_shorteventid s a = Some n \<Longrightarrow> get_shorteventid s a' = Some n \<Longrightarrow> a = a'"
    and "get_shortstatekey s b = Some n \<Longrightarrow> get_shortstatekey s b' = Some n \<Longrightarrow> b = b'"
    and "get_shortroomid s a = Some n \<Longrightarrow> get_shortroomid s a' = Some n \<Longrightarrow> a = a'"
    and "get_shortstatehash s c = Some n \<Longrightarrow> get_shortstatehash s c' = Some n \<Longrightarrow> c = c'"
  unfolding look_defs using short_wf_tables [OF assms] by (meson table_wf_inj)+

interpretation eid: short_table get_shorteventid create_shorteventid counter short_wf
  by unfold_locales
    (meson create_looks(1) create_counts(1) short_wf_create_shorteventid look_bounds(1) look_injs(1))+

interpretation skey: short_table get_shortstatekey create_shortstatekey counter short_wf
  by unfold_locales
    (meson create_looks(2) create_counts(2) short_wf_create_shortstatekey look_bounds(2) look_injs(2))+

interpretation rid: short_table get_shortroomid create_shortroomid counter short_wf
  by unfold_locales
    (meson create_looks(3) create_counts(3) short_wf_create_shortroomid look_bounds(3) look_injs(3))+

interpretation shash: short_table get_shortstatehash create_shortstatehash counter short_wf
  by unfold_locales
    (meson create_looks(4) create_counts(4) short_wf_create_shortstatehash look_bounds(4) look_injs(4))+


text \<open>The code's \<open>get_or_create_*\<close> functions are the contract's
  \<^const>\<open>fetch_or_create\<close>.\<close>

lemma get_or_create_fetch:
  "get_or_create_shorteventid s a = fetch_or_create get_shorteventid create_shorteventid s a"
  "get_or_create_shortstatekey s k = fetch_or_create get_shortstatekey create_shortstatekey s k"
  "get_or_create_shortroomid s a = fetch_or_create get_shortroomid create_shortroomid s a"
  "(case get_or_create_shortstatehash s h of ((n, b), s') \<Rightarrow> (n, s')) =
     fetch_or_create get_shortstatehash create_shortstatehash s h"
  by (simp_all add: get_or_create_shorteventid_def get_or_create_shortstatekey_def
        get_or_create_shortroomid_def get_or_create_shortstatehash_def get_shortstatehash_def
        fetch_or_create_def split_beta split: option.split)

lemma get_eventid_inverse:
  "short_wf s \<Longrightarrow> get_eventid_from_short s n = Some a \<longleftrightarrow> get_shorteventid s a = Some n"
  using short_wf_tables(5) [of s] by (simp add: inverse_wf_def look_defs get_eventid_from_short_def)

lemma get_statekey_inverse:
  "short_wf s \<Longrightarrow> get_statekey_from_short s n = Some k \<longleftrightarrow> get_shortstatekey s k = Some n"
  using short_wf_tables(6) [of s] by (cases k, simp add: inverse_wf_def look_defs get_statekey_from_short_def)

section \<open>Batches\<close>

fun each_get_or_create :: "short_state \<Rightarrow> string list \<Rightarrow> u64 list \<times> short_state" where
  "each_get_or_create s [] = ([], s)"
| "each_get_or_create s (a # as) =
     (let (short, s) = get_or_create_shorteventid s a; (shorts, s) = each_get_or_create s as
      in (short # shorts, s))"

lemma create_missing_each:
  assumes "distinct as" "\<forall>a \<in> set as. t a = eventid_shorteventid s a"
  shows "create_missing s (zip (map t as) as) = each_get_or_create s as"
  using assms
proof (induction as arbitrary: s)
  case (Cons a as)
  show ?case
  proof (cases "eventid_shorteventid s a")
    case None
    obtain n s1 where c: "create_shorteventid s a = (n, s1)" by fastforce
    have "eventid_shorteventid s1 = (eventid_shorteventid s)(a \<mapsto> n)"
      using create_looks(1) [OF c] by (simp add: look_defs fun_eq_iff)
    then have "\<forall>b \<in> set as. t b = eventid_shorteventid s1 b" using Cons.prems by auto
    then have "create_missing s1 (zip (map t as) as) = each_get_or_create s1 as"
      using Cons.IH Cons.prems(1) by simp
    then show ?thesis
      using None c Cons.prems(2) by (simp add: get_or_create_shorteventid_def look_defs)
  next
    case (Some n)
    then show ?thesis
      using Cons by (simp add: get_or_create_shorteventid_def look_defs)
  qed
qed simp

section \<open>Properties\<close>

text \<open>C29: interning an event id is a bijection that survives. On a well-formed state whose
  counter is not exhausted, \<open>get_or_create_shorteventid\<close> returns a positive id that
  resolves back to the event id, is resolved to by no other event id, and equals the bumped
  counter when the event was unknown; every id handed out earlier still resolves as before,
  asking again returns the same id without changing the state, and the state stays well
  formed (the stored counter, the two event tables and the two state key tables agree).\<close>

theorem shorteventid_interned:
  assumes "short_wf s" "counter s < - 1" "get_or_create_shorteventid s a = (n, s')"
  shows "short_wf s' \<and> 0 < n \<and> n \<le> counter s' \<and>
         get_eventid_from_short s' n = Some a \<and>
         (\<forall>b. get_shorteventid s' b = Some n \<longleftrightarrow> b = a) \<and>
         (get_shorteventid s a = None \<longrightarrow> n = counter s + 1) \<and>
         (\<forall>b m. get_shorteventid s b = Some m \<longrightarrow> get_eventid_from_short s' m = Some b) \<and>
         get_or_create_shorteventid s' a = (n, s')"
proof -
  note f = assms(3) [unfolded get_or_create_fetch(1)]
  note sp = eid.fetch_or_create_spec [OF assms(1,2) f]
  have inv: "get_eventid_from_short s' m = Some b \<longleftrightarrow> get_shorteventid s' b = Some m" for m b
    by (rule get_eventid_inverse [OF sp(1)])
  have "get_or_create_shorteventid s' a = (n, s')"
    unfolding get_or_create_fetch(1) by (rule eid.fetch_or_create_idem [OF assms(1,2) f])
  with sp show ?thesis unfolding inv by metis
qed

definition short_init :: short_state where
  "short_init = \<lparr>counter = 0, global_count = None, eventid_shorteventid = Map.empty,
     shorteventid_eventid = Map.empty, statekey_shortstatekey = Map.empty,
     shortstatekey_statekey = Map.empty, roomid_shortroomid = Map.empty,
     statehash_shortstatehash = Map.empty\<rparr>"

lemma short_wf_init [simp]: "short_wf short_init"
  by (simp add: short_init_def short_wf_defs table_wf_def inverse_wf_def)

lemma counter_init [simp]: "counter short_init = 0" "counter short_init < - 1"
  by (simp_all add: short_init_def max_word_bounds)

theorem shorteventid_interned_witness:
  "\<exists>s'. get_or_create_shorteventid short_init ''$a'' = (1, s') \<and> short_wf s' \<and>
        get_eventid_from_short s' 1 = Some ''$a''"
proof -
  obtain n s' where e: "get_or_create_shorteventid short_init ''$a'' = (n, s')" by fastforce
  have "get_shorteventid short_init ''$a'' = None" by (simp add: short_init_def look_defs)
  with shorteventid_interned [OF short_wf_init counter_init(2) e] e show ?thesis by auto
qed

text \<open>The same for state keys: the pair of event type and state key that a short state
  key resolves to is the one it was created for, different pairs have different short ids,
  and earlier ids are kept.\<close>

lemma shortstatekey_interned:
  assumes "short_wf s" "counter s < - 1" "get_or_create_shortstatekey s k = (n, s')"
  shows "short_wf s' \<and> get_statekey_from_short s' n = Some k \<and>
         (\<forall>k'. get_shortstatekey s' k' = Some n \<longleftrightarrow> k' = k) \<and>
         (\<forall>k' m. get_shortstatekey s k' = Some m \<longrightarrow> get_statekey_from_short s' m = Some k')"
proof -
  note sp = skey.fetch_or_create_spec [OF assms(1,2) assms(3) [unfolded get_or_create_fetch(2)]]
  show ?thesis unfolding get_statekey_inverse [OF sp(1)] using sp by metis
qed

text \<open>The flag that \<open>get_or_create_shortstatehash\<close> returns says that the hash was
  already known, and the short id is the same on every later call. (The function's
  documentation says the opposite: that the flag tells a new id was created.)\<close>

lemma shortstatehash_flag:
  assumes "short_wf s" "counter s < - 1" "get_or_create_shortstatehash s h = ((n, known), s')"
  shows "(known \<longleftrightarrow> get_shortstatehash s h \<noteq> None) \<and> (known \<longrightarrow> s' = s) \<and>
         (\<not> known \<longrightarrow> (\<forall>h'. get_shortstatehash s h' \<noteq> Some n)) \<and>
         short_wf s' \<and> get_or_create_shortstatehash s' h = ((n, True), s')"
proof -
  have f: "fetch_or_create get_shortstatehash create_shortstatehash s h = (n, s')"
    using assms(3) by (simp add: get_or_create_fetch(4) [symmetric])
  note sp = shash.fetch_or_create_spec [OF assms(1,2) f]
  have known: "known \<longleftrightarrow> get_shortstatehash s h \<noteq> None" "known \<longrightarrow> s' = s"
    using assms(3) by (auto simp: get_or_create_shortstatehash_def get_shortstatehash_def
        split: option.splits prod.splits)
  moreover have "get_shortstatehash s h' \<noteq> Some n" if "\<not> known" for h'
  proof -
    have "n = counter s + 1" using sp(7) known(1) that by simp
    then show ?thesis using look_bounds(4) [OF assms(1)] counter_step(1) [OF assms(2)] by (meson leD)
  qed
  moreover have "get_or_create_shortstatehash s' h = ((n, True), s')"
    using sp(2) by (simp add: get_or_create_shortstatehash_def get_shortstatehash_def)
  ultimately show ?thesis using sp(1) by blast
qed

text \<open>A batch of distinct event ids gets the ids that one call of
  \<open>get_or_create_shorteventid\<close> after the other would give, although the batch reads all
  existing ids before it creates any.\<close>

lemma multi_get_or_create_each:
  assumes "distinct event_ids"
  shows "multi_get_or_create_shorteventid s event_ids = each_get_or_create s event_ids"
  using create_missing_each [OF assms, of "eventid_shorteventid s" s]
  by (simp add: multi_get_or_create_shorteventid_def)

text \<open>With a repeated event id the batch creates two short ids for the one event, and the
  inverse table keeps an entry that the forward table no longer has.\<close>

lemma multi_get_or_create_duplicate:
  "\<exists>s'. multi_get_or_create_shorteventid short_init [''$a'', ''$a''] = ([1, 2], s') \<and>
        get_shorteventid s' ''$a'' = Some 2 \<and> get_eventid_from_short s' 1 = Some ''$a'' \<and> \<not> short_wf s'"
proof -
  note lt = max_word_bounds
  have "multi_get_or_create_shorteventid short_init [''$a'', ''$a''] =
        ([1, 2], short_init\<lparr>counter := 2, global_count := Some (to_be_bytes 2),
           eventid_shorteventid := [''$a'' \<mapsto> 2], shorteventid_eventid := [1 \<mapsto> ''$a'', 2 \<mapsto> ''$a'']\<rparr>)"
    (is "_ = (_, ?s)")
    using lt by (simp add: multi_get_or_create_shorteventid_def create_shorteventid_def
        next_count_value short_init_def)
  moreover have "\<not> inverse_wf (eventid_shorteventid ?s) (shorteventid_eventid ?s)"
    by (auto simp: inverse_wf_def intro!: exI [of _ "''$a''"] exI [of _ "1 :: u64"])
  ultimately show ?thesis
    by (auto simp: look_defs get_eventid_from_short_def short_wf_def)
qed

end
