(* ===== verification/Matrix_Types.thy ===== *)
theory Matrix_Types
  imports Prelude "HOL-Library.Option_ord" "HOL-Library.Product_Lexorder"
begin

text \<open>
  The event type of the state resolution (\<open>src/core/matrix/pdu.rs\<close>,
  \<open>event.rs\<close>, \<open>event/redact.rs\<close>, \<open>event/type_ext.rs\<close>), its errors
  (\<open>state_res/error.rs\<close>) and the vocabulary it takes from the \<open>ruma\<close> crate.

  The crates \<open>ruma\<close> and \<open>serde_json\<close> are not part of the repository. What the code
  asks of them is the record \<open>decoders\<close>: one function per type that is decoded from JSON
  text, \<^const>\<open>None\<close> being a decoding error, and one per identifier that is parsed. A
  \<open>Raw<T>\<close> field is the outcome of its \<open>deserialize\<close>, so a field of type
  \<open>Option<Raw<T>>\<close> has the type \<open>'t option option\<close>.
\<close>

section \<open>Vocabulary of ruma\<close>

text \<open>\<open>TimelineEventType\<close> and \<open>StateEventType\<close>: the types the code names, and every other.\<close>

datatype event_type =
  RoomCreate | RoomMember | RoomPowerLevels | RoomJoinRules | RoomThirdPartyInvite
  | RoomRedaction | RoomAliases | OtherType string

datatype membership = Ban | Invite | Join | Knock | Leave | OtherMembership string

datatype join_rule =
  JInvite | JKnock | JPrivate | JRestricted | JKnockRestricted | JPublic | OtherRule string

datatype room_id_format = RoomIdV1 | RoomIdV2

text \<open>State resolution version 2 carries the flag \<open>consider_conflicted_state_subgraph\<close>.\<close>

datatype state_res_version = StateResV1 | StateResV2 bool

record authorization_rules =
  explicitly_privilege_room_creators :: bool
  use_room_create_sender :: bool
  special_case_room_aliases :: bool
  special_case_room_redaction :: bool
  integer_power_levels :: bool
  limit_notifications_power_levels :: bool
  knocking :: bool
  knock_restricted_join_rule :: bool

record room_version_rules =
  authorization :: authorization_rules
  room_id_format :: room_id_format
  state_res :: state_res_version
  content_field_redacts :: bool

text \<open>
  A user's power: an integer, or above all of them. A comparison with an integer is the
  comparison with \<open>PL_Int\<close> of it.
\<close>

datatype user_power_level = PL_Int int | PL_Infinite

instantiation user_power_level :: linorder
begin

fun less_eq_user_power_level :: "user_power_level \<Rightarrow> user_power_level \<Rightarrow> bool" where
  "less_eq_user_power_level _ PL_Infinite = True"
| "less_eq_user_power_level PL_Infinite (PL_Int _) = False"
| "less_eq_user_power_level (PL_Int a) (PL_Int b) = (a \<le> b)"

definition less_user_power_level :: "user_power_level \<Rightarrow> user_power_level \<Rightarrow> bool" where
  "less_user_power_level a b = (a \<le> b \<and> \<not> b \<le> (a :: user_power_level))"

instance
proof
  fix x y z :: user_power_level
  show "(x < y) = (x \<le> y \<and> \<not> y \<le> x)" by (simp add: less_user_power_level_def)
  show "x \<le> x" by (cases x) auto
  show "x \<le> y \<Longrightarrow> y \<le> z \<Longrightarrow> x \<le> z" by (cases x; cases y; cases z) auto
  show "x \<le> y \<Longrightarrow> y \<le> x \<Longrightarrow> x = y" by (cases x; cases y) auto
  show "x \<le> y \<or> y \<le> x" by (cases x; cases y) auto
qed

end

lemma power_less_simps [simp]:
  "PL_Int a < PL_Int b \<longleftrightarrow> a < b" "PL_Int a < PL_Infinite" "\<not> PL_Infinite < p"
  by (auto simp: less_user_power_level_def)

section \<open>Events\<close>

text \<open>The fields of \<open>Pdu\<close> that the authorization and resolution code reads.\<close>

record pdu =
  pdu_event_id :: string
  pdu_room_id :: "string option"
  pdu_sender :: string
  pdu_origin_server_ts :: nat
  pdu_kind :: event_type
  pdu_content :: string
  pdu_state_key :: "string option"
  pdu_prev_events :: "string list"
  pdu_auth_events :: "string list"
  pdu_redacts :: "string option"
  pdu_unsigned :: "string option"

text \<open>Equality and order of events look at the event id only.\<close>

definition pdu_eq :: "pdu \<Rightarrow> pdu \<Rightarrow> bool" where
  "pdu_eq a b \<longleftrightarrow> pdu_event_id a = pdu_event_id b"

definition pdu_less :: "pdu \<Rightarrow> pdu \<Rightarrow> bool" where
  "pdu_less a b \<longleftrightarrow> pdu_event_id a < pdu_event_id b"

type_synonym type_state_key = "event_type \<times> string"
type_synonym 'a state_map = "(type_state_key \<times> 'a) list"

definition with_state_key :: "event_type \<Rightarrow> string \<Rightarrow> type_state_key" where
  "with_state_key ty state_key = (ty, state_key)"

section \<open>Decoded contents\<close>

record create_fields =
  cf_room_version :: "string option option"
  cf_creator :: "string option option"
  cf_additional_creators :: "string option list option"
  cf_federate :: bool

record member_fields =
  mf_membership :: "membership option option"
  mf_join_authorised_via_users_server :: "string option option"

record member_auth_fields =
  ma_membership :: "membership option option"
  ma_third_party_invite :: "string option option"
  ma_join_authorised_via_users_server :: "string option option"

text \<open>\<open>RoomPowerLevelsEventContent\<close>; its \<open>BTreeMap\<close>s are association lists.\<close>

record power_levels =
  pl_ban :: int
  pl_events :: "(event_type \<times> int) list"
  pl_events_default :: int
  pl_invite :: int
  pl_kick :: int
  pl_redact :: int
  pl_state_default :: int
  pl_users :: "(string \<times> int) list"
  pl_users_default :: int
  pl_notifications_room :: int

record decoders =
  de_create :: "string \<Rightarrow> create_fields option"
  de_member :: "string \<Rightarrow> member_fields option"
  de_member_auth :: "string \<Rightarrow> member_auth_fields option"
  de_get_membership :: "string \<Rightarrow> membership option"
  de_member_content :: "string \<Rightarrow> membership option"
  de_third_party_invite :: "string \<Rightarrow> string option option option"
  de_join_rule :: "string \<Rightarrow> join_rule option"
  de_power_levels :: "string \<Rightarrow> power_levels option"
  de_int_power_levels :: "string \<Rightarrow> power_levels option"
  de_v1_users :: "string \<Rightarrow> ((string \<times> int) list \<times> int) option"
  de_v1_invite :: "string \<Rightarrow> int option"
  de_int_invite :: "string \<Rightarrow> int option"
  de_v1_redact :: "string \<Rightarrow> int option"
  de_int_redact :: "string \<Rightarrow> int option"
  de_redaction_redacts :: "string \<Rightarrow> string option option"
  de_redacted_because :: "string \<Rightarrow> bool option"
  new_power_levels :: "authorization_rules \<Rightarrow> power_levels"
  level_to_value :: "power_levels \<Rightarrow> string \<Rightarrow> int option"
  valid_user_id :: "string \<Rightarrow> bool"
  valid_event_id :: "string \<Rightarrow> bool"
  valid_room_id :: "string \<Rightarrow> bool"
  user_server_name :: "string \<Rightarrow> string"
  room_server_name :: "string \<Rightarrow> string option"
  event_server_name :: "string \<Rightarrow> string option"

text \<open>Decoders that know nothing: every decoding fails. Concrete decoders are updates of it.\<close>

definition no_power_levels :: power_levels where
  "no_power_levels = \<lparr>pl_ban = 50, pl_events = [], pl_events_default = 0, pl_invite = 0, pl_kick = 50,
     pl_redact = 50, pl_state_default = 50, pl_users = [], pl_users_default = 0, pl_notifications_room = 50\<rparr>"

definition no_decoders :: decoders where
  "no_decoders =
     \<lparr>de_create = \<lambda>_. None, de_member = \<lambda>_. None, de_member_auth = \<lambda>_. None,
      de_get_membership = \<lambda>_. None, de_member_content = \<lambda>_. None, de_third_party_invite = \<lambda>_. None, de_join_rule = \<lambda>_. None,
      de_power_levels = \<lambda>_. None, de_int_power_levels = \<lambda>_. None, de_v1_users = \<lambda>_. None,
      de_v1_invite = \<lambda>_. None, de_int_invite = \<lambda>_. None, de_v1_redact = \<lambda>_. None,
      de_int_redact = \<lambda>_. None, de_redaction_redacts = \<lambda>_. None, de_redacted_because = \<lambda>_. None,
      new_power_levels = \<lambda>_. no_power_levels, level_to_value = \<lambda>_ _. None,
      valid_user_id = \<lambda>_. False, valid_event_id = \<lambda>_. False, valid_room_id = \<lambda>_. False,
      user_server_name = \<lambda>_. [], room_server_name = \<lambda>_. None, event_server_name = \<lambda>_. None\<rparr>"

section \<open>Errors\<close>

text \<open>\<open>state_res::Error\<close>, and a panic.\<close>

datatype state_res_error = SerdeJson | Unsupported string | NotFound string | InvalidPdu string | Panicked

section \<open>Accessors\<close>

definition replace_char :: "char \<Rightarrow> char \<Rightarrow> string \<Rightarrow> string" where
  "replace_char a b s = map (\<lambda>c. if c = a then b else c) s"

text \<open>The room of an event; for a create event without room id, its event id as a room id.\<close>

definition room_id_or_hash :: "decoders \<Rightarrow> pdu \<Rightarrow> state_res_error + string" where
  "room_id_or_hash de ev =
     (if pdu_kind ev \<noteq> RoomCreate then ok_or Panicked (pdu_room_id ev)
      else (case pdu_room_id ev of
              Some room_id \<Rightarrow> Inr room_id
            | None \<Rightarrow>
                (let constructed_hash = replace_char (CHR ''$'') (CHR ''!'') (pdu_event_id ev) in
                 if valid_room_id de constructed_hash then Inr constructed_hash else Inl Panicked)))"

definition is_type_and_key :: "pdu \<Rightarrow> event_type \<Rightarrow> string \<Rightarrow> bool" where
  "is_type_and_key ev ev_type state_key \<longleftrightarrow> pdu_kind ev = ev_type \<and> pdu_state_key ev = Some state_key"

text \<open>Redactions: \<open>copy\<close>, \<open>is_redacted\<close>, \<open>redacts_id\<close>. The re-encoding of the
  content with the field added is the parameter \<open>encode\<close>.\<close>

definition redact_copy ::
    "decoders \<Rightarrow> (string \<Rightarrow> string \<Rightarrow> string) \<Rightarrow> pdu \<Rightarrow> string option \<times> string" where
  "redact_copy de encode ev =
     (if pdu_kind ev \<noteq> RoomRedaction then (pdu_redacts ev, pdu_content ev)
      else case de_redaction_redacts de (pdu_content ev) of
          None \<Rightarrow> (pdu_redacts ev, pdu_content ev)
        | Some (Some redacts) \<Rightarrow> (Some redacts, pdu_content ev)
        | Some None \<Rightarrow>
            (case pdu_redacts ev of
               Some redacts \<Rightarrow> (pdu_redacts ev, encode (pdu_content ev) redacts)
             | None \<Rightarrow> (pdu_redacts ev, pdu_content ev)))"

definition is_redacted :: "decoders \<Rightarrow> pdu \<Rightarrow> bool" where
  "is_redacted de ev =
     (case pdu_unsigned ev of
        None \<Rightarrow> False
      | Some uns \<Rightarrow> (case de_redacted_because de uns of None \<Rightarrow> False | Some b \<Rightarrow> b))"

definition redacts_id :: "decoders \<Rightarrow> room_version_rules \<Rightarrow> pdu \<Rightarrow> string option" where
  "redacts_id de rules ev =
     (if pdu_kind ev \<noteq> RoomRedaction then None
      else if content_field_redacts rules then pdu_redacts ev
      else (case de_redaction_redacts de (pdu_content ev) of None \<Rightarrow> None | Some redacts \<Rightarrow> redacts))"

section \<open>The target of a redaction\<close>

text \<open>The target of a redaction event. The copy of the event that is served to clients names the
  target in both places, so \<open>redacts_id\<close> finds it there under every room version. On the event
  itself \<open>redacts_id\<close> reads the other place than the room version uses: it finds no target exactly
  when the top level is empty in a version that keeps the target in the content, or the content
  has none in a version that keeps it at the top level.\<close>

lemma redaction_target:
  assumes "pdu_kind ev = RoomRedaction" "de_redaction_redacts de (pdu_content ev) = Some in_content"
    and "\<forall>r. de_redaction_redacts de (encode (pdu_content ev) r) = Some (Some r)"
  shows "redacts_id de rules (ev\<lparr>pdu_redacts := fst (redact_copy de encode ev),
                               pdu_content := snd (redact_copy de encode ev)\<rparr>)
           = (case in_content of Some r \<Rightarrow> Some r | None \<Rightarrow> pdu_redacts ev) \<and>
         (redacts_id de rules ev = None \<longleftrightarrow>
          (if content_field_redacts rules then pdu_redacts ev = None else in_content = None))"
  using assms by (auto simp: redacts_id_def redact_copy_def split: option.splits)

definition demo_redaction :: pdu where
  "demo_redaction = \<lparr>pdu_event_id = ''$r'', pdu_room_id = Some ''!r'', pdu_sender = ''@a'', pdu_origin_server_ts = 1,
     pdu_kind = RoomRedaction, pdu_content = ''$x'', pdu_state_key = None, pdu_prev_events = [],
     pdu_auth_events = [], pdu_redacts = None, pdu_unsigned = None\<rparr>"

definition demo_redaction_rules :: room_version_rules where
  "demo_redaction_rules = \<lparr>authorization = \<lparr>explicitly_privilege_room_creators = False,
     use_room_create_sender = True, special_case_room_aliases = False, special_case_room_redaction = False,
     integer_power_levels = True, limit_notifications_power_levels = True, knocking = True,
     knock_restricted_join_rule = True\<rparr>,
     room_id_format = RoomIdV1, state_res = StateResV2 False, content_field_redacts = True\<rparr>"

end
