(* ===== verification/Power_Levels.thy ===== *)
theory Power_Levels
  imports Matrix_Types
begin

text \<open>
  Lazy decoding of power levels: \<open>src/core/matrix/state_res/power_levels.rs\<close> and
  \<open>serde_backports.rs\<close>. The users of a power level event are kept as a vector sorted by
  user id and searched by bisection; the lemmas show that this is a lookup.
\<close>

section \<open>The sorted vector of users\<close>

text \<open>\<open>Vec::dedup_by\<close> on the first component: of a run of equal keys the first entry stays.\<close>

fun dedup_by_fst :: "('k \<times> 'v) list \<Rightarrow> ('k \<times> 'v) list" where
  "dedup_by_fst (p # q # ps) =
     (if fst p = fst q then dedup_by_fst (p # ps) else p # dedup_by_fst (q # ps))"
| "dedup_by_fst ps = ps"

text \<open>\<open>IntMapVisitor::visit_map\<close> on the entries of the JSON object, in their order.\<close>

definition vec_deserialize_powerlevel_values ::
    "(string \<times> int) list \<Rightarrow> (string \<times> int) list" where
  "vec_deserialize_powerlevel_values entries = dedup_by_fst (sort entries)"

text \<open>\<open>slice::binary_search_by\<close> with a comparison of the key, on the range \<open>[lo, hi)\<close>.\<close>

function bisect :: "('k :: linorder \<times> 'v) list \<Rightarrow> 'k \<Rightarrow> nat \<Rightarrow> nat \<Rightarrow> nat option" where
  "bisect xs k lo hi =
     (if lo < hi then
        (let mid = lo + (hi - lo) div 2; item = fst (xs ! mid) in
         if item = k then Some mid
         else if item < k then bisect xs k (mid + 1) hi
         else bisect xs k lo mid)
      else None)"
  by auto
termination by (relation "measure (\<lambda>(xs, k, lo, hi). hi - lo)") auto

declare bisect.simps [simp del]

record power_levels_content_fields =
  plf_users :: "(string \<times> int) list"
  plf_users_default :: int

definition power_levels_content_fields_of ::
    "decoders \<Rightarrow> string \<Rightarrow> power_levels_content_fields option" where
  "power_levels_content_fields_of de content =
     map_option (\<lambda>(users, users_default).
        \<lparr>plf_users = vec_deserialize_powerlevel_values users, plf_users_default = users_default\<rparr>)
       (de_v1_users de content)"

definition get_user_power :: "power_levels_content_fields \<Rightarrow> string \<Rightarrow> int option" where
  "get_user_power plf user_id =
     (case bisect (plf_users plf) user_id 0 (length (plf_users plf)) of
        None \<Rightarrow> None
      | Some idx \<Rightarrow> if idx < length (plf_users plf) then Some (snd (plf_users plf ! idx)) else None)"

section \<open>Whole contents\<close>

definition into_room_power_levels_content ::
    "decoders \<Rightarrow> authorization_rules \<Rightarrow> power_levels \<Rightarrow> power_levels" where
  "into_room_power_levels_content de auth_rules c =
     (new_power_levels de auth_rules)
       \<lparr>pl_ban := pl_ban c, pl_events := pl_events c, pl_events_default := pl_events_default c,
        pl_invite := pl_invite c, pl_kick := pl_kick c, pl_redact := pl_redact c,
        pl_state_default := pl_state_default c, pl_users := pl_users c,
        pl_users_default := pl_users_default c, pl_notifications_room := pl_notifications_room c\<rparr>"

definition deserialize_integer_power_levels ::
    "decoders \<Rightarrow> string \<Rightarrow> authorization_rules \<Rightarrow> power_levels option" where
  "deserialize_integer_power_levels de content auth_rules =
     map_option (into_room_power_levels_content de auth_rules) (de_int_power_levels de content)"

definition deserialize_legacy_power_levels :: "decoders \<Rightarrow> string \<Rightarrow> power_levels option" where
  "deserialize_legacy_power_levels de content = de_power_levels de content"

definition deserialize_power_levels ::
    "decoders \<Rightarrow> string \<Rightarrow> room_version_rules \<Rightarrow> power_levels option" where
  "deserialize_power_levels de content rules =
     (if integer_power_levels (authorization rules)
      then deserialize_integer_power_levels de content (authorization rules)
      else deserialize_legacy_power_levels de content)"

definition deserialize_power_levels_content_invite ::
    "decoders \<Rightarrow> string \<Rightarrow> room_version_rules \<Rightarrow> state_res_error + int" where
  "deserialize_power_levels_content_invite de content rules =
     ok_or SerdeJson
       (if integer_power_levels (authorization rules) then de_int_invite de content
        else de_v1_invite de content)"

definition deserialize_power_levels_content_redact ::
    "decoders \<Rightarrow> string \<Rightarrow> room_version_rules \<Rightarrow> state_res_error + int" where
  "deserialize_power_levels_content_redact de content rules =
     ok_or SerdeJson
       (if integer_power_levels (authorization rules) then de_int_redact de content
        else de_v1_redact de content)"

section \<open>Bisection finds\<close>

lemma bisect_sound: "bisect xs k lo hi = Some i \<Longrightarrow> lo \<le> i \<and> i < hi \<and> fst (xs ! i) = k"
proof (induction xs k lo hi rule: bisect.induct)
  case (1 xs k lo hi)
  from 1(3) have lt: "lo < hi" by (simp add: bisect.simps [of xs k lo] split: if_splits)
  define mid where "mid = lo + (hi - lo) div 2"
  have mid: "lo \<le> mid" "mid < hi" using lt by (auto simp: mid_def)
  note step = bisect.simps [of xs k lo hi, folded mid_def, unfolded Let_def]
  consider "fst (xs ! mid) = k" | "fst (xs ! mid) < k" | "k < fst (xs ! mid)" by force
  then show ?case
  proof cases
    case 1
    then show ?thesis using \<open>bisect xs k lo hi = Some i\<close> lt mid by (simp add: step)
  next
    case 2
    then have "bisect xs k (mid + 1) hi = Some i" using 1(3) lt by (auto simp: step split: if_splits)
    then show ?thesis using 1(1) [OF lt mid_def refl] less_imp_neq [OF 2] 2 mid by simp
  next
    case 3
    then have "bisect xs k lo mid = Some i" using 1(3) lt by (auto simp: step split: if_splits)
    then show ?thesis using 1(2) [OF lt mid_def refl] less_imp_neq [OF 3] less_not_sym [OF 3] 3 mid by auto
  qed
qed

lemma bisect_complete:
  "sorted (map fst xs) \<Longrightarrow> hi \<le> length xs \<Longrightarrow> lo \<le> i \<Longrightarrow> i < hi \<Longrightarrow> fst (xs ! i) = k \<Longrightarrow>
   bisect xs k lo hi \<noteq> None"
proof (induction xs k lo hi rule: bisect.induct)
  case (1 xs k lo hi)
  define mid where "mid = lo + (hi - lo) div 2"
  have lt: "lo < hi" using 1(5,6) by simp
  then have mid: "lo \<le> mid" "mid < hi" by (auto simp: mid_def)
  note step = bisect.simps [of xs k lo hi, folded mid_def, unfolded Let_def]
  have mono: "fst (xs ! a) \<le> fst (xs ! b)" if "a \<le> b" "b < hi" for a b
    using sorted_nth_mono [OF 1(3), of a b] that 1(4) by simp
  consider "fst (xs ! mid) = k" | "fst (xs ! mid) < k" | "k < fst (xs ! mid)" by force
  then show ?case
  proof cases
    case 2
    then have "mid + 1 \<le> i" using mono [of i mid] mid 1(7) by (force simp: not_less_eq_eq [symmetric])
    then show ?thesis using 1(1) [OF lt mid_def refl] 2 1(3-7) lt by (auto simp: step)
  next
    case 3
    then have "i < mid" using mono [of mid i] 1(6,7) by (metis leD not_less)
    then show ?thesis using 1(2) [OF lt mid_def refl] 3 1(3-7) lt mid by (auto simp: step)
  qed (use lt in \<open>simp add: step\<close>)
qed

section \<open>Sorting and deduplication make a lookup table\<close>

lemma dedup_by_fst_subset: "set (dedup_by_fst ps) \<subseteq> set ps"
  by (induction ps rule: dedup_by_fst.induct) auto

lemma map_of_dedup_by_fst: "map_of (dedup_by_fst ps) = map_of ps"
proof (induction ps rule: dedup_by_fst.induct)
  case (1 p q ps)
  then show ?case by (cases p; cases q) (auto simp: fun_eq_iff)
qed auto

lemma sorted_dedup_by_fst:
  "sorted (ps :: ('k :: linorder \<times> 'v :: linorder) list) \<Longrightarrow> sorted_wrt (<) (map fst (dedup_by_fst ps))"
proof (induction ps rule: dedup_by_fst.induct)
  case (1 p q ps)
  show ?case
  proof (cases "fst p = fst q")
    case True
    then show ?thesis using 1 by simp
  next
    case False
    have "fst p < fst x" if "x \<in> set (q # ps)" for x
    proof -
      have "fst p < fst q" using 1(3) False by (cases p; cases q) (auto simp: less_eq_prod_def)
      moreover have "fst q \<le> fst x" using 1(3) that by (cases q; cases x) (auto simp: less_eq_prod_def)
      ultimately show ?thesis by simp
    qed
    then have "\<forall>x \<in> set (dedup_by_fst (q # ps)). fst p < fst x" using dedup_by_fst_subset by blast
    with False 1 show ?thesis by simp
  qed
qed auto

lemma bisect_map_of:
  assumes "sorted_wrt (<) (map fst xs)"
  shows "map_option (\<lambda>i. snd (xs ! i)) (bisect xs k 0 (length xs)) = map_of xs k"
proof -
  have d: "distinct (map fst xs)" using assms by (simp add: strict_sorted_iff)
  have s: "sorted (map fst xs)" using assms by (simp add: strict_sorted_iff)
  show ?thesis
  proof (cases "bisect xs k 0 (length xs)")
    case None
    have "k \<notin> fst ` set xs"
    proof
      assume "k \<in> fst ` set xs"
      then obtain i where "i < length xs" "fst (xs ! i) = k" by (auto simp: in_set_conv_nth)
      then show False using bisect_complete [OF s order_refl le0] None by blast
    qed
    with None show ?thesis by (simp add: map_of_eq_None_iff [symmetric])
  next
    case (Some i)
    then have "i < length xs" "fst (xs ! i) = k" using bisect_sound by force+
    then have "(k, snd (xs ! i)) \<in> set xs" by (metis nth_mem prod.collapse)
    with Some d show ?thesis by simp
  qed
qed

lemma map_of_sorted_least:
  "sorted (ps :: ('k :: linorder \<times> 'v :: linorder) list) \<Longrightarrow> (k, v) \<in> set ps \<Longrightarrow>
   \<exists>m. map_of ps k = Some m \<and> m \<le> v \<and> (k, m) \<in> set ps"
proof (induction ps)
  case (Cons p ps)
  obtain k' v' where p: "p = (k', v')" by (cases p)
  show ?case
  proof (cases "k' = k")
    case True
    with Cons.prems p show ?thesis by (fastforce simp: less_eq_prod_def)
  next
    case False
    with Cons p show ?thesis by auto
  qed
qed simp

section \<open>Properties\<close>

text \<open>The bisection over the sorted, deduplicated vector finds exactly the users of the
  power level event, whatever the order of the JSON object; for a user listed more than once
  it finds the lowest of the listed levels.\<close>

lemma get_user_power_lookup:
  assumes "de_v1_users de content = Some (entries, users_default)"
    and "power_levels_content_fields_of de content = Some plf"
  shows "(get_user_power plf user = None \<longleftrightarrow> user \<notin> fst ` set entries) \<and>
         (get_user_power plf user = Some level \<longleftrightarrow>
            (user, level) \<in> set entries \<and> (\<forall>l. (user, l) \<in> set entries \<longrightarrow> level \<le> l))"
proof -
  have plf: "plf_users plf = dedup_by_fst (sort entries)"
    using assms by (auto simp: power_levels_content_fields_of_def vec_deserialize_powerlevel_values_def)
  have "sorted_wrt (<) (map fst (dedup_by_fst (sort entries)))" by (rule sorted_dedup_by_fst) simp
  note b = bisect_map_of [OF this, of user, folded plf]
  have g: "get_user_power plf user = map_of (sort entries) user"
    using b bisect_sound [of "plf_users plf" user 0 "length (plf_users plf)"]
    by (auto simp: get_user_power_def plf map_of_dedup_by_fst split: option.splits)
  have least: "\<exists>m. map_of (sort entries) user = Some m \<and> m \<le> l \<and> (user, m) \<in> set entries"
    if "(user, l) \<in> set entries" for l
    using map_of_sorted_least [of "sort entries" user l] that by simp
  have mem: "(user, level) \<in> set entries" if "map_of (sort entries) user = Some level"
    using map_of_SomeD [OF that] by simp
  have "get_user_power plf user = Some level \<longleftrightarrow>
        (user, level) \<in> set entries \<and> (\<forall>l. (user, l) \<in> set entries \<longrightarrow> level \<le> l)"
    unfolding g using least mem by (metis option.inject order_antisym)
  then show ?thesis unfolding g by (simp add: map_of_eq_None_iff)
qed

definition sample_users :: decoders where
  "sample_users = no_decoders\<lparr>de_v1_users := \<lambda>_. Some ([(''@b:x'', 50), (''@a:x'', 100), (''@b:x'', 20)], 0)\<rparr>"

end
