(* ===== verification/Event_Auth.thy ===== *)
theory Event_Auth
  imports Power_Levels
begin

text \<open>
  The authorization rules, \<open>src/core/matrix/state_res/event_auth.rs\<close>: which state an
  event is checked against (\<open>auth_types_for_event\<close>), and the check itself
  (\<open>auth_check\<close>), split at the early returns of the source into one definition per
  section of the rules. \<open>Inr True\<close> is \<open>Ok(true)\<close>, \<open>Inr False\<close> a rejection,
  \<open>Inl\<close> an error or a panic.
\<close>

section \<open>The state an event is checked against\<close>

definition push_unique :: "'a \<Rightarrow> 'a list \<Rightarrow> 'a list" where
  "push_unique k ks = (if k \<in> set ks then ks else ks @ [k])"

definition member_auth_types ::
    "member_auth_fields \<Rightarrow> string \<Rightarrow> type_state_key list \<Rightarrow> type_state_key list" where
  "member_auth_types content state_key auth_types =
     (case ma_membership content of
        Some (Some membership) \<Rightarrow>
          (let auth_types =
             (if membership \<in> {Join, Invite, Knock} then
                (let auth_types = push_unique (RoomJoinRules, '''') auth_types in
                 case ma_join_authorised_via_users_server content of
                   Some (Some u) \<Rightarrow> push_unique (RoomMember, u) auth_types
                 | _ \<Rightarrow> auth_types)
              else auth_types)
           in push_unique (RoomMember, state_key) auth_types)
      | _ \<Rightarrow> auth_types)"

definition auth_types_for_event ::
    "decoders \<Rightarrow> event_type \<Rightarrow> string \<Rightarrow> string option \<Rightarrow> string \<Rightarrow> room_version_rules \<Rightarrow>
     state_res_error + type_state_key list" where
  "auth_types_for_event de kind sender state_key content rules =
     (if kind = RoomCreate then Inr []
      else
        (let auth_types =
           (if room_id_format rules = RoomIdV2
            then [(RoomPowerLevels, ''''), (RoomMember, sender)]
            else [(RoomPowerLevels, ''''), (RoomMember, sender), (RoomCreate, '''')])
         in if kind = RoomMember then
              (case state_key of
                 None \<Rightarrow> Inr auth_types
               | Some state_key \<Rightarrow>
                   res_bind (ok_or SerdeJson (de_member_auth de content)) (\<lambda>content.
                     Inr (member_auth_types content state_key auth_types)))
            else Inr auth_types))"

section \<open>Power of users and events\<close>

definition get_user_power_level ::
    "room_version_rules \<Rightarrow> string \<Rightarrow> string option list \<Rightarrow> power_levels option \<Rightarrow> string \<Rightarrow>
     user_power_level" where
  "get_user_power_level rules creator additional_creators pls user_id =
     (if explicitly_privilege_room_creators (authorization rules) \<and>
         (user_id = creator \<or> (\<exists>c \<in> set additional_creators. c = Some user_id))
      then PL_Infinite
      else (case pls of
              Some pls \<Rightarrow>
                PL_Int (case map_of (pl_users pls) user_id of
                          Some l \<Rightarrow> l | None \<Rightarrow> pl_users_default pls)
            | None \<Rightarrow> PL_Int (if user_id = creator then 100 else 0)))"

definition get_send_level ::
    "decoders \<Rightarrow> event_type \<Rightarrow> string option \<Rightarrow> pdu option \<Rightarrow> int" where
  "get_send_level de e_type state_key power_lvl =
     (case (case power_lvl of None \<Rightarrow> None | Some ple \<Rightarrow> de_power_levels de (pdu_content ple)) of
        Some content \<Rightarrow>
          (case map_of (pl_events content) e_type of
             Some l \<Rightarrow> l
           | None \<Rightarrow> if state_key \<noteq> None then pl_state_default content else pl_events_default content)
      | None \<Rightarrow> if state_key \<noteq> None then 50 else 0)"

definition can_send_event :: "decoders \<Rightarrow> pdu \<Rightarrow> pdu option \<Rightarrow> user_power_level \<Rightarrow> bool" where
  "can_send_event de ev ple user_level =
     (if user_level < PL_Int (get_send_level de (pdu_kind ev) (pdu_state_key ev) ple) then False
      else if (case pdu_state_key ev of
                 None \<Rightarrow> False
               | Some k \<Rightarrow> k \<noteq> [] \<and> hd k = CHR ''@'' \<and> k \<noteq> pdu_sender ev) then False
      else True)"

definition check_redaction ::
    "decoders \<Rightarrow> pdu \<Rightarrow> user_power_level \<Rightarrow> int \<Rightarrow> bool" where
  "check_redaction de redaction_event user_level redact_level =
     (if PL_Int redact_level \<le> user_level then True
      else event_server_name de (pdu_event_id redaction_event) =
           (case pdu_redacts redaction_event of None \<Rightarrow> None | Some i \<Rightarrow> event_server_name de i))"

section \<open>Changes of the power levels\<close>

text \<open>One round of the loop over users, and of the loop over event types.\<close>

definition user_level_change_ok ::
    "string \<Rightarrow> user_power_level \<Rightarrow> string list \<Rightarrow> power_levels \<Rightarrow> power_levels \<Rightarrow> string \<Rightarrow> bool" where
  "user_level_change_ok sender user_level creators old_state new_state user =
     (let old_level = map_of (pl_users old_state) user; new_level = map_of (pl_users new_state) user in
      if new_level \<noteq> None \<and> user \<in> set creators then False
      else if old_level \<noteq> None \<and> new_level \<noteq> None \<and> old_level = new_level then True
      else if user \<noteq> sender \<and> map_option PL_Int old_level = Some user_level then False
      else if Some user_level < map_option PL_Int old_level then False
      else if Some user_level < map_option PL_Int new_level then False
      else True)"

definition event_level_change_ok ::
    "user_power_level \<Rightarrow> power_levels \<Rightarrow> power_levels \<Rightarrow> event_type \<Rightarrow> bool" where
  "event_level_change_ok user_level old_state new_state ev_type =
     (let old_level = map_of (pl_events old_state) ev_type; new_level = map_of (pl_events new_state) ev_type in
      if old_level \<noteq> None \<and> new_level \<noteq> None \<and> old_level = new_level then True
      else if Some user_level < map_option PL_Int old_level then False
      else if Some user_level < map_option PL_Int new_level then False
      else True)"

definition level_names :: "string list" where
  "level_names = [''users_default'', ''events_default'', ''state_default'', ''ban'', ''redact'', ''kick'', ''invite'']"

definition get_deserialize_levels ::
    "decoders \<Rightarrow> power_levels \<Rightarrow> power_levels \<Rightarrow> string \<Rightarrow> (int \<times> int) option" where
  "get_deserialize_levels de old new name =
     (case level_to_value de old name of
        None \<Rightarrow> None
      | Some a \<Rightarrow> (case level_to_value de new name of None \<Rightarrow> None | Some b \<Rightarrow> Some (a, b)))"

definition check_power_levels ::
    "decoders \<Rightarrow> room_version_rules \<Rightarrow> pdu \<Rightarrow> pdu option \<Rightarrow> user_power_level \<Rightarrow> string list \<Rightarrow> bool option" where
  "check_power_levels de rules power_event previous_power_event user_level creators =
     (if pdu_state_key power_event \<noteq> Some '''' then None
      else case deserialize_power_levels de (pdu_content power_event) rules of
        None \<Rightarrow> None
      | Some new_state \<Rightarrow>
          (case previous_power_event of
             None \<Rightarrow> Some True
           | Some current_state \<Rightarrow>
               (case deserialize_power_levels de (pdu_content current_state) rules of
                  None \<Rightarrow> None
                | Some old_state \<Rightarrow>
                    Some
                     (list_all (user_level_change_ok (pdu_sender power_event) user_level creators old_state new_state)
                        (remdups (map fst (pl_users old_state) @ map fst (pl_users new_state))) \<and>
                      list_all (event_level_change_ok user_level old_state new_state)
                        (remdups (map fst (pl_events old_state) @ map fst (pl_events new_state))) \<and>
                      \<not> (limit_notifications_power_levels (authorization rules) \<and>
                         pl_notifications_room old_state \<noteq> pl_notifications_room new_state \<and>
                         (user_level < PL_Int (pl_notifications_room old_state) \<or>
                          user_level < PL_Int (pl_notifications_room new_state))) \<and>
                      list_all (\<lambda>lvl_name.
                          case get_deserialize_levels de old_state new_state lvl_name of
                            None \<Rightarrow> True
                          | Some (old_lvl, new_lvl) \<Rightarrow>
                              \<not> (user_level < PL_Int old_lvl \<or> user_level < PL_Int new_lvl))
                        level_names))))"

section \<open>Membership changes\<close>

text \<open>The local values of \<open>valid_membership_change\<close> that its branches read.\<close>

record membership_change =
  mc_target_user :: string
  mc_sender :: string
  mc_creator :: string
  mc_sender_membership :: membership
  mc_current_membership :: membership
  mc_sender_power :: user_power_level
  mc_target_power :: user_power_level
  mc_levels :: power_levels
  mc_join_rules :: join_rule
  mc_join_auth_is_valid :: bool
  mc_third_party_invite :: "string option"

definition verify_third_party_invite :: "string \<Rightarrow> string \<Rightarrow> string \<Rightarrow> pdu option \<Rightarrow> bool" where
  "verify_third_party_invite target_user sender tp_id current_third_party_invite = True"

definition change_to_join ::
    "room_version_rules \<Rightarrow> pdu \<Rightarrow> pdu \<Rightarrow> membership_change \<Rightarrow> bool" where
  "change_to_join rules current_event create_room mc =
     (let prev_event_is_create_event =
            (case pdu_prev_events current_event of [] \<Rightarrow> False | e # _ \<Rightarrow> e = pdu_event_id create_room);
          no_more_prev_events = (length (pdu_prev_events current_event) \<le> 1);
          membership_allows_join = (mc_current_membership mc \<in> {Join, Invite})
      in if prev_event_is_create_event \<and> no_more_prev_events \<and> mc_sender mc = mc_creator mc then True
         else if mc_sender mc \<noteq> mc_target_user mc then False
         else if mc_current_membership mc = Ban then False
         else (case mc_join_rules mc of
                 JInvite \<Rightarrow> membership_allows_join
               | JKnock \<Rightarrow>
                   if \<not> knocking (authorization rules) then False else membership_allows_join
               | JKnockRestricted \<Rightarrow>
                   if \<not> knock_restricted_join_rule (authorization rules) then False
                   else membership_allows_join \<or> mc_join_auth_is_valid mc
               | JRestricted \<Rightarrow> membership_allows_join \<or> mc_join_auth_is_valid mc
               | JPublic \<Rightarrow> True
               | _ \<Rightarrow> False))"

definition change_to_invite :: "pdu option \<Rightarrow> membership_change \<Rightarrow> bool" where
  "change_to_invite current_third_party_invite mc =
     (case mc_third_party_invite mc of
        Some tp_id \<Rightarrow>
          if mc_current_membership mc = Ban then False
          else verify_third_party_invite (mc_target_user mc) (mc_sender mc) tp_id current_third_party_invite
      | None \<Rightarrow>
          if mc_sender_membership mc \<noteq> Join then False
          else if mc_current_membership mc \<in> {Join, Ban} then False
          else PL_Int (pl_invite (mc_levels mc)) \<le> mc_sender_power mc)"

definition change_to_leave :: "membership_change \<Rightarrow> bool" where
  "change_to_leave mc =
     (if mc_sender mc = mc_target_user mc then mc_current_membership mc \<in> {Join, Invite, Knock}
      else if mc_sender_membership mc \<noteq> Join then False
      else
        (let cannot_unban = (mc_current_membership mc = Ban \<and>
                             mc_sender_power mc < PL_Int (pl_ban (mc_levels mc)));
             can_kick = (PL_Int (pl_kick (mc_levels mc)) \<le> mc_sender_power mc \<and>
                         mc_target_power mc < mc_sender_power mc)
         in if cannot_unban then False else if can_kick then True else False))"

definition change_to_ban :: "membership_change \<Rightarrow> bool" where
  "change_to_ban mc =
     (if mc_sender_membership mc \<noteq> Join then False
      else PL_Int (pl_ban (mc_levels mc)) \<le> mc_sender_power mc \<and>
           mc_target_power mc < mc_sender_power mc)"

definition change_to_knock :: "room_version_rules \<Rightarrow> membership_change \<Rightarrow> bool" where
  "change_to_knock rules mc =
     (if mc_join_rules mc \<notin> {JKnockRestricted, JKnock} then False
      else if mc_join_rules mc = JKnockRestricted \<and> \<not> knock_restricted_join_rule (authorization rules)
        then False
      else if mc_sender mc \<noteq> mc_target_user mc then False
      else if mc_sender_membership mc \<in> {Ban, Invite, Join} then False
      else True)"

text \<open>The room's creator, from the sender or the content of the create event.\<close>

definition room_creator ::
    "room_version_rules \<Rightarrow> pdu \<Rightarrow> create_fields \<Rightarrow> state_res_error + string" where
  "room_creator rules create_room create_content =
     (if use_room_create_sender (authorization rules) then Inr (pdu_sender create_room)
      else (case cf_creator create_content of
              None \<Rightarrow> Inl (InvalidPdu ''Missing creator field in m.room.create event'')
            | Some raw \<Rightarrow> ok_or SerdeJson raw))"

definition membership_of_event :: "decoders \<Rightarrow> pdu option \<Rightarrow> state_res_error + membership" where
  "membership_of_event de ev =
     (case ev of
        Some pdu \<Rightarrow> ok_or SerdeJson (de_get_membership de (pdu_content pdu))
      | None \<Rightarrow> Inr Leave)"

definition power_levels_of_event ::
    "decoders \<Rightarrow> pdu option \<Rightarrow> state_res_error + power_levels option" where
  "power_levels_of_event de ev =
     (case ev of
        None \<Rightarrow> Inr None
      | Some pl \<Rightarrow> res_bind (ok_or SerdeJson (de_power_levels de (pdu_content pl))) (\<lambda>c. Inr (Some c)))"

definition additional_creators_of :: "create_fields \<Rightarrow> string option list" where
  "additional_creators_of c = (case cf_additional_creators c of None \<Rightarrow> [] | Some cs \<Rightarrow> cs)"

definition join_auth_is_valid ::
    "decoders \<Rightarrow> room_version_rules \<Rightarrow> string \<Rightarrow> string option list \<Rightarrow> pdu option \<Rightarrow> power_levels option \<Rightarrow>
     string option \<Rightarrow> membership \<Rightarrow> state_res_error + bool" where
  "join_auth_is_valid de rules creator additional power_levels_event pls user_for_join_auth
       user_for_join_auth_membership =
     (case user_for_join_auth of
        Some user \<Rightarrow>
          res_bind
            (case power_levels_event of
               Some pl \<Rightarrow>
                 res_bind (deserialize_power_levels_content_invite de (pdu_content pl) rules) (\<lambda>invite.
                   Inr (get_user_power_level rules creator additional pls user, invite))
             | None \<Rightarrow> Inr (PL_Int 0, 0))
            (\<lambda>(auth_user_pl, invite_level).
               Inr (user_for_join_auth_membership = Join \<and> PL_Int invite_level \<le> auth_user_pl))
      | None \<Rightarrow> Inr False)"

definition membership_change_of ::
    "decoders \<Rightarrow> room_version_rules \<Rightarrow> string \<Rightarrow> pdu option \<Rightarrow> string \<Rightarrow> pdu option \<Rightarrow> pdu \<Rightarrow>
     pdu option \<Rightarrow> pdu option \<Rightarrow> string option \<Rightarrow> membership \<Rightarrow> pdu \<Rightarrow>
     state_res_error + membership \<times> membership_change" where
  "membership_change_of de rules target_user target_user_membership_event sender sender_membership_event
       current_event power_levels_event join_rules_event user_for_join_auth
       user_for_join_auth_membership create_room =
     res_bind (ok_or SerdeJson (de_create de (pdu_content create_room))) (\<lambda>create_content.
     res_bind (room_creator rules create_room create_content) (\<lambda>creator.
     res_bind (ok_or SerdeJson (de_get_membership de (pdu_content current_event))) (\<lambda>target_membership.
     res_bind (ok_or SerdeJson (de_third_party_invite de (pdu_content current_event))) (\<lambda>third_party_invite.
     res_bind (membership_of_event de sender_membership_event) (\<lambda>sender_membership.
     res_bind (membership_of_event de target_user_membership_event) (\<lambda>target_user_current_membership.
     res_bind (power_levels_of_event de power_levels_event) (\<lambda>pls.
     res_bind (case join_rules_event of
                 Some jr \<Rightarrow> ok_or SerdeJson (de_join_rule de (pdu_content jr))
               | None \<Rightarrow> Inr JInvite) (\<lambda>join_rules.
     res_bind (join_auth_is_valid de rules creator (additional_creators_of create_content)
                 power_levels_event pls user_for_join_auth user_for_join_auth_membership) (\<lambda>valid.
       Inr (target_membership,
            \<lparr>mc_target_user = target_user, mc_sender = sender, mc_creator = creator,
             mc_sender_membership = sender_membership,
             mc_current_membership = target_user_current_membership,
             mc_sender_power =
               get_user_power_level rules creator (additional_creators_of create_content) pls sender,
             mc_target_power =
               get_user_power_level rules creator (additional_creators_of create_content) pls target_user,
             mc_levels = (case pls of Some pl \<Rightarrow> pl | None \<Rightarrow> new_power_levels de (authorization rules)),
             mc_join_rules = join_rules, mc_join_auth_is_valid = valid,
             mc_third_party_invite = (case third_party_invite of None \<Rightarrow> None | Some raw \<Rightarrow> raw)\<rparr>))))))))))"

fun membership_rule ::
    "room_version_rules \<Rightarrow> pdu \<Rightarrow> pdu option \<Rightarrow> pdu \<Rightarrow> membership \<Rightarrow> membership_change \<Rightarrow> bool" where
  "membership_rule rules current_event tpi create_room Join mc =
     change_to_join rules current_event create_room mc"
| "membership_rule rules current_event tpi create_room Invite mc = change_to_invite tpi mc"
| "membership_rule rules current_event tpi create_room Leave mc = change_to_leave mc"
| "membership_rule rules current_event tpi create_room Ban mc = change_to_ban mc"
| "membership_rule rules current_event tpi create_room Knock mc =
     (if knocking (authorization rules) then change_to_knock rules mc else False)"
| "membership_rule rules current_event tpi create_room (OtherMembership _) mc = False"

definition valid_membership_change ::
    "decoders \<Rightarrow> room_version_rules \<Rightarrow> string \<Rightarrow> pdu option \<Rightarrow> string \<Rightarrow> pdu option \<Rightarrow> pdu \<Rightarrow>
     pdu option \<Rightarrow> pdu option \<Rightarrow> pdu option \<Rightarrow> string option \<Rightarrow> membership \<Rightarrow> pdu \<Rightarrow>
     state_res_error + bool" where
  "valid_membership_change de rules target_user target_user_membership_event sender
       sender_membership_event current_event current_third_party_invite power_levels_event
       join_rules_event user_for_join_auth user_for_join_auth_membership create_room =
     res_bind
       (membership_change_of de rules target_user target_user_membership_event sender
          sender_membership_event current_event power_levels_event join_rules_event
          user_for_join_auth user_for_join_auth_membership create_room)
       (\<lambda>(target_membership, mc).
          Inr (membership_rule rules current_event current_third_party_invite create_room target_membership mc))"

section \<open>The check\<close>

definition auth_check_create ::
    "decoders \<Rightarrow> room_version_rules \<Rightarrow> pdu \<Rightarrow> state_res_error + bool" where
  "auth_check_create de rules ev =
     (if pdu_prev_events ev \<noteq> [] then Inr False
      else if (case pdu_room_id ev of
                 None \<Rightarrow> False
               | Some room_id \<Rightarrow>
                   (case room_server_name de room_id of
                      None \<Rightarrow> True
                    | Some name \<Rightarrow> name \<noteq> user_server_name de (pdu_sender ev))) then Inr False
      else res_bind (ok_or SerdeJson (de_create de (pdu_content ev))) (\<lambda>content.
        if cf_room_version content = Some None then Inr False
        else if room_id_format rules = RoomIdV2 \<and> pdu_room_id ev \<noteq> None then Inr False
        else if \<not> use_room_create_sender (authorization rules) \<and>
                \<not> explicitly_privilege_room_creators (authorization rules) \<and>
                cf_creator content = None then Inr False
        else Inr True))"

definition auth_check_member ::
    "decoders \<Rightarrow> room_version_rules \<Rightarrow> pdu \<Rightarrow> pdu option \<Rightarrow> (type_state_key \<Rightarrow> pdu option) \<Rightarrow> pdu \<Rightarrow>
     pdu option \<Rightarrow> pdu option \<Rightarrow> state_res_error + bool" where
  "auth_check_member de rules ev current_third_party_invite fetch_state create_event
       power_levels_event sender_member_event =
     (case pdu_state_key ev of
        None \<Rightarrow> Inr False
      | Some state_key \<Rightarrow>
          res_bind (ok_or SerdeJson (de_member de (pdu_content ev))) (\<lambda>content.
            if (case mf_membership content of Some (Some m) \<Rightarrow> False | _ \<Rightarrow> True) then Inr False
            else if \<not> valid_user_id de state_key then Inl (InvalidPdu ''invalid user id'')
            else
              (let user_for_join_auth =
                     (case mf_join_authorised_via_users_server content of None \<Rightarrow> None | Some raw \<Rightarrow> raw);
                   user_for_join_auth_event =
                     (case user_for_join_auth of None \<Rightarrow> None | Some u \<Rightarrow> fetch_state (RoomMember, u));
                   user_for_join_auth_membership =
                     (case user_for_join_auth_event of
                        None \<Rightarrow> Leave
                      | Some mem \<Rightarrow>
                          (case de_get_membership de (pdu_content mem) of None \<Rightarrow> Leave | Some m \<Rightarrow> m))
               in valid_membership_change de rules state_key (fetch_state (RoomMember, state_key))
                    (pdu_sender ev) sender_member_event ev current_third_party_invite
                    power_levels_event (fetch_state (RoomJoinRules, '''')) user_for_join_auth
                    user_for_join_auth_membership create_event)))"

text \<open>The creators that an \<open>m.room.power_levels\<close> event must not mention.\<close>

fun decode_all :: "string option list \<Rightarrow> state_res_error + string list" where
  "decode_all [] = Inr []"
| "decode_all (None # cs) = Inl SerdeJson"
| "decode_all (Some c # cs) = res_bind (decode_all cs) (\<lambda>cs. Inr (c # cs))"

definition auth_check_power_levels ::
    "decoders \<Rightarrow> room_version_rules \<Rightarrow> pdu \<Rightarrow> pdu \<Rightarrow> create_fields \<Rightarrow> pdu option \<Rightarrow>
     user_power_level \<Rightarrow> state_res_error + bool" where
  "auth_check_power_levels de rules ev create_event create_content power_levels_event sender_power_level =
     res_bind
       (if explicitly_privilege_room_creators (authorization rules)
        then res_bind (decode_all (additional_creators_of create_content)) (\<lambda>cs.
               Inr (pdu_sender create_event # cs))
        else Inr [])
       (\<lambda>creators.
          Inr (check_power_levels de rules ev power_levels_event sender_power_level creators = Some True))"

definition auth_check_redaction ::
    "decoders \<Rightarrow> room_version_rules \<Rightarrow> pdu \<Rightarrow> pdu option \<Rightarrow> user_power_level \<Rightarrow> state_res_error + bool" where
  "auth_check_redaction de rules ev power_levels_event sender_power_level =
     res_bind
       (case power_levels_event of
          Some pl \<Rightarrow> deserialize_power_levels_content_redact de (pdu_content pl) rules
        | None \<Rightarrow> Inr 50)
       (\<lambda>redact_level. Inr (check_redaction de ev sender_power_level redact_level))"

text \<open>The sender's power from the create event and the power levels of the room.\<close>

definition sender_power_level_of ::
    "decoders \<Rightarrow> room_version_rules \<Rightarrow> pdu \<Rightarrow> create_fields \<Rightarrow> pdu option \<Rightarrow> string \<Rightarrow>
     state_res_error + power_levels \<times> user_power_level" where
  "sender_power_level_of de rules create_event create_content power_levels_event sender =
     res_bind (room_creator rules create_event create_content) (\<lambda>creator.
     res_bind (power_levels_of_event de power_levels_event) (\<lambda>pls.
       Inr ((case pls of Some pl \<Rightarrow> pl | None \<Rightarrow> new_power_levels de (authorization rules)),
            get_user_power_level rules creator (additional_creators_of create_content) pls sender)))"

definition auth_check_sent ::
    "decoders \<Rightarrow> room_version_rules \<Rightarrow> pdu \<Rightarrow> pdu \<Rightarrow> create_fields \<Rightarrow> pdu option \<Rightarrow> state_res_error + bool" where
  "auth_check_sent de rules ev create_event create_content power_levels_event =
     res_bind (sender_power_level_of de rules create_event create_content power_levels_event (pdu_sender ev))
       (\<lambda>(effective_power_levels, sender_power_level).
        if pdu_kind ev = RoomThirdPartyInvite then
          Inr (\<not> sender_power_level < PL_Int (pl_invite effective_power_levels))
        else if \<not> can_send_event de ev power_levels_event sender_power_level then Inr False
        else
          res_bind
            (if pdu_kind ev = RoomPowerLevels
             then auth_check_power_levels de rules ev create_event create_content power_levels_event
                    sender_power_level
             else Inr True)
            (\<lambda>allowed.
               if \<not> allowed then Inr False
               else if special_case_room_redaction (authorization rules) \<and> pdu_kind ev = RoomRedaction
               then auth_check_redaction de rules ev power_levels_event sender_power_level
               else Inr True))"

text \<open>The sender must be joined.\<close>

definition auth_check_sender ::
    "decoders \<Rightarrow> room_version_rules \<Rightarrow> pdu \<Rightarrow> pdu \<Rightarrow> create_fields \<Rightarrow> string \<Rightarrow> pdu option \<Rightarrow> pdu option \<Rightarrow>
     state_res_error + bool" where
  "auth_check_sender de rules ev create_event create_content expected_room_id power_levels_event
       sender_member_event =
     (case sender_member_event of
        None \<Rightarrow> Inr False
      | Some mem \<Rightarrow>
          res_bind (ok_or Panicked (pdu_room_id mem)) (\<lambda>mem_room_id.
            if mem_room_id \<noteq> expected_room_id then Inr False
            else res_bind (ok_or SerdeJson (de_member de (pdu_content mem))) (\<lambda>content.
              case mf_membership content of
                None \<Rightarrow> Inl (InvalidPdu ''Missing membership field'')
              | Some raw \<Rightarrow>
                  res_bind (ok_or SerdeJson raw) (\<lambda>membership_state.
                    if membership_state \<noteq> Join then Inr False
                    else auth_check_sent de rules ev create_event create_content power_levels_event))))"

definition auth_check_in_room ::
    "decoders \<Rightarrow> room_version_rules \<Rightarrow> pdu \<Rightarrow> pdu option \<Rightarrow> (type_state_key \<Rightarrow> pdu option) \<Rightarrow> pdu \<Rightarrow>
     state_res_error + bool" where
  "auth_check_in_room de rules ev current_third_party_invite fetch_state create_event =
     (let sender = pdu_sender ev;
          power_levels_event = fetch_state (RoomPowerLevels, '''');
          sender_member_event = fetch_state (RoomMember, sender)
      in
      res_bind (ok_or SerdeJson (de_create de (pdu_content create_event))) (\<lambda>create_content.
      if cf_room_version create_content = Some None then Inr False
      else
      res_bind (room_id_or_hash de create_event) (\<lambda>expected_room_id.
      res_bind (ok_or Panicked (pdu_room_id ev)) (\<lambda>room_id.
      if room_id \<noteq> expected_room_id then Inr False
      else
      (let claims_create_event = (pdu_event_id create_event \<in> set (pdu_auth_events ev)) in
      if room_id_format rules = RoomIdV2 \<and> claims_create_event then Inr False
      else if room_id_format rules \<noteq> RoomIdV2 \<and> \<not> claims_create_event then Inr False
      else
      res_bind (case power_levels_event of
                  None \<Rightarrow> Inr True
                | Some pe \<Rightarrow> res_bind (ok_or Panicked (pdu_room_id pe)) (\<lambda>r. Inr (r = expected_room_id)))
        (\<lambda>same_room.
      if \<not> same_room then Inr False
      else if \<not> cf_federate create_content \<and>
              user_server_name de (pdu_sender create_event) \<noteq> user_server_name de sender then Inr False
      else if special_case_room_aliases (authorization rules) \<and> pdu_kind ev = RoomAliases
      then Inr (pdu_state_key ev = Some (user_server_name de sender))
      else if pdu_kind ev = RoomMember
      then auth_check_member de rules ev current_third_party_invite fetch_state create_event
             power_levels_event sender_member_event
      else auth_check_sender de rules ev create_event create_content expected_room_id
             power_levels_event sender_member_event))))))"

definition auth_check ::
    "decoders \<Rightarrow> room_version_rules \<Rightarrow> pdu \<Rightarrow> pdu option \<Rightarrow> (type_state_key \<Rightarrow> pdu option) \<Rightarrow> pdu \<Rightarrow>
     state_res_error + bool" where
  "auth_check de rules incoming_event current_third_party_invite fetch_state create_event =
     (if pdu_kind incoming_event = RoomCreate then auth_check_create de rules incoming_event
      else auth_check_in_room de rules incoming_event current_third_party_invite fetch_state create_event)"

section \<open>Inversion of the accepting paths\<close>

lemma auth_check_sent_accepts:
  assumes "auth_check_sent de rules ev create_event cc ple = Inr True"
  obtains pls p where "sender_power_level_of de rules create_event cc ple (pdu_sender ev) = Inr (pls, p)"
    and "pdu_kind ev = RoomThirdPartyInvite \<longrightarrow> PL_Int (pl_invite pls) \<le> p"
    and "pdu_kind ev \<noteq> RoomThirdPartyInvite \<longrightarrow> can_send_event de ev ple p"
    and "pdu_kind ev = RoomPowerLevels \<longrightarrow> auth_check_power_levels de rules ev create_event cc ple p = Inr True"
    and "pdu_kind ev = RoomRedaction \<longrightarrow> special_case_room_redaction (authorization rules) \<longrightarrow>
           auth_check_redaction de rules ev ple p = Inr True"
  using assms by (auto simp: auth_check_sent_def not_less split: if_splits)

lemma auth_check_sender_accepts:
  assumes "auth_check_sender de rules ev create_event cc expected ple sm = Inr True"
  obtains mem content where "sm = Some mem" "pdu_room_id mem = Some expected"
    "de_member de (pdu_content mem) = Some content" "mf_membership content = Some (Some Join)"
    "auth_check_sent de rules ev create_event cc ple = Inr True"
  using assms by (auto simp: auth_check_sender_def split: option.splits if_splits)

lemma auth_check_in_room_accepts:
  assumes "auth_check_in_room de rules ev tpi fetch_state create_event = Inr True"
  obtains cc room where "de_create de (pdu_content create_event) = Some cc"
    "room_id_or_hash de create_event = Inr room" "pdu_room_id ev = Some room"
    "room_id_format rules = RoomIdV2 \<longleftrightarrow> pdu_event_id create_event \<notin> set (pdu_auth_events ev)"
    "\<And>pe. fetch_state (RoomPowerLevels, '''') = Some pe \<Longrightarrow> pdu_room_id pe = Some room"
    "cf_federate cc \<or> user_server_name de (pdu_sender create_event) = user_server_name de (pdu_sender ev)"
    "\<lbrakk>special_case_room_aliases (authorization rules); pdu_kind ev = RoomAliases\<rbrakk> \<Longrightarrow>
       pdu_state_key ev = Some (user_server_name de (pdu_sender ev))"
    "pdu_kind ev = RoomMember \<Longrightarrow>
       auth_check_member de rules ev tpi fetch_state create_event (fetch_state (RoomPowerLevels, ''''))
         (fetch_state (RoomMember, pdu_sender ev)) = Inr True"
    "\<lbrakk>pdu_kind ev \<noteq> RoomMember; \<not> (special_case_room_aliases (authorization rules) \<and> pdu_kind ev = RoomAliases)\<rbrakk> \<Longrightarrow>
       auth_check_sender de rules ev create_event cc room (fetch_state (RoomPowerLevels, ''''))
         (fetch_state (RoomMember, pdu_sender ev)) = Inr True"
  using assms by (auto simp: auth_check_in_room_def Let_def split: if_splits option.splits)

lemma can_send_event_iff:
  "can_send_event de ev ple p \<longleftrightarrow>
     PL_Int (get_send_level de (pdu_kind ev) (pdu_state_key ev) ple) \<le> p \<and>
     (\<forall>k. pdu_state_key ev = Some (CHR ''@'' # k) \<longrightarrow> pdu_sender ev = CHR ''@'' # k)"
proof (cases "pdu_state_key ev")
  case (Some k)
  then show ?thesis by (cases k) (auto simp: can_send_event_def not_less)
qed (auto simp: can_send_event_def not_less)


section \<open>A small room\<close>

text \<open>
  Concrete decoders and events for the witnesses: the content strings are names, the room
  \<open>!r:x\<close> was created by \<open>@a:x\<close>, who has power 100; \<open>@b:x\<close> has power 50 and is
  joined; \<open>@c:x\<close> is banned.
\<close>

definition demo_rules :: room_version_rules where
  "demo_rules =
     \<lparr>authorization =
        \<lparr>explicitly_privilege_room_creators = False, use_room_create_sender = False,
         special_case_room_aliases = False, special_case_room_redaction = False,
         integer_power_levels = False, limit_notifications_power_levels = True, knocking = True,
         knock_restricted_join_rule = True\<rparr>,
      room_id_format = RoomIdV1, state_res = StateResV2 False, content_field_redacts = False\<rparr>"

definition demo_levels :: "int \<Rightarrow> int \<Rightarrow> power_levels" where
  "demo_levels b ban =
     no_power_levels\<lparr>pl_users := [(''@a:x'', 100), (''@b:x'', b)],
        pl_events := [(RoomPowerLevels, 50)], pl_ban := ban\<rparr>"

definition demo_membership :: "string \<Rightarrow> membership option" where
  "demo_membership c = map_of [(''join'', Join), (''leave'', Leave), (''ban'', Ban), (''invite'', Invite)] c"

definition demo_decoders :: decoders where
  "demo_decoders = no_decoders
     \<lparr>de_create := (\<lambda>c. if c = ''create'' then
          Some \<lparr>cf_room_version = None, cf_creator = Some (Some ''@a:x''), cf_additional_creators = None,
                cf_federate = True\<rparr> else None),
      de_member := (\<lambda>c. map_option (\<lambda>m. \<lparr>mf_membership = Some (Some m),
          mf_join_authorised_via_users_server = None\<rparr>) (demo_membership c)),
      de_member_auth := (\<lambda>c. map_option (\<lambda>m. \<lparr>ma_membership = Some (Some m),
          ma_third_party_invite = None, ma_join_authorised_via_users_server = None\<rparr>) (demo_membership c)),
      de_get_membership := demo_membership,
      de_third_party_invite := (\<lambda>_. Some None),
      de_join_rule := (\<lambda>c. if c = ''public'' then Some JPublic else None),
      de_power_levels := (\<lambda>c. map_of [(''levels'', demo_levels 50 50), (''levels60'', demo_levels 60 50),
          (''ban100'', demo_levels 50 100), (''levels20'', demo_levels 20 50)] c),
      level_to_value := (\<lambda>pl name. if name = ''ban'' \<and> pl_ban pl \<noteq> 50 then Some (pl_ban pl) else None),
      valid_user_id := (\<lambda>u. u \<noteq> [] \<and> hd u = CHR ''@''),
      valid_event_id := (\<lambda>_. True), valid_room_id := (\<lambda>_. True)\<rparr>"

definition demo_event :: "string \<Rightarrow> string \<Rightarrow> event_type \<Rightarrow> string option \<Rightarrow> string \<Rightarrow> pdu" where
  "demo_event i sender kind state_key content =
     \<lparr>pdu_event_id = i, pdu_room_id = Some ''!r:x'', pdu_sender = sender, pdu_origin_server_ts = 0,
      pdu_kind = kind, pdu_content = content, pdu_state_key = state_key, pdu_prev_events = [''$x''],
      pdu_auth_events = [''$create''], pdu_redacts = None, pdu_unsigned = None\<rparr>"

definition demo_create :: pdu where
  "demo_create = (demo_event ''$create'' ''@a:x'' RoomCreate (Some '''') ''create'')\<lparr>pdu_prev_events := []\<rparr>"

definition demo_state :: "type_state_key \<Rightarrow> pdu option" where
  "demo_state k = map_of
     [((RoomPowerLevels, ''''), demo_event ''$pl'' ''@a:x'' RoomPowerLevels (Some '''') ''levels''),
      ((RoomJoinRules, ''''), demo_event ''$jr'' ''@a:x'' RoomJoinRules (Some '''') ''public''),
      ((RoomMember, ''@a:x''), demo_event ''$a'' ''@a:x'' RoomMember (Some ''@a:x'') ''join''),
      ((RoomMember, ''@b:x''), demo_event ''$b'' ''@b:x'' RoomMember (Some ''@b:x'') ''join''),
      ((RoomMember, ''@c:x''), demo_event ''$c'' ''@a:x'' RoomMember (Some ''@c:x'') ''ban'')] k"

lemmas demo_defs = demo_rules_def demo_levels_def demo_membership_def demo_decoders_def demo_event_def
  demo_create_def demo_state_def no_decoders_def no_power_levels_def

lemmas auth_check_defs = auth_check_def auth_check_create_def auth_check_in_room_def auth_check_member_def
  auth_check_sender_def auth_check_sent_def auth_check_power_levels_def auth_check_redaction_def
  sender_power_level_of_def room_creator_def power_levels_of_event_def additional_creators_of_def
  room_id_or_hash_def can_send_event_def get_send_level_def get_user_power_level_def

lemmas membership_defs = valid_membership_change_def membership_change_of_def membership_of_event_def
  join_auth_is_valid_def change_to_join_def change_to_invite_def change_to_leave_def change_to_ban_def
  change_to_knock_def

definition demo_message :: pdu where
  "demo_message = demo_event ''$m'' ''@b:x'' (OtherType ''m.room.message'') None ''hello''"

lemma demo_message_accepted:
  "auth_check demo_decoders demo_rules demo_message None demo_state demo_create = Inr True"
  by (simp add: auth_check_defs demo_defs demo_message_def Let_def)


section \<open>Power levels cannot be raised past the sender's\<close>

lemma check_power_levels_accepts:
  assumes "check_power_levels de rules ev (Some prev) p creators = Some True"
  obtains old new where "deserialize_power_levels de (pdu_content prev) rules = Some old"
    "deserialize_power_levels de (pdu_content ev) rules = Some new"
    "list_all (user_level_change_ok (pdu_sender ev) p creators old new)
       (remdups (map fst (pl_users old) @ map fst (pl_users new)))"
    "list_all (event_level_change_ok p old new) (remdups (map fst (pl_events old) @ map fst (pl_events new)))"
    "limit_notifications_power_levels (authorization rules) \<longrightarrow>
       pl_notifications_room old = pl_notifications_room new \<or>
       (PL_Int (pl_notifications_room old) \<le> p \<and> PL_Int (pl_notifications_room new) \<le> p)"
    "list_all (\<lambda>n. case get_deserialize_levels de old new n of None \<Rightarrow> True
        | Some (a, b) \<Rightarrow> \<not> (p < PL_Int a \<or> p < PL_Int b)) level_names"
  using assms unfolding check_power_levels_def
  by (auto simp: not_less split: if_splits option.splits)

lemma user_level_change_okD:
  assumes "user_level_change_ok sender p creators old new u"
  shows "map_of (pl_users new) u \<noteq> None \<Longrightarrow> u \<notin> set creators"
    and "map_of (pl_users new) u \<noteq> map_of (pl_users old) u \<Longrightarrow>
         (case map_of (pl_users old) u of None \<Rightarrow> True
          | Some l \<Rightarrow> if u = sender then PL_Int l \<le> p else PL_Int l < p) \<and>
         (case map_of (pl_users new) u of None \<Rightarrow> True | Some l \<Rightarrow> PL_Int l \<le> p)"
  using assms by (auto simp: user_level_change_ok_def Let_def not_less order_le_less split: if_splits option.splits)

lemma event_level_change_okD:
  assumes "event_level_change_ok p old new t" "map_of (pl_events new) t \<noteq> map_of (pl_events old) t"
  shows "(case map_of (pl_events old) t of None \<Rightarrow> True | Some l \<Rightarrow> PL_Int l \<le> p) \<and>
         (case map_of (pl_events new) t of None \<Rightarrow> True | Some l \<Rightarrow> PL_Int l \<le> p)"
  using assms by (auto simp: event_level_change_ok_def Let_def not_less split: if_splits option.splits)

lemma list_all_changed_keys:
  assumes "list_all P (remdups (map fst old @ map fst new))" "map_of new k \<noteq> map_of old k"
  shows "P k"
proof -
  have "k \<in> fst ` set old \<or> k \<in> fst ` set new" using assms(2) by (metis map_of_eq_None_iff)
  with assms(1) show ?thesis by (auto simp: list_all_iff)
qed


definition demo_lower_b :: pdu where
  "demo_lower_b = demo_event ''$pl2'' ''@a:x'' RoomPowerLevels (Some '''') ''levels20''"

definition demo_pl :: pdu where
  "demo_pl = demo_event ''$pl'' ''@a:x'' RoomPowerLevels (Some '''') ''levels''"


section \<open>The named levels\<close>

lemmas check_power_levels_eval = check_power_levels_def deserialize_power_levels_def
  deserialize_legacy_power_levels_def user_level_change_ok_def event_level_change_ok_def
  level_names_def get_deserialize_levels_def

text \<open>Each of the seven named levels (\<open>ban\<close>, \<open>kick\<close>, \<open>invite\<close>, ...) that
  appears in the JSON form of both the old and the new content is at most the sender's power in
  both, in an accepted power level event.\<close>

lemma check_power_levels_named_levels:
  assumes "check_power_levels de rules ev (Some prev) p creators = Some True"
    and "deserialize_power_levels de (pdu_content prev) rules = Some old"
    and "deserialize_power_levels de (pdu_content ev) rules = Some new"
    and "name \<in> set level_names" "level_to_value de old name = Some a" "level_to_value de new name = Some b"
  shows "PL_Int a \<le> p \<and> PL_Int b \<le> p"
proof -
  from assms(1) have "list_all (\<lambda>n. case get_deserialize_levels de old new n of None \<Rightarrow> True
        | Some (a, b) \<Rightarrow> \<not> (p < PL_Int a \<or> p < PL_Int b)) level_names"
    by (rule check_power_levels_accepts) (use assms(2,3) in auto)
  with assms(4-) show ?thesis by (auto simp: list_all_iff get_deserialize_levels_def not_less)
qed

definition demo_ban100_by :: "string \<Rightarrow> pdu" where
  "demo_ban100_by user = demo_event ''$pl3'' user RoomPowerLevels (Some '''') ''ban100''"

text \<open>The comparison of the named levels goes through their JSON form. With a serializer
  that leaves out a level that has its default value (here \<open>ban\<close> at 50), a user of power 50
  who may send power levels raises the ban level from its default to 100, above their own power,
  and the check accepts; the same level, once it is 100 in both contents, makes the check
  reject an event of that user which does not change it.\<close>

lemma named_level_skipped_at_default:
  "check_power_levels demo_decoders demo_rules (demo_ban100_by ''@b:x'') (Some demo_pl) (PL_Int 50) [] = Some True \<and>
   map_option pl_ban (deserialize_power_levels demo_decoders (pdu_content demo_pl) demo_rules) = Some 50 \<and>
   map_option pl_ban (deserialize_power_levels demo_decoders (pdu_content (demo_ban100_by ''@b:x'')) demo_rules)
     = Some 100 \<and>
   check_power_levels demo_decoders demo_rules (demo_ban100_by ''@b:x'') (Some (demo_ban100_by ''@a:x''))
     (PL_Int 50) [] = Some False"
  by (simp add: check_power_levels_eval demo_ban100_by_def demo_pl_def demo_defs)

section \<open>Membership\<close>

lemma valid_membership_change_accepts:
  assumes "valid_membership_change de rules target tev sender sev ev tpi ple jre u um create = Inr True"
  obtains m mc where
    "membership_change_of de rules target tev sender sev ev ple jre u um create = Inr (m, mc)"
    "membership_rule rules ev tpi create m mc"
  using assms by (auto simp: valid_membership_change_def split: prod.splits)

lemma membership_change_of_fields:
  assumes "membership_change_of de rules target tev sender sev ev ple jre u um create = Inr (m, mc)"
  shows "mc_target_user mc = target" "mc_sender mc = sender"
    "de_get_membership de (pdu_content ev) = Some m"
    "membership_of_event de sev = Inr (mc_sender_membership mc)"
    "membership_of_event de tev = Inr (mc_current_membership mc)"
    "\<exists>cc creator pls. de_create de (pdu_content create) = Some cc \<and>
       room_creator rules create cc = Inr creator \<and> power_levels_of_event de ple = Inr pls \<and>
       mc_creator mc = creator \<and>
       mc_levels mc = (case pls of Some pl \<Rightarrow> pl | None \<Rightarrow> new_power_levels de (authorization rules)) \<and>
       mc_sender_power mc = get_user_power_level rules creator (additional_creators_of cc) pls sender \<and>
       mc_target_power mc = get_user_power_level rules creator (additional_creators_of cc) pls target"
  using assms by (auto simp: membership_change_of_def)

lemma auth_check_member_accepts:
  assumes "auth_check de rules ev tpi fetch_state create = Inr True" "pdu_kind ev = RoomMember"
    "pdu_state_key ev = Some target"
  obtains m mc u um where
    "membership_change_of de rules target (fetch_state (RoomMember, target)) (pdu_sender ev)
       (fetch_state (RoomMember, pdu_sender ev)) ev (fetch_state (RoomPowerLevels, ''''))
       (fetch_state (RoomJoinRules, '''')) u um create = Inr (m, mc)"
    "membership_rule rules ev tpi create m mc"
proof -
  have "auth_check_in_room de rules ev tpi fetch_state create = Inr True"
    using assms(1,2) by (simp add: auth_check_def)
  then have "auth_check_member de rules ev tpi fetch_state create (fetch_state (RoomPowerLevels, ''''))
      (fetch_state (RoomMember, pdu_sender ev)) = Inr True"
    by (rule auth_check_in_room_accepts) (use assms(2) in auto)
  then obtain u um where
    "valid_membership_change de rules target (fetch_state (RoomMember, target)) (pdu_sender ev)
       (fetch_state (RoomMember, pdu_sender ev)) ev tpi (fetch_state (RoomPowerLevels, ''''))
       (fetch_state (RoomJoinRules, '''')) u um create = Inr True"
    using assms(3) by (auto simp: auth_check_member_def Let_def split: if_splits)
  then show ?thesis by (rule valid_membership_change_accepts) (rule that)
qed

lemma only_prev_event_iff:
  "((case ps of [] \<Rightarrow> False | e # _ \<Rightarrow> e = i) \<and> length ps \<le> 1 \<and> b) \<longleftrightarrow> ps = [i] \<and> b"
  by (auto split: list.splits)

lemma change_to_join_iff:
  "change_to_join rules ev create mc \<longleftrightarrow>
     pdu_prev_events ev = [pdu_event_id create] \<and> mc_sender mc = mc_creator mc \<or>
     mc_sender mc = mc_target_user mc \<and> mc_current_membership mc \<noteq> Ban \<and>
     (mc_join_rules mc = JPublic \<or>
      mc_current_membership mc \<in> {Join, Invite} \<and>
        (mc_join_rules mc \<in> {JInvite, JRestricted} \<or>
         mc_join_rules mc = JKnock \<and> knocking (authorization rules) \<or>
         mc_join_rules mc = JKnockRestricted \<and> knock_restricted_join_rule (authorization rules)) \<or>
      mc_join_auth_is_valid mc \<and>
        (mc_join_rules mc = JRestricted \<or>
         mc_join_rules mc = JKnockRestricted \<and> knock_restricted_join_rule (authorization rules)))"
  unfolding change_to_join_def Let_def only_prev_event_iff
  by (cases "mc_join_rules mc") auto

lemma banned_change:
  assumes "membership_rule rules ev tpi create m mc" "mc_current_membership mc = Ban"
    and "mc_sender mc = mc_target_user mc \<longrightarrow> mc_sender_membership mc = Ban"
    and "pdu_prev_events ev \<noteq> [pdu_event_id create]"
  shows "m \<in> {Ban, Leave} \<and> mc_sender_membership mc = Join \<and>
    PL_Int (pl_ban (mc_levels mc)) \<le> mc_sender_power mc \<and>
    (m = Leave \<longrightarrow> PL_Int (pl_kick (mc_levels mc)) \<le> mc_sender_power mc) \<and>
    mc_target_power mc < mc_sender_power mc"
proof (cases m)
  case Join
  have "\<not> change_to_join rules ev create mc" using assms(2,4) by (simp add: change_to_join_iff)
  then show ?thesis using Join assms(1) by simp
next
  case Invite
  then show ?thesis using assms(1,2) by (simp add: change_to_invite_def split: if_splits option.splits)
next
  case Leave
  then have l: "change_to_leave mc" using assms(1) by simp
  then have "mc_sender mc \<noteq> mc_target_user mc" "mc_sender_membership mc = Join"
    using assms(2) by (auto simp: change_to_leave_def split: if_splits)
  with l show ?thesis using assms(2) Leave by (simp add: change_to_leave_def Let_def not_less split: if_splits)
next
  case Ban
  then show ?thesis using assms(1) by (simp add: change_to_ban_def split: if_splits)
next
  case Knock
  then show ?thesis using assms(1,3) by (auto simp: change_to_knock_def split: if_splits)
next
  case (OtherMembership x)
  then show ?thesis using assms(1) by simp
qed


definition demo_unban :: pdu where
  "demo_unban = demo_event ''$u'' ''@a:x'' RoomMember (Some ''@c:x'') ''leave''"



definition demo_rejoin :: pdu where
  "demo_rejoin = demo_event ''$j'' ''@d:x'' RoomMember (Some ''@d:x'') ''join''"


definition demo_forced_join :: pdu where
  "demo_forced_join = (demo_event ''$f'' ''@a:x'' RoomMember (Some ''@victim:y'') ''join'')
     \<lparr>pdu_prev_events := [''$create'']\<rparr>"

text \<open>The exception for the first join looks at the sender only: with the create event as
  its only predecessor, the creator's membership event that joins another user (who has no
  membership, in a room whose join rule is \<open>invite\<close>) is accepted.\<close>

lemma creator_joins_another_user:
  "auth_check demo_decoders demo_rules demo_forced_join None (\<lambda>_. None) demo_create = Inr True \<and>
   pdu_sender demo_forced_join = ''@a:x'' \<and> pdu_state_key demo_forced_join = Some ''@victim:y''"
  by (simp add: auth_check_defs membership_defs demo_defs demo_forced_join_def Let_def)

section \<open>The state an event needs\<close>

lemma distinct_push_unique [simp]: "distinct ks \<Longrightarrow> distinct (push_unique k ks)"
  by (simp add: push_unique_def)

lemma set_push_unique [simp]: "set (push_unique k ks) = insert k (set ks)"
  by (auto simp: push_unique_def)

lemma member_auth_types_set:
  "set (member_auth_types content k ts) =
     (case ma_membership content of
        Some (Some m) \<Rightarrow>
          insert (RoomMember, k)
            (set ts \<union> (if m \<in> {Join, Invite, Knock} then insert (RoomJoinRules, '''')
               (case ma_join_authorised_via_users_server content of
                  Some (Some u) \<Rightarrow> {(RoomMember, u)} | _ \<Rightarrow> {}) else {}))
      | _ \<Rightarrow> set ts)"
  by (auto simp: member_auth_types_def Let_def split: option.splits)

lemma distinct_member_auth_types: "distinct ts \<Longrightarrow> distinct (member_auth_types content k ts)"
  by (auto simp: member_auth_types_def Let_def split: option.splits)



text \<open>Fields of the same content that several structs decode agree.\<close>

definition member_decoders_agree :: "decoders \<Rightarrow> string \<Rightarrow> bool" where
  "member_decoders_agree de content \<longleftrightarrow>
     (case de_member de content of
        None \<Rightarrow> de_member_auth de content = None
      | Some mf \<Rightarrow>
          (case de_member_auth de content of
             None \<Rightarrow> False
           | Some ma \<Rightarrow> ma_membership ma = mf_membership mf \<and>
               ma_join_authorised_via_users_server ma = mf_join_authorised_via_users_server mf) \<and>
          de_get_membership de content = (case mf_membership mf of None \<Rightarrow> None | Some m \<Rightarrow> m))"

lemma res_bind_assoc: "res_bind (res_bind r f) g = res_bind r (\<lambda>a. res_bind (f a) g)"
  by (cases r) auto

lemma join_auth_is_valid_error:
  "(\<exists>e. \<forall>um. join_auth_is_valid de rules c a ple pls u um = Inl e) \<or>
   (\<forall>um. \<exists>b. join_auth_is_valid de rules c a ple pls u um = Inr b)"
proof -
  have "(\<exists>e. r = Inl e) \<or> (\<exists>v. r = Inr v)" for r :: "state_res_error + int" by (cases r) auto
  from this [of "deserialize_power_levels_content_invite de (pdu_content (the ple)) rules"]
  show ?thesis by (cases u; cases ple) (auto simp: join_auth_is_valid_def)
qed

text \<open>Beyond \<open>join\<close>, \<open>invite\<close> and \<open>knock\<close> the rules look neither at the join rules nor
  at the user who authorised a join.\<close>

lemma valid_membership_change_cong:
  assumes "de_get_membership de (pdu_content ev) = Some m" "m \<notin> {Join, Invite, Knock}"
    and "\<forall>j \<in> {jre, jre'}. case j of None \<Rightarrow> True | Some e \<Rightarrow> de_join_rule de (pdu_content e) \<noteq> None"
  shows "valid_membership_change de rules target tev sender sev ev tpi ple jre u um create =
         valid_membership_change de rules target tev sender sev ev tpi ple jre' u um' create"
proof -
  have jr: "\<exists>j. (case x of Some jr \<Rightarrow> ok_or SerdeJson (de_join_rule de (pdu_content jr)) | None \<Rightarrow> Inr JInvite) = Inr j"
    if "x \<in> {jre, jre'}" for x
    using assms(3) that by (cases x) auto
  obtain j j' where j:
    "(case jre of Some jr \<Rightarrow> ok_or SerdeJson (de_join_rule de (pdu_content jr)) | None \<Rightarrow> Inr JInvite) = Inr j"
    "(case jre' of Some jr \<Rightarrow> ok_or SerdeJson (de_join_rule de (pdu_content jr)) | None \<Rightarrow> Inr JInvite) = Inr j'"
    using jr by blast
  have rule: "membership_rule rules ev tpi create m
      \<lparr>mc_target_user = a, mc_sender = b, mc_creator = c, mc_sender_membership = d, mc_current_membership = e,
       mc_sender_power = f, mc_target_power = g, mc_levels = h, mc_join_rules = jj, mc_join_auth_is_valid = v,
       mc_third_party_invite = t\<rparr> =
    membership_rule rules ev tpi create m
      \<lparr>mc_target_user = a, mc_sender = b, mc_creator = c, mc_sender_membership = d, mc_current_membership = e,
       mc_sender_power = f, mc_target_power = g, mc_levels = h, mc_join_rules = jj', mc_join_auth_is_valid = v',
       mc_third_party_invite = t\<rparr>" for a b c d e f g h jj jj' v v' t
    using assms(2) by (cases m) (auto simp: change_to_leave_def change_to_ban_def)
show ?thesis
    unfolding valid_membership_change_def membership_change_of_def res_bind_assoc j res_bind.simps
  proof ((rule res_bind_cong [OF refl])+, goal_cases)
    case (1 cc creator tm tp sm cm pls)
    then have "tm = m" using assms(1) by simp
    with join_auth_is_valid_error [of de rules creator "additional_creators_of cc" ple pls u]
    show ?case
    proof (elim disjE exE)
      fix e assume "\<forall>um. join_auth_is_valid de rules creator (additional_creators_of cc) ple pls u um = Inl e"
      then show ?case by simp
    next
      assume v: "\<forall>um. \<exists>b. join_auth_is_valid de rules creator (additional_creators_of cc) ple pls u um = Inr b"
      obtain b b' where "join_auth_is_valid de rules creator (additional_creators_of cc) ple pls u um = Inr b"
        "join_auth_is_valid de rules creator (additional_creators_of cc) ple pls u um' = Inr b'"
        using v by blast
      then show ?case using \<open>tm = m\<close> by (simp, intro rule)
    qed
  qed
qed

lemma auth_check_member_reads:
  assumes types: "auth_types_for_event de RoomMember (pdu_sender ev) (pdu_state_key ev) (pdu_content ev) rules = Inr ts"
    and st: "\<And>k. k \<in> set ts \<Longrightarrow> st k = st' k"
    and agree: "member_decoders_agree de (pdu_content ev)"
    and jr: "\<And>x e. x \<in> {st, st'} \<Longrightarrow> x (RoomJoinRules, '''') = Some e \<Longrightarrow> de_join_rule de (pdu_content e) \<noteq> None"
  shows "auth_check_member de rules ev tpi st create a b = auth_check_member de rules ev tpi st' create a b"
proof (cases "\<exists>k mf m. pdu_state_key ev = Some k \<and> de_member de (pdu_content ev) = Some mf \<and> mf_membership mf = Some (Some m)")
  case True
  then obtain k mf m where k: "pdu_state_key ev = Some k" "de_member de (pdu_content ev) = Some mf"
    "mf_membership mf = Some (Some m)" by blast
  then obtain ma where ma: "de_member_auth de (pdu_content ev) = Some ma" "ma_membership ma = Some (Some m)"
    "ma_join_authorised_via_users_server ma = mf_join_authorised_via_users_server mf"
    and m: "de_get_membership de (pdu_content ev) = Some m"
    using agree by (auto simp: member_decoders_agree_def split: option.splits)
  have ts: "(RoomMember, k) \<in> set ts"
    "m \<in> {Join, Invite, Knock} \<Longrightarrow> (RoomJoinRules, '''') \<in> set ts"
    "m \<in> {Join, Invite, Knock} \<Longrightarrow> mf_join_authorised_via_users_server mf = Some (Some u) \<Longrightarrow>
       (RoomMember, u) \<in> set ts" for u
    using types k ma
    by (auto simp: auth_types_for_event_def Let_def member_auth_types_set split: if_splits option.splits)
  show ?thesis
  proof (cases "m \<in> {Join, Invite, Knock}")
    case True
    then show ?thesis
      using k st [OF ts(1)] st [OF ts(2) [OF True]] st [OF ts(3) [OF True]]
      by (auto simp: auth_check_member_def Let_def split: option.split)
  next
    case False
    have j: "\<forall>j \<in> {st (RoomJoinRules, ''''), st' (RoomJoinRules, '''')}.
        case j of None \<Rightarrow> True | Some e \<Rightarrow> de_join_rule de (pdu_content e) \<noteq> None"
      using jr [of st] jr [of st'] by (auto split: option.split)
    show ?thesis
      using k st [OF ts(1)] valid_membership_change_cong [OF m False j]
      by (simp add: auth_check_member_def Let_def)
  qed
next
  case False
  then show ?thesis
    by (cases "pdu_state_key ev"; cases "de_member de (pdu_content ev)")
      (auto simp: auth_check_member_def split: option.splits)
qed

text \<open>C11: the check reads no more of the room's state than \<open>auth_types_for_event\<close> names. For
  an event other than a create event, two room states that agree on those keys give the same
  verdict, error or panic, when the member event decoders agree on the content and the join rules,
  if any, decode.\<close>

theorem auth_check_reads_auth_types:
  assumes "auth_types_for_event de (pdu_kind ev) (pdu_sender ev) (pdu_state_key ev) (pdu_content ev) rules = Inr ts"
    and "\<forall>k \<in> set ts. st k = st' k"
    and "member_decoders_agree de (pdu_content ev)"
    and "\<forall>x \<in> {st, st'}. case x (RoomJoinRules, '''') of None \<Rightarrow> True | Some e \<Rightarrow> de_join_rule de (pdu_content e) \<noteq> None"
  shows "auth_check de rules ev tpi st create = auth_check de rules ev tpi st' create"
proof (cases "pdu_kind ev = RoomCreate")
  case True
  then show ?thesis by (simp add: auth_check_def)
next
  case False
  have keys: "(RoomPowerLevels, '''') \<in> set ts" "(RoomMember, pdu_sender ev) \<in> set ts"
    using assms(1) False
    by (auto simp: auth_types_for_event_def Let_def member_auth_types_set split: if_splits option.splits)
  have st: "st (RoomPowerLevels, '''') = st' (RoomPowerLevels, '''')"
    "st (RoomMember, pdu_sender ev) = st' (RoomMember, pdu_sender ev)"
    using assms(2) keys by auto
  have jr: "de_join_rule de (pdu_content e) \<noteq> None"
    if "x \<in> {st, st'}" "x (RoomJoinRules, '''') = Some e" for x e
    using bspec [OF assms(4) that(1)] that(2) by simp
  have "auth_check_member de rules ev tpi st create a b = auth_check_member de rules ev tpi st' create a b"
    if kind: "pdu_kind ev = RoomMember" for a b
  proof (rule auth_check_member_reads [OF _ _ assms(3)])
    show "auth_types_for_event de RoomMember (pdu_sender ev) (pdu_state_key ev) (pdu_content ev) rules = Inr ts"
      using assms(1) kind by simp
  qed (use assms(2) jr in blast)+
  then show ?thesis
    using False by (simp add: auth_check_def auth_check_in_room_def Let_def st cong: if_cong)
qed

theorem auth_check_reads_auth_types_witness:
  "auth_check demo_decoders demo_rules demo_message None demo_state demo_create =
   auth_check demo_decoders demo_rules demo_message None (demo_state((RoomMember, ''@c:x'') := None)) demo_create"
proof (rule auth_check_reads_auth_types)
  show "auth_types_for_event demo_decoders (pdu_kind demo_message) (pdu_sender demo_message)
      (pdu_state_key demo_message) (pdu_content demo_message) demo_rules =
    Inr [(RoomPowerLevels, ''''), (RoomMember, ''@b:x''), (RoomCreate, '''')]"
    by (simp add: auth_types_for_event_def demo_message_def demo_event_def demo_rules_def)
  show "member_decoders_agree demo_decoders (pdu_content demo_message)"
    by (simp add: member_decoders_agree_def demo_message_def demo_defs)
qed (simp_all add: demo_defs)

end
