(* ===== verification/Topo_Sort.thy ===== *)
theory Topo_Sort
  imports Matrix_Types
begin

text \<open>
  \<open>lexicographical_topological_sort\<close> of \<open>src/core/matrix/state_res/mod.rs\<close>: Kahn's
  algorithm on the graph that maps an event to the events it refers to, the next event being
  the one with the greatest power, then the least timestamp, then the least id among those
  whose references are all sorted. A \<open>HashMap\<close> or \<open>HashSet\<close> is a list in its iteration
  order. The loop ends when the heap is empty; its result is \<^const>\<open>None\<close> if it never does,
  and the lemmas show that it always does. The specification is \<open>greedy\<close>: it speaks of the
  graph as a set of nodes with sets of references and names the next node, so that the order
  of the tables cannot matter.
\<close>

section \<open>The algorithm\<close>

record 'id tie_breaker =
  tb_power_level :: int
  tb_origin_server_ts :: nat
  tb_event_id :: 'id

text \<open>\<open>Ord for TieBreaker\<close>: the power levels are compared the other way round.\<close>

definition tie_key :: "'id tie_breaker \<Rightarrow> int \<times> nat \<times> 'id" where
  "tie_key t = (- tb_power_level t, tb_origin_server_ts t, tb_event_id t)"

text \<open>\<open>BinaryHeap<Reverse<TieBreaker>>\<close> as the list of its elements in the order they are popped.\<close>

definition heap_push :: "'id :: linorder tie_breaker \<Rightarrow> 'id tie_breaker list \<Rightarrow> 'id tie_breaker list" where
  "heap_push t heap = insort_key tie_key t heap"

definition heap_from :: "'id :: linorder tie_breaker list \<Rightarrow> 'id tie_breaker list" where
  "heap_from ts = sort_key tie_key ts"

type_synonym 'id graph = "('id \<times> 'id list) list"

text \<open>\<open>entry(k).or_default()\<close> and \<open>entry(k).or_default().insert(v)\<close>.\<close>

definition entry_default :: "'id graph \<Rightarrow> 'id \<Rightarrow> 'id graph" where
  "entry_default m k = (case map_of m k of None \<Rightarrow> al_insert k [] m | Some _ \<Rightarrow> m)"

definition entry_insert :: "'id graph \<Rightarrow> 'id \<Rightarrow> 'id \<Rightarrow> 'id graph" where
  "entry_insert m k v =
     (case map_of m k of
        None \<Rightarrow> al_insert k [v] m
      | Some vs \<Rightarrow> if v \<in> set vs then m else al_insert k (vs @ [v]) m)"

definition add_reverse :: "'id graph \<Rightarrow> 'id \<times> 'id list \<Rightarrow> 'id graph" where
  "add_reverse r ne =
     (case ne of (node, edges) \<Rightarrow> foldl (\<lambda>r edge. entry_insert r edge node) (entry_default r node) edges)"

definition reverse_graph :: "'id graph \<Rightarrow> 'id graph" where
  "reverse_graph g = foldl add_reverse [] g"

type_synonym 'id key_fn = "'id \<Rightarrow> state_res_error + int \<times> nat"

definition tie_of :: "'id key_fn \<Rightarrow> 'id \<Rightarrow> state_res_error + 'id tie_breaker" where
  "tie_of key_fn node =
     res_bind (key_fn node) (\<lambda>(power_level, origin_server_ts).
       Inr \<lparr>tb_power_level = power_level, tb_origin_server_ts = origin_server_ts, tb_event_id = node\<rparr>)"

fun zero_outdegree :: "'id key_fn \<Rightarrow> 'id graph \<Rightarrow> state_res_error + 'id tie_breaker list" where
  "zero_outdegree key_fn [] = Inr []"
| "zero_outdegree key_fn ((node, edges) # g) =
     (if edges = [] then
        res_bind (tie_of key_fn node) (\<lambda>t. res_bind (zero_outdegree key_fn g) (\<lambda>ts. Inr (t # ts)))
      else zero_outdegree key_fn g)"

text \<open>The inner loop: the node is removed from the references of each of its parents.\<close>

fun clear_parents ::
    "'id :: linorder key_fn \<Rightarrow> 'id \<Rightarrow> 'id list \<Rightarrow> 'id graph \<times> 'id tie_breaker list \<Rightarrow>
     state_res_error + 'id graph \<times> 'id tie_breaker list" where
  "clear_parents key_fn node [] (outdegree_map, heap) = Inr (outdegree_map, heap)"
| "clear_parents key_fn node (parent # parents) (outdegree_map, heap) =
     (case map_of outdegree_map parent of
        None \<Rightarrow> Inl Panicked
      | Some edges \<Rightarrow>
          (let out = filter (\<lambda>e. e \<noteq> node) edges; outdegree_map = al_insert parent out outdegree_map in
           if out = [] then
             res_bind (tie_of key_fn parent) (\<lambda>t.
               clear_parents key_fn node parents (outdegree_map, heap_push t heap))
           else clear_parents key_fn node parents (outdegree_map, heap)))"

partial_function (option) topo_loop ::
    "'id :: linorder key_fn \<Rightarrow> 'id graph \<Rightarrow> 'id graph \<Rightarrow> 'id tie_breaker list \<Rightarrow> 'id list \<Rightarrow>
     (state_res_error + 'id list) option" where
  "topo_loop key_fn rg outdegree_map heap out_ids =
     (case heap of
        [] \<Rightarrow> Some (Inr out_ids)
      | item # heap \<Rightarrow>
          (case map_of rg (tb_event_id item) of
             None \<Rightarrow> Some (Inl Panicked)
           | Some parents \<Rightarrow>
               (case clear_parents key_fn (tb_event_id item) parents (outdegree_map, heap) of
                  Inl e \<Rightarrow> Some (Inl e)
                | Inr (outdegree_map, heap) \<Rightarrow>
                    topo_loop key_fn rg outdegree_map heap (out_ids @ [tb_event_id item]))))"

declare topo_loop.simps [code]

definition lexicographical_topological_sort ::
    "'id :: linorder graph \<Rightarrow> 'id key_fn \<Rightarrow> (state_res_error + 'id list) option" where
  "lexicographical_topological_sort g key_fn =
     (case zero_outdegree key_fn g of
        Inl e \<Rightarrow> Some (Inl e)
      | Inr ts \<Rightarrow> topo_loop key_fn (reverse_graph g) g (heap_from ts) [])"

section \<open>Specification\<close>

definition nodes :: "'id graph \<Rightarrow> 'id set" where
  "nodes g = fst ` set g"

definition refs :: "'id graph \<Rightarrow> 'id \<Rightarrow> 'id set" where
  "refs g n = (case map_of g n of None \<Rightarrow> {} | Some es \<Rightarrow> set es)"

text \<open>The nodes not yet done whose references are all done.\<close>

definition ready :: "'id set \<Rightarrow> ('id \<Rightarrow> 'id set) \<Rightarrow> 'id set \<Rightarrow> 'id set" where
  "ready V E D = {n \<in> V. n \<notin> D \<and> E n \<subseteq> D}"

inductive greedy ::
    "'id set \<Rightarrow> ('id \<Rightarrow> 'id set) \<Rightarrow> ('id \<Rightarrow> 'k :: linorder) \<Rightarrow> 'id set \<Rightarrow> 'id list \<Rightarrow> bool"
  for V E key where
  greedy_end: "ready V E D = {} \<Longrightarrow> greedy V E key D []"
| greedy_step: "n \<in> ready V E D \<Longrightarrow> \<forall>m \<in> ready V E D. key n \<le> key m \<Longrightarrow>
    greedy V E key (insert n D) ns \<Longrightarrow> greedy V E key D (n # ns)"

inductive_cases greedy_NilE: "greedy V E key D []"
inductive_cases greedy_ConsE: "greedy V E key D (n # ns)"

text \<open>The choice is forced when different nodes have different keys.\<close>

lemma greedy_unique:
  assumes "greedy V E key D xs" "greedy V E key D ys" "inj key"
  shows "xs = ys"
  using assms(1,2)
proof (induction arbitrary: ys)
  case (greedy_end D)
  from greedy_end(2) show ?case using greedy_end(1) by cases auto
next
  case (greedy_step n D ns)
  from greedy_step.prems show ?case
  proof cases
    case (greedy_step m ms)
    then have "key n = key m" using greedy_step.hyps(1,2) greedy_step.prems \<open>n \<in> ready V E D\<close>
      \<open>\<forall>m \<in> ready V E D. key n \<le> key m\<close> by (meson order_antisym)
    then have "n = m" using assms(3) by (simp add: inj_eq)
    then show ?thesis using greedy_step greedy_step.IH by auto
  qed (use greedy_step.hyps in auto)
qed

section \<open>What the specification implies\<close>

lemma greedy_sound:
  "greedy V E key D xs \<Longrightarrow>
   distinct xs \<and> set xs \<subseteq> V - D \<and> (\<forall>i < length xs. E (xs ! i) \<subseteq> D \<union> set (take i xs))"
proof (induction rule: greedy.induct)
  case (greedy_step n D ns)
  have "E ((n # ns) ! i) \<subseteq> D \<union> set (take i (n # ns))" if "i < length (n # ns)" for i
  proof (cases i)
    case 0
    then show ?thesis using greedy_step.hyps(1) by (auto simp: ready_def)
  next
    case (Suc j)
    then have "E (ns ! j) \<subseteq> insert n D \<union> set (take j ns)" using that greedy_step.IH by simp
    with Suc show ?thesis by auto
  qed
  moreover have "distinct (n # ns)" "set (n # ns) \<subseteq> V - D"
    using greedy_step.IH greedy_step.hyps(1) by (auto simp: ready_def)
  ultimately show ?case by blast
qed simp

lemma greedy_complete:
  assumes "greedy V E key D xs" "wf {(m, n). n \<in> V \<and> m \<in> E n}" "\<forall>n \<in> V. E n \<subseteq> V"
  shows "V \<subseteq> D \<union> set xs"
  using assms(1)
proof (induction rule: greedy.induct)
  case (greedy_end D)
  show ?case
  proof (rule ccontr)
    assume "\<not> V \<subseteq> D \<union> set []"
    then obtain x where "x \<in> V - D" by auto
    then obtain n where n: "n \<in> V - D" "\<And>m. (m, n) \<in> {(m, n). n \<in> V \<and> m \<in> E n} \<Longrightarrow> m \<notin> V - D"
      using assms(2) by (metis (no_types, lifting) wf_eq_minimal)
    then have "E n \<subseteq> D" using assms(3) by auto
    then have "n \<in> ready V E D" using n(1) by (simp add: ready_def)
    then show False using greedy_end by simp
  qed
qed auto

section \<open>The reverse graph\<close>

definition parents_of :: "'id graph \<Rightarrow> 'id \<Rightarrow> 'id set" where
  "parents_of g x = {n. \<exists>es. (n, es) \<in> set g \<and> x \<in> set es}"

definition sets_distinct :: "'id graph \<Rightarrow> bool" where
  "sets_distinct r \<longleftrightarrow> (\<forall>x. case map_of r x of None \<Rightarrow> True | Some ps \<Rightarrow> distinct ps)"

lemma refs_entry_default [simp]: "refs (entry_default r k) = refs r"
  by (auto simp: refs_def entry_default_def fun_eq_iff split: option.splits)

lemma dom_entry_default [simp]: "dom (map_of (entry_default r k)) = insert k (dom (map_of r))"
  by (auto simp: entry_default_def split: option.splits)

lemma refs_entry_insert [simp]: "refs (entry_insert r k v) = (refs r)(k := insert v (refs r k))"
  by (auto simp: refs_def entry_insert_def fun_eq_iff split: option.splits)

lemma dom_entry_insert [simp]: "dom (map_of (entry_insert r k v)) = insert k (dom (map_of r))"
  by (auto simp: entry_insert_def split: option.splits)

lemma sets_distinct_al_insert: "sets_distinct r \<Longrightarrow> distinct ps \<Longrightarrow> sets_distinct (al_insert k ps r)"
  by (simp add: sets_distinct_def)

lemma sets_distinct_entries [simp]:
  assumes "sets_distinct r"
  shows "sets_distinct (entry_default r k)" "sets_distinct (entry_insert r k v)"
proof -
  show "sets_distinct (entry_default r k)"
    using assms by (cases "map_of r k") (simp_all add: entry_default_def sets_distinct_al_insert)
  show "sets_distinct (entry_insert r k v)"
  proof (cases "map_of r k")
    case None
    then show ?thesis using assms by (simp add: entry_insert_def sets_distinct_al_insert)
  next
    case (Some vs)
    then have "distinct vs" using assms unfolding sets_distinct_def by (metis option.case(2))
    then show ?thesis using Some assms by (simp add: entry_insert_def sets_distinct_al_insert)
  qed
qed

lemma fold_entry_insert:
  "refs (foldl (\<lambda>r e. entry_insert r e n) r es) x = (if x \<in> set es then insert n (refs r x) else refs r x)"
  "dom (map_of (foldl (\<lambda>r e. entry_insert r e n) r es)) = set es \<union> dom (map_of r)"
  "sets_distinct r \<Longrightarrow> sets_distinct (foldl (\<lambda>r e. entry_insert r e n) r es)"
  by (induction es arbitrary: r) auto

lemma reverse_graph_spec:
  "refs (reverse_graph g) x = parents_of g x \<and> nodes g \<subseteq> dom (map_of (reverse_graph g)) \<and>
   sets_distinct (reverse_graph g)"
proof (induction g arbitrary: x rule: rev_induct)
  case Nil
  show ?case by (simp add: reverse_graph_def refs_def parents_of_def nodes_def sets_distinct_def)
next
  case (snoc p g)
  obtain n es where p: "p = (n, es)" by (cases p)
  have r: "reverse_graph (g @ [p]) =
      foldl (\<lambda>r e. entry_insert r e n) (entry_default (reverse_graph g) n) es"
    by (simp add: reverse_graph_def add_reverse_def p)
  show ?case
    unfolding r fold_entry_insert using snoc
    by (auto simp: p parents_of_def nodes_def intro!: fold_entry_insert(3))
qed

lemma reverse_graph_lookup:
  assumes "x \<in> nodes g"
  obtains ps where "map_of (reverse_graph g) x = Some ps" "distinct ps" "set ps = parents_of g x"
proof -
  from assms reverse_graph_spec [of g x] obtain ps where ps: "map_of (reverse_graph g) x = Some ps"
    by blast
  have "distinct ps" using ps reverse_graph_spec [of g x] unfolding sets_distinct_def by (metis option.case(2))
  moreover have "set ps = parents_of g x"
    using ps reverse_graph_spec [of g x] by (simp add: refs_def)
  ultimately show ?thesis using that ps by blast
qed

lemma refs_entry: "distinct (map fst g) \<Longrightarrow> (n, es) \<in> set g \<Longrightarrow> refs g n = set es"
  by (simp add: refs_def)

lemma refs_parents:
  assumes "distinct (map fst g)"
  shows "n \<in> parents_of g x \<longleftrightarrow> n \<in> nodes g \<and> x \<in> refs g n"
proof
  assume "n \<in> parents_of g x"
  then obtain es where "(n, es) \<in> set g" "x \<in> set es" by (auto simp: parents_of_def)
  then show "n \<in> nodes g \<and> x \<in> refs g n" using refs_entry [OF assms] by (force simp: nodes_def)
next
  assume n: "n \<in> nodes g \<and> x \<in> refs g n"
  then obtain es where "(n, es) \<in> set g" by (auto simp: nodes_def)
  then show "n \<in> parents_of g x" using n refs_entry [OF assms] by (auto simp: parents_of_def)
qed

section \<open>The loop follows the specification\<close>

definition tie :: "('id \<Rightarrow> int \<times> nat) \<Rightarrow> 'id \<Rightarrow> 'id tie_breaker" where
  "tie k n = \<lparr>tb_power_level = fst (k n), tb_origin_server_ts = snd (k n), tb_event_id = n\<rparr>"

abbreviation order_key :: "('id :: linorder \<Rightarrow> int \<times> nat) \<Rightarrow> 'id \<Rightarrow> int \<times> nat \<times> 'id" where
  "order_key k n \<equiv> tie_key (tie k n)"

lemma tie_simps [simp]: "tb_event_id (tie k n) = n" "tie k n = tie k m \<longleftrightarrow> n = m"
  by (auto simp: tie_def)

lemma inj_order_key: "inj (order_key k)"
  by (auto simp: inj_def tie_key_def tie_def)

lemma tie_of_ok: "key_fn n = Inr (k n) \<Longrightarrow> tie_of key_fn n = Inr (tie k n)"
  by (simp add: tie_of_def tie_def split_beta)

lemma clear_parents_spec:
  assumes "\<And>n. n \<in> V \<Longrightarrow> key_fn n = Inr (k n)" "distinct ps" "set ps \<subseteq> V"
    and "\<And>n. n \<in> V \<Longrightarrow> map_of out n \<noteq> None" "sorted (map tie_key heap)"
  shows "\<exists>out' heap'. clear_parents key_fn x ps (out, heap) = Inr (out', heap') \<and>
           (\<forall>n. map_of out' n = (if n \<in> set ps then map_option (filter (\<lambda>e. e \<noteq> x)) (map_of out n) else map_of out n)) \<and>
           mset heap' = mset heap + mset (map (tie k) (filter (\<lambda>p. set (the (map_of out p)) \<subseteq> {x}) ps)) \<and>
           sorted (map tie_key heap')"
  using assms(2-)
proof (induction ps arbitrary: out heap)
  case (Cons p ps)
  obtain es where es: "map_of out p = Some es" using Cons.prems(2,3) by fastforce
  define out1 where "out1 = al_insert p (filter (\<lambda>e. e \<noteq> x) es) out"
  define b where "b = (set es \<subseteq> {x})"
  define heap1 where "heap1 = (if b then heap_push (tie k p) heap else heap)"
  have b: "filter (\<lambda>e. e \<noteq> x) es = [] \<longleftrightarrow> b" by (auto simp: b_def filter_empty_conv)
  have t: "tie_of key_fn p = Inr (tie k p)" using assms(1) Cons.prems(2) by (simp add: tie_of_ok)
  have step: "clear_parents key_fn x (p # ps) (out, heap) = clear_parents key_fn x ps (out1, heap1)"
    by (cases b) (simp_all add: es Let_def b t heap1_def out1_def)
  have "sorted (map tie_key heap1)" "mset heap1 = mset heap + (if b then {#tie k p#} else {#})"
    using Cons.prems(4) by (simp_all add: heap1_def heap_push_def sorted_insort_key)
  moreover have "map_of out1 n \<noteq> None" if "n \<in> V" for n using Cons.prems(3) [OF that] by (simp add: out1_def)
  ultimately obtain out' heap' where ih: "clear_parents key_fn x ps (out1, heap1) = Inr (out', heap')"
    "\<forall>n. map_of out' n = (if n \<in> set ps then map_option (filter (\<lambda>e. e \<noteq> x)) (map_of out1 n) else map_of out1 n)"
    "mset heap' = mset heap + (if b then {#tie k p#} else {#}) +
       mset (map (tie k) (filter (\<lambda>q. set (the (map_of out1 q)) \<subseteq> {x}) ps))"
    "sorted (map tie_key heap')"
    using Cons.IH [of out1 heap1] Cons.prems(1,2) by auto
  have p: "p \<notin> set ps" using Cons.prems(1) by simp
  have f: "filter (\<lambda>q. set (the (map_of out1 q)) \<subseteq> {x}) ps = filter (\<lambda>q. set (the (map_of out q)) \<subseteq> {x}) ps"
    by (rule filter_cong) (use p in \<open>auto simp: out1_def\<close>)
  have "\<forall>n. map_of out' n = (if n \<in> set (p # ps) then map_option (filter (\<lambda>e. e \<noteq> x)) (map_of out n) else map_of out n)"
    using ih(2) p es by (simp add: out1_def)
  moreover have "mset heap' = mset heap + mset (map (tie k) (filter (\<lambda>q. set (the (map_of out q)) \<subseteq> {x}) (p # ps)))"
    using ih(3) es by (simp add: f b_def)
  ultimately show ?case using ih(1,4) step by metis
qed simp

lemma ready_insert:
  assumes "x \<in> ready V E D" "\<And>n. n \<in> D \<Longrightarrow> E n \<subseteq> D"
  shows "ready V E (insert x D) = ready V E D - {x} \<union> {p \<in> V. x \<in> E p \<and> E p - D \<subseteq> {x}}"
proof -
  have x: "x \<notin> E x" "x \<notin> D" using assms(1) by (auto simp: ready_def)
  then have "p \<notin> D \<and> p \<noteq> x" if "x \<in> E p" for p using that assms(2) by blast
  then show ?thesis by (auto simp: ready_def)
qed

text \<open>The state of the loop after the nodes \<open>D\<close> were sorted.\<close>

definition topo_inv ::
    "'id set \<Rightarrow> ('id \<Rightarrow> 'id set) \<Rightarrow> ('id :: linorder \<Rightarrow> int \<times> nat) \<Rightarrow> 'id set \<Rightarrow> 'id graph \<Rightarrow>
     'id tie_breaker list \<Rightarrow> bool" where
  "topo_inv V E k D out heap \<longleftrightarrow>
     D \<subseteq> V \<and> (\<forall>n \<in> D. E n \<subseteq> D) \<and> (\<forall>n \<in> V. \<exists>es. map_of out n = Some es \<and> set es = E n - D) \<and>
     sorted (map tie_key heap) \<and> mset heap = mset_set (tie k ` ready V E D)"

lemma topo_inv_step:
  assumes inv: "topo_inv V E k D out (item # heap)" and "finite V"
    and key: "\<And>n. n \<in> V \<Longrightarrow> key_fn n = Inr (k n)"
    and ps: "distinct ps" "set ps = {p \<in> V. tb_event_id item \<in> E p}"
  obtains x out' heap' where "item = tie k x" "x \<in> ready V E D"
    "\<forall>m \<in> ready V E D. order_key k x \<le> order_key k m"
    "clear_parents key_fn x ps (out, heap) = Inr (out', heap')"
    "topo_inv V E k (insert x D) out' heap'"
proof -
  have fin: "finite (ready V E D)" using \<open>finite V\<close> by (simp add: ready_def)
  then have heap: "set (item # heap) = tie k ` ready V E D"
    using inv unfolding topo_inv_def by (metis finite_imageI finite_set_mset_mset_set set_mset_mset)
  then obtain x where x: "item = tie k x" "x \<in> ready V E D" by auto
  have least: "\<forall>m \<in> ready V E D. order_key k x \<le> order_key k m"
  proof
    fix m assume "m \<in> ready V E D"
    then have "tie k m \<in> set (item # heap)" using heap by simp
    then show "order_key k x \<le> order_key k m" using inv x by (auto simp: topo_inv_def)
  qed
  have out: "\<exists>es. map_of out n = Some es \<and> set es = E n - D" if "n \<in> V" for n
    using inv that by (simp add: topo_inv_def)
  have psV: "set ps \<subseteq> V" "set ps = {p \<in> V. x \<in> E p}" using ps(2) x by auto
  have s: "sorted (map tie_key heap)" using inv by (simp add: topo_inv_def)
  have dom: "map_of out n \<noteq> None" if "n \<in> V" for n using out [OF that] by auto
  obtain out' heap' where c: "clear_parents key_fn x ps (out, heap) = Inr (out', heap')"
    "\<forall>n. map_of out' n = (if n \<in> set ps then map_option (filter (\<lambda>e. e \<noteq> x)) (map_of out n) else map_of out n)"
    "mset heap' = mset heap + mset (map (tie k) (filter (\<lambda>p. set (the (map_of out p)) \<subseteq> {x}) ps))"
    "sorted (map tie_key heap')"
    using clear_parents_spec [where V = V and key_fn = key_fn and k = k and out = out and x = x,
        OF _ ps(1) psV(1) _ s] key dom by blast
  let ?N = "{p \<in> V. x \<in> E p \<and> E p - D \<subseteq> {x}}"
  have xD: "x \<notin> D" "E x \<subseteq> D" "x \<in> V" using x(2) by (auto simp: ready_def)
  have D: "E n \<subseteq> D" if "n \<in> D" for n using inv that by (simp add: topo_inv_def)
  have "filter (\<lambda>p. set (the (map_of out p)) \<subseteq> {x}) ps = filter (\<lambda>p. E p - D \<subseteq> {x}) ps"
    by (rule filter_cong) (use out psV in force)+
  then have new: "mset (map (tie k) (filter (\<lambda>p. set (the (map_of out p)) \<subseteq> {x}) ps)) = mset_set (tie k ` ?N)"
    using ps(1) psV
    by (subst mset_set_set [symmetric]) (auto simp: distinct_map inj_on_def image_def intro!: arg_cong [of _ _ mset_set])
  have old: "mset heap = mset_set (tie k ` (ready V E D - {x}))"
  proof -
    have "tie k ` ready V E D = insert (tie k x) (tie k ` (ready V E D - {x}))" using x(2) by auto
    moreover have "tie k x \<notin> tie k ` (ready V E D - {x})" by auto
    ultimately have "mset_set (tie k ` ready V E D) = add_mset (tie k x) (mset_set (tie k ` (ready V E D - {x})))"
      using fin by simp
    then show ?thesis using inv x by (simp add: topo_inv_def)
  qed
  have "tie k ` (ready V E D - {x}) \<inter> tie k ` ?N = {}" using xD by (auto simp: ready_def)
  then have "mset heap' = mset_set (tie k ` ready V E (insert x D))"
    unfolding ready_insert [OF x(2) D, simplified] c(3) new old image_Un
    using fin \<open>finite V\<close> by (subst mset_set_Union) auto
  moreover have "\<exists>es. map_of out' n = Some es \<and> set es = E n - insert x D" if "n \<in> V" for n
    using out [OF that] c(2) psV that by auto
  moreover have "insert x D \<subseteq> V" "\<forall>n \<in> insert x D. E n \<subseteq> insert x D"
    using inv xD by (auto simp: topo_inv_def)
  ultimately have "topo_inv V E k (insert x D) out' heap'" using c(4) by (simp add: topo_inv_def)
  with x least c(1) show ?thesis using that by blast
qed

lemma topo_loop_greedy:
  assumes "finite V" "\<And>n. n \<in> V \<Longrightarrow> key_fn n = Inr (k n)"
    and rg: "\<And>x. x \<in> V \<Longrightarrow> \<exists>ps. map_of rg x = Some ps \<and> distinct ps \<and> set ps = {p \<in> V. x \<in> E p}"
    and "topo_inv V E k D out heap"
  shows "\<exists>xs. topo_loop key_fn rg out heap out_ids = Some (Inr (out_ids @ xs)) \<and> greedy V E (order_key k) D xs"
  using assms(4)
proof (induction "card (V - D)" arbitrary: D out heap out_ids rule: less_induct)
  case less
  show ?case
  proof (cases heap)
    case Nil
    then have "tie k ` ready V E D = {}"
      using less.prems \<open>finite V\<close> by (simp add: topo_inv_def ready_def mset_set_empty_iff)
    then show ?thesis using Nil by (auto simp: topo_loop.simps intro: greedy_end)
  next
    case (Cons item rest)
    have "finite (tie k ` ready V E D)" using \<open>finite V\<close> by (simp add: ready_def)
    then have "set heap = tie k ` ready V E D"
      using less.prems unfolding topo_inv_def by (metis finite_set_mset_mset_set set_mset_mset)
    then have "item \<in> tie k ` ready V E D" using Cons by auto
    then have "tb_event_id item \<in> V" by (auto simp: ready_def)
    then obtain ps where ps: "map_of rg (tb_event_id item) = Some ps" "distinct ps"
      "set ps = {p \<in> V. tb_event_id item \<in> E p}" using rg by blast
    obtain x out' heap' where st: "item = tie k x" "x \<in> ready V E D"
      "\<forall>m \<in> ready V E D. order_key k x \<le> order_key k m"
      "clear_parents key_fn x ps (out, rest) = Inr (out', heap')"
      "topo_inv V E k (insert x D) out' heap'"
      using topo_inv_step [OF less.prems [unfolded Cons] \<open>finite V\<close> assms(2) ps(2,3)] by blast
    have "card (V - insert x D) < card (V - D)"
      using st(2) \<open>finite V\<close> by (intro psubset_card_mono) (auto simp: ready_def)
    from less.hyps [OF this st(5), of "out_ids @ [x]"] obtain xs where
      "topo_loop key_fn rg out' heap' (out_ids @ [x]) = Some (Inr ((out_ids @ [x]) @ xs))"
      "greedy V E (order_key k) (insert x D) xs" by blast
    moreover from this have "greedy V E (order_key k) D (x # xs)" using st(2,3) by (intro greedy_step)
    ultimately show ?thesis
      using Cons ps(1) st(1,4) by (subst topo_loop.simps) (auto intro!: exI [of _ "x # xs"])
  qed
qed

lemma zero_outdegree_ok:
  assumes "\<And>n. n \<in> nodes g \<Longrightarrow> key_fn n = Inr (k n)"
  shows "zero_outdegree key_fn g = Inr (map (tie k) (map fst (filter (\<lambda>p. snd p = []) g)))"
  using assms
proof (induction g)
  case (Cons p g)
  obtain n es where p: "p = (n, es)" by (cases p)
  have "zero_outdegree key_fn g = Inr (map (tie k) (map fst (filter (\<lambda>p. snd p = []) g)))"
    using Cons by (simp add: nodes_def)
  moreover have "tie_of key_fn n = Inr (tie k n)" using Cons.prems p by (simp add: nodes_def tie_of_ok)
  ultimately show ?case by (simp add: p)
qed simp

lemma topo_inv_init:
  assumes "distinct (map fst g)"
  shows "topo_inv (nodes g) (refs g) k {} g (heap_from (map (tie k) (map fst (filter (\<lambda>p. snd p = []) g))))"
proof -
  let ?zs = "map fst (filter (\<lambda>p. snd p = []) g)"
  have d: "distinct (map (tie k) ?zs)"
    using assms by (simp add: distinct_map inj_on_def distinct_map_fst_filter)
  have "set ?zs = ready (nodes g) (refs g) {}"
  proof (intro set_eqI iffI)
    fix n assume "n \<in> set ?zs"
    then have "(n, []) \<in> set g" by auto
    then show "n \<in> ready (nodes g) (refs g) {}"
      using refs_entry [OF assms, of n "[]"] by (force simp: ready_def nodes_def)
  next
    fix n assume n: "n \<in> ready (nodes g) (refs g) {}"
    then obtain es where es: "(n, es) \<in> set g" by (auto simp: ready_def nodes_def)
    with n refs_entry [OF assms es] have "es = []" by (simp add: ready_def)
    with es show "n \<in> set ?zs" by force
  qed
  then have m: "mset (map (tie k) ?zs) = mset_set (tie k ` ready (nodes g) (refs g) {})"
    using mset_set_set [OF d] by (simp only: set_map)
  have "map_of g n = Some es \<and> set es = refs g n" if "(n, es) \<in> set g" for n es
    using that assms refs_entry [OF assms that] by simp
  then have "\<forall>n \<in> nodes g. \<exists>es. map_of g n = Some es \<and> set es = refs g n" unfolding nodes_def by force
  with m show ?thesis by (simp add: topo_inv_def heap_from_def)
qed

lemma topo_sort_greedy:
  assumes "distinct (map fst g)" "\<And>n. n \<in> nodes g \<Longrightarrow> key_fn n = Inr (k n)"
  shows "\<exists>xs. lexicographical_topological_sort g key_fn = Some (Inr xs) \<and>
              greedy (nodes g) (refs g) (order_key k) {} xs"
proof -
  have rg: "\<exists>ps. map_of (reverse_graph g) x = Some ps \<and> distinct ps \<and> set ps = {p \<in> nodes g. x \<in> refs g p}"
    if "x \<in> nodes g" for x
    by (rule reverse_graph_lookup [OF that]) (use refs_parents [OF assms(1)] in auto)
  have "finite (nodes g)" by (simp add: nodes_def)
  from topo_loop_greedy [OF this assms(2) rg topo_inv_init [OF assms(1)], where out_ids = "[]"]
  show ?thesis
    by (auto simp: lexicographical_topological_sort_def zero_outdegree_ok [OF assms(2)])
qed

section \<open>Failing keys\<close>

text \<open>The keys that are found; the sort with these alone differs only where a key is missing.\<close>

definition found_keys :: "'id key_fn \<Rightarrow> 'id \<Rightarrow> int \<times> nat" where
  "found_keys key_fn n = (case key_fn n of Inr v \<Rightarrow> v | Inl _ \<Rightarrow> (0, 0))"

definition total_keys :: "'id key_fn \<Rightarrow> 'id key_fn" where
  "total_keys key_fn n = Inr (found_keys key_fn n)"

lemma tie_of_total:
  obtains e where "key_fn n = Inl e" "tie_of key_fn n = Inl e"
  | "tie_of key_fn n = tie_of (total_keys key_fn) n"
  by (cases "key_fn n") (auto simp: tie_of_def total_keys_def found_keys_def)

lemma clear_parents_total:
  "clear_parents key_fn x ps s = clear_parents (total_keys key_fn) x ps s \<or>
   (\<exists>e. \<exists>p \<in> set ps. key_fn p = Inl e \<and> clear_parents key_fn x ps s = Inl e)"
proof (induction ps arbitrary: s)
  case (Cons p ps)
  obtain out heap where s: "s = (out, heap)" by (cases s)
  show ?case
  proof (cases rule: tie_of_total [of key_fn p])
    case (1 e)
    then show ?thesis using Cons.IH by (auto simp: s Let_def split: option.split)
  next
    case 2
    then show ?thesis using Cons.IH
      by (cases "tie_of (total_keys key_fn) p") (auto simp: s Let_def split: option.split)
  qed
next
  case Nil
  show ?case by (cases s) simp
qed

lemma topo_loop_total:
  assumes "finite V"
    and rg: "\<And>x. x \<in> V \<Longrightarrow> \<exists>ps. map_of rg x = Some ps \<and> distinct ps \<and> set ps = {p \<in> V. x \<in> E p}"
    and "topo_inv V E (found_keys key_fn) D out heap"
  shows "topo_loop key_fn rg out heap out_ids = topo_loop (total_keys key_fn) rg out heap out_ids \<or>
         (\<exists>e. \<exists>n \<in> V. key_fn n = Inl e \<and> topo_loop key_fn rg out heap out_ids = Some (Inl e))"
  using assms(3)
proof (induction "card (V - D)" arbitrary: D out heap out_ids rule: less_induct)
  case less
  have key: "total_keys key_fn n = Inr (found_keys key_fn n)" for n by (simp add: total_keys_def)
  show ?case
  proof (cases heap)
    case Nil
    then show ?thesis by (simp add: topo_loop.simps)
  next
    case (Cons item rest)
    have "finite (tie (found_keys key_fn) ` ready V E D)" using \<open>finite V\<close> by (simp add: ready_def)
    then have "item \<in> tie (found_keys key_fn) ` ready V E D"
      using less.prems Cons unfolding topo_inv_def
      by (metis finite_set_mset_mset_set set_mset_mset list.set_intros(1))
    then have "tb_event_id item \<in> V" by (auto simp: ready_def)
    then obtain ps where ps: "map_of rg (tb_event_id item) = Some ps" "distinct ps"
      "set ps = {p \<in> V. tb_event_id item \<in> E p}" using rg by blast
    obtain x out' heap' where st: "item = tie (found_keys key_fn) x" "x \<in> ready V E D"
      "clear_parents (total_keys key_fn) x ps (out, rest) = Inr (out', heap')"
      "topo_inv V E (found_keys key_fn) (insert x D) out' heap'"
      using topo_inv_step [OF less.prems [unfolded Cons] \<open>finite V\<close> key ps(2,3)] by blast
    have less': "card (V - insert x D) < card (V - D)"
      using st(2) \<open>finite V\<close> by (intro psubset_card_mono) (auto simp: ready_def)
    have step: "topo_loop kf rg out heap out_ids =
        (case clear_parents kf x ps (out, rest) of Inl e \<Rightarrow> Some (Inl e)
         | Inr (out, heap) \<Rightarrow> topo_loop kf rg out heap (out_ids @ [x]))" for kf
      using ps(1) Cons st(1) by (subst topo_loop.simps) (simp split: sum.split)
    from clear_parents_total [of key_fn x ps "(out, rest)"] show ?thesis
    proof
      assume c: "clear_parents key_fn x ps (out, rest) = clear_parents (total_keys key_fn) x ps (out, rest)"
      show ?thesis
        unfolding step c st(3) using less.hyps [OF less' st(4), of "out_ids @ [x]"] by simp
    next
      assume "\<exists>e. \<exists>p \<in> set ps. key_fn p = Inl e \<and> clear_parents key_fn x ps (out, rest) = Inl e"
      then show ?thesis unfolding step using ps(3) by auto
    qed
  qed
qed

lemma zero_outdegree_total:
  "zero_outdegree key_fn g = zero_outdegree (total_keys key_fn) g \<or>
   (\<exists>e. \<exists>n \<in> nodes g. key_fn n = Inl e \<and> zero_outdegree key_fn g = Inl e)"
proof (induction g)
  case (Cons p g)
  obtain n es where p: "p = (n, es)" by (cases p)
  show ?case
  proof (cases rule: tie_of_total [of key_fn n])
    case (1 e)
    then show ?thesis using Cons.IH by (auto simp: p nodes_def)
  next
    case 2
    then show ?thesis using Cons.IH
      by (cases "tie_of (total_keys key_fn) n") (auto simp: p nodes_def)
  qed
qed simp

lemma topo_sort_exists:
  assumes "distinct (map fst g)" "\<forall>n \<in> nodes g. key_fn n = Inr (k n)"
    and "\<forall>n \<in> nodes g. refs g n \<subseteq> nodes g" "acyclic {(m, n). n \<in> nodes g \<and> m \<in> refs g n}"
  shows "\<exists>xs. lexicographical_topological_sort g key_fn = Some (Inr xs) \<and> distinct xs \<and> set xs = nodes g \<and>
              (\<forall>i < length xs. refs g (xs ! i) \<subseteq> set (take i xs))"
proof -
  obtain xs where xs: "lexicographical_topological_sort g key_fn = Some (Inr xs)"
    "greedy (nodes g) (refs g) (order_key k) {} xs"
    using topo_sort_greedy [OF assms(1)] assms(2) by blast
  have "{(m, n). n \<in> nodes g \<and> m \<in> refs g n} \<subseteq> nodes g \<times> nodes g" using assms(3) by auto
  then have "finite {(m, n). n \<in> nodes g \<and> m \<in> refs g n}"
    by (rule finite_subset) (simp add: nodes_def)
  then have "wf {(m, n). n \<in> nodes g \<and> m \<in> refs g n}" using assms(4) by (rule finite_acyclic_wf)
  with greedy_complete [OF xs(2)] assms(3) have "nodes g \<subseteq> set xs" by simp
  with greedy_sound [OF xs(2)] xs(1) show ?thesis by auto
qed

lemma topo_sort_total:
  assumes "distinct (map fst g)"
  shows "(\<exists>xs. lexicographical_topological_sort g key_fn = Some (Inr xs) \<and>
              greedy (nodes g) (refs g) (order_key (found_keys key_fn)) {} xs) \<or>
         (\<exists>e. \<exists>n \<in> nodes g. key_fn n = Inl e \<and> lexicographical_topological_sort g key_fn = Some (Inl e))"
proof -
  let ?k = "found_keys key_fn"
  have key: "total_keys key_fn n = Inr (?k n)" for n by (simp add: total_keys_def)
  obtain xs where t: "lexicographical_topological_sort g (total_keys key_fn) = Some (Inr xs)"
    "greedy (nodes g) (refs g) (order_key ?k) {} xs"
    using topo_sort_greedy [OF assms, of "total_keys key_fn" ?k] key by blast
  have rg: "\<exists>ps. map_of (reverse_graph g) x = Some ps \<and> distinct ps \<and> set ps = {p \<in> nodes g. x \<in> refs g p}"
    if "x \<in> nodes g" for x
    by (rule reverse_graph_lookup [OF that]) (use refs_parents [OF assms] in auto)
  have fin: "finite (nodes g)" by (simp add: nodes_def)
  note z = zero_outdegree_ok [of g "total_keys key_fn" ?k, OF key]
  note loop = topo_loop_total [OF fin rg topo_inv_init [OF assms], where out_ids = "[]" and key_fn = key_fn]
  from zero_outdegree_total [of key_fn g] show ?thesis
  proof
    assume "zero_outdegree key_fn g = zero_outdegree (total_keys key_fn) g"
    then show ?thesis
      using loop t unfolding lexicographical_topological_sort_def z by auto
  qed (auto simp: lexicographical_topological_sort_def)
qed

section \<open>Properties\<close>

text \<open>C17: the sort of a closed acyclic graph returns, and its result lists every event of the
  graph exactly once, each after all the events it refers to.\<close>

theorem topo_sort_correct:
  assumes "distinct (map fst g)" "\<forall>n \<in> nodes g. key_fn n = Inr (k n)"
    and "\<forall>n \<in> nodes g. refs g n \<subseteq> nodes g" "acyclic {(m, n). n \<in> nodes g \<and> m \<in> refs g n}"
  shows "\<exists>xs. lexicographical_topological_sort g key_fn = Some (Inr xs) \<and> distinct xs \<and> set xs = nodes g \<and>
              (\<forall>i < length xs. refs g (xs ! i) \<subseteq> set (take i xs))"
  by (rule topo_sort_exists [OF assms])

definition demo_graph :: "string graph" where
  "demo_graph = [(''c'', [''a'', ''b'']), (''a'', []), (''b'', [''a'']), (''d'', [])]"

definition demo_key :: "string key_fn" where
  "demo_key n = Inr (if n = ''d'' then 100 else 0, length n)"

lemma demo_graph_nodes: "nodes demo_graph = {''a'', ''b'', ''c'', ''d''}"
  by (auto simp: nodes_def demo_graph_def)

lemma demo_graph_refs:
  "refs demo_graph n = (if n = ''c'' then {''a'', ''b''} else if n = ''b'' then {''a''} else {})"
  by (simp add: refs_def demo_graph_def)

lemma demo_graph_closed:
  "distinct (map fst demo_graph)" "\<forall>n \<in> nodes demo_graph. refs demo_graph n \<subseteq> nodes demo_graph"
  "acyclic {(m, n). n \<in> nodes demo_graph \<and> m \<in> refs demo_graph n}"
proof -
  show "distinct (map fst demo_graph)" by (simp add: demo_graph_def)
  show "\<forall>n \<in> nodes demo_graph. refs demo_graph n \<subseteq> nodes demo_graph"
    by (simp add: demo_graph_nodes demo_graph_refs)
  have "acyclic ({(m, n). n \<in> nodes demo_graph \<and> m \<in> refs demo_graph n}\<inverse>)"
    by (rule acyclicI_order [where f = id]) (auto simp: demo_graph_refs split: if_splits)
  then show "acyclic {(m, n). n \<in> nodes demo_graph \<and> m \<in> refs demo_graph n}"
    by (simp only: acyclic_converse)
qed

theorem topo_sort_correct_witness:
  "\<exists>xs. lexicographical_topological_sort demo_graph demo_key = Some (Inr xs) \<and>
        set xs = {''a'', ''b'', ''c'', ''d''}"
proof -
  have "\<forall>n \<in> nodes demo_graph. demo_key n = Inr (if n = ''d'' then 100 else 0, length n)"
    by (simp add: demo_key_def)
  from topo_sort_correct [OF demo_graph_closed(1) this demo_graph_closed(2,3)]
  show ?thesis by (auto simp: demo_graph_nodes)
qed

text \<open>C14: the order is the intended one and does not depend on the hash maps. In the result,
  every event was the best of those that could come next (greatest power, then least timestamp,
  then least id, among the events whose references precede it); and a graph that lists the same
  events and references in another order gives the same list.\<close>

theorem topo_sort_order:
  assumes "distinct (map fst g)" "\<forall>n \<in> nodes g. key_fn n = Inr (k n)"
    and "distinct (map fst g')" "nodes g' = nodes g" "\<forall>n. refs g' n = refs g n"
  shows "\<exists>xs. lexicographical_topological_sort g key_fn = Some (Inr xs) \<and>
              lexicographical_topological_sort g' key_fn = Some (Inr xs) \<and>
              greedy (nodes g) (refs g) (\<lambda>n. (- fst (k n), snd (k n), n)) {} xs"
proof -
  have order: "order_key k = (\<lambda>n. (- fst (k n), snd (k n), n))" by (simp add: tie_key_def tie_def)
  obtain xs where xs: "lexicographical_topological_sort g key_fn = Some (Inr xs)"
    "greedy (nodes g) (refs g) (order_key k) {} xs"
    using topo_sort_greedy [OF assms(1)] assms(2) by blast
  have key': "\<And>n. n \<in> nodes g' \<Longrightarrow> key_fn n = Inr (k n)" using assms(2,4) by simp
  obtain ys where ys: "lexicographical_topological_sort g' key_fn = Some (Inr ys)"
    "greedy (nodes g') (refs g') (order_key k) {} ys"
    using topo_sort_greedy [OF assms(3), of key_fn k] key' by blast
  have "refs g' = refs g" using assms(5) by (simp add: fun_eq_iff)
  then have "xs = ys" using greedy_unique [OF xs(2) _ inj_order_key] ys(2) assms(4) by simp
  with xs ys(1) order show ?thesis by metis
qed

theorem topo_sort_order_witness:
  "lexicographical_topological_sort (rev demo_graph) demo_key = lexicographical_topological_sort demo_graph demo_key"
proof -
  have k: "\<forall>n \<in> nodes demo_graph. demo_key n = Inr (if n = ''d'' then 100 else 0, length n)"
    by (simp add: demo_key_def)
  have "distinct (map fst (rev demo_graph))" "nodes (rev demo_graph) = nodes demo_graph"
    "\<forall>n. refs (rev demo_graph) n = refs demo_graph n"
    by (auto simp: nodes_def demo_graph_def refs_def)
  from topo_sort_order [OF demo_graph_closed(1) k this] show ?thesis by auto
qed

text \<open>The sort ends on every graph, also a cyclic one or one that refers to events it does
  not contain, and it neither panics nor fails by itself: an error is the error of the key of some
  event of the graph.\<close>

lemma topo_sort_returns:
  assumes "distinct (map fst g)"
  shows "(\<exists>xs. lexicographical_topological_sort g key_fn = Some (Inr xs)) \<or>
         (\<exists>e. \<exists>n \<in> nodes g. key_fn n = Inl e \<and> lexicographical_topological_sort g key_fn = Some (Inl e))"
  using topo_sort_total [OF assms, of key_fn] by blast

end
