(* ===== verification/State_Sets.thy ===== *)
theory State_Sets
  imports Matrix_Types
begin

text \<open>
  The set operations at the start of state resolution, \<open>separate\<close> and
  \<open>get_auth_chain_diff\<close> of \<open>src/core/matrix/state_res/mod.rs\<close>: both count in how many
  of the given sets an entry occurs. Hash maps are association lists in iteration order; the
  lemmas say that the order has no influence. A \<open>usize\<close> is a \<^typ>\<open>nat\<close>, with the
  saturation of the source at \<open>2 ^ 64 - 1\<close>.
\<close>

section \<open>Counting\<close>

definition saturating_inc :: "nat \<Rightarrow> nat" where
  "saturating_inc x = min (x + 1) u64_max"

text \<open>\<open>entry(v).and_modify(|x| *x += 1).or_insert(1)\<close>\<close>

definition bump :: "'v \<Rightarrow> ('v \<times> nat) list \<Rightarrow> ('v \<times> nat) list" where
  "bump v counts = al_insert v (case map_of counts v of Some x \<Rightarrow> saturating_inc x | None \<Rightarrow> 1) counts"

definition count_occurrence ::
    "('k \<times> ('v \<times> nat) list) list \<Rightarrow> 'k \<times> 'v \<Rightarrow> ('k \<times> ('v \<times> nat) list) list" where
  "count_occurrence occurrences kv =
     (case kv of (k, v) \<Rightarrow>
        al_insert k (bump v (case map_of occurrences k of Some m \<Rightarrow> m | None \<Rightarrow> [])) occurrences)"

definition sort_occurrence ::
    "nat \<Rightarrow> ('k \<times> 'v) list \<times> ('k \<times> 'v list) list \<Rightarrow> 'k \<times> 'v \<times> nat \<Rightarrow> ('k \<times> 'v) list \<times> ('k \<times> 'v list) list" where
  "sort_occurrence state_set_count uc kvn =
     (case (uc, kvn) of ((unconflicted, conflicted), (k, v, occurrence_count)) \<Rightarrow>
        if occurrence_count = state_set_count then (al_insert k v unconflicted, conflicted)
        else (unconflicted,
              al_insert k (case map_of conflicted k of Some vs \<Rightarrow> vs @ [v] | None \<Rightarrow> [v]) conflicted))"

definition flat_occurrences :: "('k \<times> ('v \<times> nat) list) list \<Rightarrow> ('k \<times> 'v \<times> nat) list" where
  "flat_occurrences occurrences = concat (map (\<lambda>(k, m). map (\<lambda>(v, n). (k, v, n)) m) occurrences)"

definition separate :: "('k \<times> 'v) list list \<Rightarrow> ('k \<times> 'v) list \<times> ('k \<times> 'v list) list" where
  "separate state_sets =
     (let state_set_count = foldl (\<lambda>c _. saturating_inc c) 0 state_sets;
          occurrences = foldl count_occurrence [] (concat state_sets)
      in foldl (sort_occurrence state_set_count) ([], []) (flat_occurrences occurrences))"

definition get_auth_chain_diff :: "'v list list \<Rightarrow> 'v list" where
  "get_auth_chain_diff auth_chain_sets =
     (let num_sets = length auth_chain_sets;
          id_counts = foldl (\<lambda>counts i. al_insert i (case map_of counts i of Some x \<Rightarrow> x + 1 | None \<Rightarrow> 1) counts)
                        [] (concat auth_chain_sets)
      in map fst (filter (\<lambda>(i, n). n < num_sets) id_counts))"

section \<open>What the counters hold\<close>

definition lookup2 :: "('k \<times> ('v \<times> 'n) list) list \<Rightarrow> 'k \<Rightarrow> 'v \<Rightarrow> 'n option" where
  "lookup2 occ k v = (case map_of occ k of None \<Rightarrow> None | Some m \<Rightarrow> map_of m v)"

definition occ_wf :: "('k \<times> ('v \<times> 'n) list) list \<Rightarrow> bool" where
  "occ_wf occ \<longleftrightarrow> al_wf occ \<and> list_all (\<lambda>p. al_wf (snd p)) occ"

lemma lookup2_count_occurrence:
  "lookup2 (count_occurrence occ (k, v)) k' v' =
     (if (k', v') = (k, v) then Some (case lookup2 occ k v of None \<Rightarrow> 1 | Some x \<Rightarrow> saturating_inc x)
      else lookup2 occ k' v')"
  by (simp add: lookup2_def count_occurrence_def bump_def split: option.split)

lemma list_all_al_insert: "list_all P m \<Longrightarrow> P (k, v) \<Longrightarrow> list_all P (al_insert k v m)"
  by (induction m rule: al_insert.induct) auto

lemma list_all_map_of: "list_all P m \<Longrightarrow> map_of m k = Some v \<Longrightarrow> P (k, v)"
  by (metis map_of_SomeD list_all_iff)

lemma occ_wf_step: "occ_wf occ \<Longrightarrow> occ_wf (count_occurrence occ kv)"
proof -
  assume wf: "occ_wf occ"
  obtain k v where kv: "kv = (k, v)" by (cases kv)
  have "al_wf (case map_of occ k of Some m \<Rightarrow> m | None \<Rightarrow> [])"
    using wf list_all_map_of [of "\<lambda>p. al_wf (snd p)" occ k] by (auto simp: occ_wf_def split: option.split)
  then show ?thesis
    using wf by (simp add: kv count_occurrence_def occ_wf_def bump_def list_all_al_insert al_wf_al_insert)
qed

lemma occurrences_spec:
  "occ_wf (foldl count_occurrence [] ps) \<and>
   lookup2 (foldl count_occurrence [] ps) k v =
     (let n = count_list ps (k, v) in if n = 0 then None else Some (min n u64_max))"
proof (induction ps arbitrary: k v rule: rev_induct)
  case Nil
  show ?case by (simp add: lookup2_def occ_wf_def)
next
  case (snoc p ps)
  obtain k1 v1 where p: "p = (k1, v1)" by (cases p)
  have "occ_wf (foldl count_occurrence [] (ps @ [p]))" using snoc [of k v] by (simp add: occ_wf_step)
  moreover have "count_list (ps @ [p]) (k, v) = count_list ps (k, v) + (if p = (k, v) then 1 else 0)"
    by simp
  moreover have "lookup2 (foldl count_occurrence [] ps) k v =
      (if count_list ps (k, v) = 0 then None else Some (min (count_list ps (k, v)) u64_max))" for k v
    using snoc by (simp only: Let_def)
  ultimately show ?case
    by (simp add: p lookup2_count_occurrence Let_def saturating_inc_def min_def)
qed

lemma set_flat_occurrences:
  assumes "occ_wf occ"
  shows "(k, v, n) \<in> set (flat_occurrences occ) \<longleftrightarrow> lookup2 occ k v = Some n"
proof -
  have m: "al_wf m" if "(k, m) \<in> set occ" for m using assms that by (auto simp: occ_wf_def list_all_iff)
  have "(k, v, n) \<in> set (flat_occurrences occ) \<longleftrightarrow> (\<exists>m. (k, m) \<in> set occ \<and> (v, n) \<in> set m)"
    by (force simp: flat_occurrences_def)
  also have "\<dots> \<longleftrightarrow> (\<exists>m. map_of occ k = Some m \<and> map_of m v = Some n)"
    using assms m by (metis map_of_eq_Some_iff occ_wf_def)
  finally show ?thesis by (auto simp: lookup2_def split: option.splits)
qed

lemma distinct_flat_occurrences:
  "occ_wf occ \<Longrightarrow> distinct (map (\<lambda>(k, v, n). (k, v)) (flat_occurrences occ))"
proof (induction occ)
  case (Cons p occ)
  obtain k m where p: "p = (k, m)" by (cases p)
  have f: "flat_occurrences (p # occ) = map (\<lambda>(v, n). (k, v, n)) m @ flat_occurrences occ"
    by (simp add: flat_occurrences_def p)
  have "distinct (map (\<lambda>(k, v, n). (k, v)) (map (\<lambda>(v, n). (k, v, n)) m))"
    using Cons.prems by (auto simp: occ_wf_def p distinct_map inj_on_def split_beta)
  moreover have "k' \<noteq> k" if "(k', v, n) \<in> set (flat_occurrences occ)" for k' v n
    using that Cons.prems by (force simp: flat_occurrences_def occ_wf_def p)
  ultimately show ?case
    using Cons unfolding f by (fastforce simp: occ_wf_def)
qed (simp add: flat_occurrences_def)

section \<open>The two result maps\<close>

definition listed :: "('k \<times> 'v list) list \<Rightarrow> 'k \<Rightarrow> 'v list" where
  "listed m k = (case map_of m k of None \<Rightarrow> [] | Some vs \<Rightarrow> vs)"

lemma sort_occurrences_spec:
  fixes c :: nat
  defines "res xs \<equiv> foldl (sort_occurrence c) ([], []) xs"
  shows "(map_of (fst (res xs)) k = Some v \<longrightarrow> (k, v, c) \<in> set xs) \<and>
         ((k, v, c) \<in> set xs \<longrightarrow> map_of (fst (res xs)) k \<noteq> None) \<and>
         listed (snd (res xs)) k = map (\<lambda>(k, v, n). v) (filter (\<lambda>(k', v, n). k' = k \<and> n \<noteq> c) xs)"
proof (induction xs rule: rev_induct)
  case Nil
  show ?case by (simp add: res_def listed_def)
next
  case (snoc x xs)
  obtain k' v' n' where x: "x = (k', v', n')" by (cases x)
  obtain u cf where r: "res xs = (u, cf)" by (cases "res xs")
  have "res (xs @ [x]) = sort_occurrence c (res xs) x" by (simp add: res_def)
  then show ?case
    using snoc by (auto simp: r x sort_occurrence_def listed_def split: option.splits if_splits)
qed

lemma sort_occurrences_wf:
  "al_wf (fst (foldl (sort_occurrence c) ([], []) xs)) \<and> al_wf (snd (foldl (sort_occurrence c) ([], []) xs))"
proof (induction xs rule: rev_induct)
  case (snoc x xs)
  obtain u cf where r: "foldl (sort_occurrence c) ([], []) xs = (u, cf)"
    by (cases "foldl (sort_occurrence c) ([], []) xs")
  then have wf: "al_wf u" "al_wf cf" using snoc by simp_all
  have step: "foldl (sort_occurrence c) ([], []) (xs @ [x]) = sort_occurrence c (u, cf) x" by (simp add: r)
  obtain k v n where x: "x = (k, v, n)" by (cases x)
  show ?case unfolding step unfolding x using wf by (simp add: sort_occurrence_def al_wf_al_insert)
qed simp

lemma separate_wf: "separate sets = (u, c) \<Longrightarrow> al_wf u \<and> al_wf c"
  using sort_occurrences_wf unfolding separate_def Let_def by (metis fst_conv snd_conv)

lemma count_list_distinct: "distinct xs \<Longrightarrow> count_list xs x = (if x \<in> set xs then 1 else 0)"
  by (induction xs) auto

lemma count_list_concat_sets:
  "\<forall>s \<in> set sets. al_wf s \<Longrightarrow>
   count_list (concat sets) (k, v) = length (filter (\<lambda>s. map_of s k = Some v) sets)"
proof (induction sets)
  case (Cons s sets)
  then have wf: "al_wf s" by simp
  then have "distinct s" by (simp add: distinct_map)
  then have "count_list s (k, v) = (if map_of s k = Some v then 1 else 0)"
    using map_of_eq_Some_iff [OF wf] by (simp add: count_list_distinct)
  with Cons show ?case by (simp add: count_list_append)
qed simp

lemma length_filter_all: "length (filter P xs) = length xs \<longleftrightarrow> (\<forall>x \<in> set xs. P x)"
proof (induction xs)
  case (Cons x xs)
  have "length (filter P xs) \<noteq> Suc (length xs)" using length_filter_le [of P xs] by linarith
  with Cons show ?case by simp
qed simp

lemma foldl_saturating_inc: "foldl (\<lambda>c _. saturating_inc c) 0 xs = min (length xs) u64_max"
  by (induction xs rule: rev_induct) (simp_all add: saturating_inc_def min_def)

lemma separate_spec:
  assumes "\<forall>s \<in> set sets. distinct (map fst s)" "length sets \<le> u64_max"
    and "separate sets = (unconflicted, conflicted)"
  shows "(map_of unconflicted k = Some v \<longleftrightarrow> sets \<noteq> [] \<and> (\<forall>s \<in> set sets. map_of s k = Some v)) \<and>
         (v \<in> set (listed conflicted k) \<longleftrightarrow>
            (\<exists>s \<in> set sets. map_of s k = Some v) \<and> \<not> (\<forall>s \<in> set sets. map_of s k = Some v)) \<and>
         distinct (listed conflicted k)"
proof -
  let ?c = "length sets"
  let ?n = "\<lambda>v. length (filter (\<lambda>s. map_of s k = Some v) sets)"
  define occ where "occ = foldl count_occurrence [] (concat sets)"
  have occ: "occ_wf occ" using occurrences_spec [of "concat sets"] by (simp add: occ_def)
  have mem: "(k, v, n) \<in> set (flat_occurrences occ) \<longleftrightarrow> n = ?n v \<and> 0 < n" for v n
  proof -
    have "?n v \<le> u64_max" using assms(2) by (meson length_filter_le order_trans)
    then have m: "min (?n v) u64_max = ?n v" by (rule min_absorb1)
    have "lookup2 occ k v = (if ?n v = 0 then None else Some (min (?n v) u64_max))"
      using conjunct2 [OF occurrences_spec [of "concat sets" k v]]
      unfolding occ_def count_list_concat_sets [OF assms(1)] Let_def .
    then have "lookup2 occ k v = (if ?n v = 0 then None else Some (?n v))" unfolding m .
    then show ?thesis by (auto simp: set_flat_occurrences [OF occ])
  qed
  have res: "foldl (sort_occurrence ?c) ([], []) (flat_occurrences occ) = (unconflicted, conflicted)"
    using assms(2,3) by (simp only: separate_def foldl_saturating_inc Let_def min_absorb1 occ_def)
  note sp = sort_occurrences_spec [where xs = "flat_occurrences occ" and c = ?c and k = k, unfolded res fst_conv snd_conv]
  have all: "?n v = ?c \<longleftrightarrow> (\<forall>s \<in> set sets. map_of s k = Some v)" for v
    by (rule length_filter_all)
  have some: "0 < ?n v \<longleftrightarrow> (\<exists>s \<in> set sets. map_of s k = Some v)" for v
    by (simp add: filter_empty_conv)
  have u1: "(\<forall>s \<in> set sets. map_of s k = Some v) \<and> sets \<noteq> []" if "map_of unconflicted k = Some v" for v
    using sp [of v] that mem [of v ?c] all [of v] by auto
  have u2: "map_of unconflicted k = Some v" if "\<forall>s \<in> set sets. map_of s k = Some v" "sets \<noteq> []" for v
  proof -
    have "(k, v, ?c) \<in> set (flat_occurrences occ)" using that all [of v] mem [of v ?c] by simp
    then obtain w where "map_of unconflicted k = Some w" using sp [of v] by auto
    then show ?thesis using u1 [of w] that by (metis last_in_set option.inject)
  qed
  have l: "listed conflicted k = map (\<lambda>(k, v, n). v) (filter (\<lambda>(k', v, n). k' = k \<and> n \<noteq> ?c) (flat_occurrences occ))"
    using sp by blast
  have "v \<in> set (listed conflicted k) \<longleftrightarrow> (\<exists>n. (k, v, n) \<in> set (flat_occurrences occ) \<and> n \<noteq> ?c)"
    unfolding l by force
  also have "\<dots> \<longleftrightarrow> 0 < ?n v \<and> ?n v \<noteq> ?c" using mem by auto
  finally have c: "v \<in> set (listed conflicted k) \<longleftrightarrow> 0 < ?n v \<and> ?n v \<noteq> ?c" .
  have "distinct (map (\<lambda>(k, v, n). (k, v)) (filter (\<lambda>(k', v, n). k' = k \<and> n \<noteq> ?c) (flat_occurrences occ)))"
    using distinct_flat_occurrences [OF occ] by (rule distinct_map_filter)
  then have "distinct (listed conflicted k)"
    unfolding l by (auto simp: distinct_map inj_on_def)
  with u1 u2 c show ?thesis unfolding all some by blast
qed

lemma get_auth_chain_diff_spec:
  assumes "\<forall>s \<in> set sets. distinct s"
  shows "set (get_auth_chain_diff sets) = \<Union> (set ` set sets) - (\<Inter>s \<in> set sets. set s) \<and>
         distinct (get_auth_chain_diff sets)"
proof -
  let ?step = "\<lambda>counts i. al_insert i (case map_of counts i of Some x \<Rightarrow> x + 1 | None \<Rightarrow> (1 :: nat)) counts"
  define counts where "counts = foldl ?step [] (concat sets)"
  have f: "al_wf (foldl ?step [] ps) \<and>
      map_of (foldl ?step [] ps) i = (if count_list ps i = 0 then None else Some (count_list ps i))" for ps i
  proof (induction ps arbitrary: i rule: rev_induct)
    case (snoc p ps)
    then show ?case by (auto simp: snoc)
  qed simp
  have n: "count_list (concat xs) i = length (filter (\<lambda>s. i \<in> set s) xs)" if "\<forall>s \<in> set xs. distinct s" for xs and i :: 'a
    using that by (induction xs) (simp_all add: count_list_append count_list_distinct)
  have wf: "al_wf counts" using f [of "concat sets"] by (simp add: counts_def)
  have "i \<in> set (get_auth_chain_diff sets) \<longleftrightarrow> (\<exists>n. map_of counts i = Some n \<and> n < length sets)" for i
    unfolding get_auth_chain_diff_def Let_def counts_def [symmetric] using wf by force
  also have "\<dots> i \<longleftrightarrow> (\<exists>s \<in> set sets. i \<in> set s) \<and> \<not> (\<forall>s \<in> set sets. i \<in> set s)" for i
  proof -
    have "length (filter (\<lambda>s. i \<in> set s) sets) < length sets \<longleftrightarrow> \<not> (\<forall>s \<in> set sets. i \<in> set s)"
      using length_filter_all [of "\<lambda>s. i \<in> set s" sets] length_filter_le [of "\<lambda>s. i \<in> set s" sets] by linarith
    moreover have "length (filter (\<lambda>s. i \<in> set s) sets) = 0 \<longleftrightarrow> \<not> (\<exists>s \<in> set sets. i \<in> set s)"
      by (auto simp: filter_empty_conv)
    ultimately show ?thesis using f [of "concat sets" i] n [OF assms, of i] by (auto simp: counts_def)
  qed
  finally have "set (get_auth_chain_diff sets) = \<Union> (set ` set sets) - (\<Inter>s \<in> set sets. set s)" by blast
  moreover have "distinct (get_auth_chain_diff sets)"
    unfolding get_auth_chain_diff_def Let_def counts_def [symmetric] using wf by (rule distinct_map_fst_filter)
  ultimately show ?thesis by blast
qed

section \<open>Properties\<close>

text \<open>C19: \<open>separate\<close> splits the state as documented. An entry is unconflicted exactly when
  every one of the sets has it, and an id is listed as conflicting for a key exactly when some set
  has it there and not all do, each id once. Neither depends on the iteration order of the maps.\<close>

theorem separate_correct:
  assumes "\<forall>s \<in> set sets. distinct (map fst s)" "length sets \<le> u64_max"
    and "separate sets = (unconflicted, conflicted)"
  shows "(map_of unconflicted k = Some v \<longleftrightarrow> sets \<noteq> [] \<and> (\<forall>s \<in> set sets. map_of s k = Some v)) \<and>
         (v \<in> set (listed conflicted k) \<longleftrightarrow>
            (\<exists>s \<in> set sets. map_of s k = Some v) \<and> \<not> (\<forall>s \<in> set sets. map_of s k = Some v)) \<and>
         distinct (listed conflicted k)"
  by (rule separate_spec [OF assms])

theorem separate_correct_witness:
  "\<exists>u c. separate [[(1 :: nat, ''x''), (2, ''y'')], [(2, ''z''), (1, ''x'')]] = (u, c) \<and>
         map_of u 1 = Some ''x'' \<and> map_of u 2 = None \<and> set (listed c 2) = {''y'', ''z''}"
proof -
  let ?s = "[[(1 :: nat, ''x''), (2, ''y'')], [(2, ''z''), (1, ''x'')]]"
  obtain u c where s: "separate ?s = (u, c)" by (cases "separate ?s")
  have wf: "\<forall>s \<in> set ?s. distinct (map fst s)" "length ?s \<le> u64_max" by simp_all
  note sp = separate_correct [OF wf s]
  have "map_of u 1 = Some ''x''" using sp [of 1 "''x''"] by simp
  moreover have "map_of u 2 \<noteq> Some v" for v using sp [of 2 v] by auto
  then have "map_of u 2 = None" by (cases "map_of u 2") auto
  moreover have "set (listed c 2) = {''y'', ''z''}" using sp [of 2] by auto
  ultimately show ?thesis using s by blast
qed

text \<open>C32: \<open>get_auth_chain_diff\<close> returns each id that is in some of the auth chains but not in
  all of them, once.\<close>

lemma get_auth_chain_diff_correct:
  assumes "\<forall>s \<in> set sets. distinct s"
  shows "set (get_auth_chain_diff sets) = \<Union> (set ` set sets) - (\<Inter>s \<in> set sets. set s) \<and>
         distinct (get_auth_chain_diff sets)"
  by (rule get_auth_chain_diff_spec [OF assms])

end
