(* ===== verification/Auth_Graph.thy ===== *)
theory Auth_Graph
  imports Topo_Sort Power_Levels
begin

text \<open>
  The first sort of state resolution, \<open>reverse_topological_power_sort\<close> of
  \<open>src/core/matrix/state_res/mod.rs\<close>: the auth chains of the power events inside the full
  conflicted set are collected into a graph (\<open>add_event_and_auth_chain_to_graph\<close>), each
  event gets the power of its sender (\<open>get_power_level_for_sender\<close>, \<open>sender_is_creator\<close>),
  and the graph is sorted. \<open>fetch\<close> is the function that finds an event by its id. Where the code
  fetches several events at once and takes them in the order in which they arrive, that order is
  the parameter \<open>arrive\<close>.
\<close>

section \<open>Collecting the auth chains\<close>

type_synonym event_fetch = "string \<Rightarrow> pdu option"

definition auth_ids :: "event_fetch \<Rightarrow> string \<Rightarrow> string list" where
  "auth_ids fetch eid = (case fetch eid of None \<Rightarrow> [] | Some ev \<Rightarrow> pdu_auth_events ev)"

text \<open>One auth event of \<open>eid\<close>; the stack has its top first.\<close>

definition scan_auth_event ::
    "string set \<Rightarrow> string \<Rightarrow> string graph \<times> string list \<Rightarrow> string \<Rightarrow> string graph \<times> string list" where
  "scan_auth_event auth_diff eid gs aid =
     (case gs of (g, stack) \<Rightarrow>
        if aid \<in> auth_diff
        then (entry_insert g eid aid, if map_of g aid = None then aid # stack else stack)
        else (g, stack))"

definition visit_event ::
    "event_fetch \<Rightarrow> string set \<Rightarrow> string graph \<Rightarrow> string \<Rightarrow> string list \<Rightarrow> string graph \<times> string list" where
  "visit_event fetch auth_diff g eid stack =
     foldl (scan_auth_event auth_diff eid) (entry_default g eid, stack) (auth_ids fetch eid)"

partial_function (option) add_auth_chain ::
    "event_fetch \<Rightarrow> string set \<Rightarrow> string graph \<times> string list \<Rightarrow> string graph option" where
  "add_auth_chain fetch auth_diff gs =
     (case snd gs of
        [] \<Rightarrow> Some (fst gs)
      | eid # stack \<Rightarrow>
          add_auth_chain fetch auth_diff (visit_event fetch auth_diff (fst gs) eid stack))"

declare add_auth_chain.simps [code]

definition add_event_and_auth_chain_to_graph ::
    "event_fetch \<Rightarrow> string set \<Rightarrow> string graph \<Rightarrow> string \<Rightarrow> string graph option" where
  "add_event_and_auth_chain_to_graph fetch auth_diff g event_id = add_auth_chain fetch auth_diff (g, [event_id])"

section \<open>The power of a sender\<close>

record create_content_fields =
  cc_creator :: "string option option"
  cc_additional_creators :: "string option list option"

text \<open>The struct of this file has two of the fields of the one in \<open>event_auth.rs\<close>.\<close>

definition create_content_fields_of :: "decoders \<Rightarrow> string \<Rightarrow> create_content_fields option" where
  "create_content_fields_of de content =
     map_option (\<lambda>c. \<lparr>cc_creator = cf_creator c, cc_additional_creators = cf_additional_creators c\<rparr>)
       (de_create de content)"

definition sender_is_creator ::
    "decoders \<Rightarrow> pdu \<Rightarrow> room_version_rules \<Rightarrow> pdu list \<Rightarrow> event_fetch \<Rightarrow> state_res_error + bool" where
  "sender_is_creator de ev rules auth_events fetch =
     res_bind
       (case find (\<lambda>aev. is_type_and_key aev RoomCreate '''') auth_events of
          Some create_event \<Rightarrow> Inr (Some create_event)
        | None \<Rightarrow>
            res_bind (room_id_or_hash de ev) (\<lambda>room_id.
              let create_event_id = replace_char (CHR ''!'') (CHR ''$'') room_id in
              Inr (if valid_event_id de create_event_id then fetch create_event_id else None)))
       (\<lambda>create_event.
          case create_event of
            None \<Rightarrow> Inr False
          | Some create_event \<Rightarrow>
              res_bind (ok_or SerdeJson (create_content_fields_of de (pdu_content create_event))) (\<lambda>content.
                let is_creator =
                  (if use_room_create_sender (authorization rules)
                   then pdu_sender create_event = pdu_sender ev
                   else cc_creator content = Some (Some (pdu_sender ev)))
                in if is_creator then Inr True
                   else if \<not> explicitly_privilege_room_creators (authorization rules) then Inr False
                   else Inr (Some (pdu_sender ev) \<in>
                             set (case cc_additional_creators content of None \<Rightarrow> [] | Some cs \<Rightarrow> cs))))"

text \<open>\<open>js_int::Int::MAX\<close>\<close>

definition Int_MAX :: int where "Int_MAX = 2 ^ 53 - 1"

definition get_power_level_for_sender ::
    "decoders \<Rightarrow> (pdu list \<Rightarrow> pdu list) \<Rightarrow> string \<Rightarrow> room_version_rules \<Rightarrow> event_fetch \<Rightarrow> state_res_error + int" where
  "get_power_level_for_sender de arrive event_id rules fetch =
     (case fetch event_id of
        None \<Rightarrow> Inr 0
      | Some ev \<Rightarrow>
          (let auth_events = arrive (List.map_filter fetch (pdu_auth_events ev)) in
           res_bind (sender_is_creator de ev rules auth_events fetch) (\<lambda>is_creator.
             if is_creator \<and> explicitly_privilege_room_creators (authorization rules) then Inr Int_MAX
             else
               (case find (\<lambda>aev. is_type_and_key aev RoomPowerLevels '''') auth_events of
                  None \<Rightarrow> Inr (if is_creator then 100 else 0)
                | Some pl \<Rightarrow>
                    res_bind (ok_or SerdeJson (power_levels_content_fields_of de (pdu_content pl))) (\<lambda>content.
                      case get_user_power content (pdu_sender ev) of
                        Some user_level \<Rightarrow> Inr user_level
                      | None \<Rightarrow> Inr (plf_users_default content))))))"

section \<open>The sort\<close>

fun add_all_to_graph ::
    "event_fetch \<Rightarrow> string set \<Rightarrow> string graph \<Rightarrow> string list \<Rightarrow> string graph option" where
  "add_all_to_graph fetch auth_diff g [] = Some g"
| "add_all_to_graph fetch auth_diff g (event_id # event_ids) =
     (case add_event_and_auth_chain_to_graph fetch auth_diff g event_id of
        None \<Rightarrow> None
      | Some g \<Rightarrow> add_all_to_graph fetch auth_diff g event_ids)"

text \<open>The closure \<open>fetcher\<close>: an event whose power could not be found, or that cannot be
  fetched, is an error.\<close>

definition power_sort_key ::
    "decoders \<Rightarrow> (pdu list \<Rightarrow> pdu list) \<Rightarrow> room_version_rules \<Rightarrow> event_fetch \<Rightarrow> string key_fn" where
  "power_sort_key de arrive rules fetch event_id =
     (case res_ok (get_power_level_for_sender de arrive event_id rules fetch) of
        None \<Rightarrow> Inl (NotFound '''')
      | Some pl \<Rightarrow>
          (case fetch event_id of
             None \<Rightarrow> Inl (NotFound '''')
           | Some ev \<Rightarrow> Inr (pl, pdu_origin_server_ts ev)))"

definition reverse_topological_power_sort ::
    "decoders \<Rightarrow> (pdu list \<Rightarrow> pdu list) \<Rightarrow> string list \<Rightarrow> string set \<Rightarrow> room_version_rules \<Rightarrow> event_fetch \<Rightarrow>
     (state_res_error + string list) option" where
  "reverse_topological_power_sort de arrive events_to_sort auth_diff rules fetch =
     (case add_all_to_graph fetch auth_diff [] events_to_sort of
        None \<Rightarrow> None
      | Some g \<Rightarrow> lexicographical_topological_sort g (power_sort_key de arrive rules fetch))"

section \<open>The graph that is built\<close>

definition chain_refs :: "event_fetch \<Rightarrow> string set \<Rightarrow> string \<Rightarrow> string set" where
  "chain_refs fetch auth_diff n = set (auth_ids fetch n) \<inter> auth_diff"

lemma nodes_dom: "nodes g = dom (map_of g)"
  by (simp add: nodes_def dom_map_of_conv_image_fst)

lemma nodes_entry [simp]:
  "nodes (entry_default g k) = insert k (nodes g)" "nodes (entry_insert g k v) = insert k (nodes g)"
  by (simp_all add: nodes_dom)

lemma al_wf_entry [simp]:
  "al_wf g \<Longrightarrow> al_wf (entry_default g k)" "al_wf g \<Longrightarrow> al_wf (entry_insert g k v)"
  by (auto simp: entry_default_def entry_insert_def split: option.split)

lemma scan_auth_events:
  assumes "eid \<in> nodes g" "al_wf g"
  shows "\<exists>g' pushed. foldl (scan_auth_event diff eid) (g, stack) aids = (g', pushed @ stack) \<and>
           nodes g' = nodes g \<and> al_wf g' \<and> set pushed = set aids \<inter> diff - nodes g \<and>
           refs g' = (refs g)(eid := refs g eid \<union> set aids \<inter> diff)"
proof (induction aids rule: rev_induct)
  case (snoc aid aids)
  then obtain g' pushed where ih: "foldl (scan_auth_event diff eid) (g, stack) aids = (g', pushed @ stack)"
    "nodes g' = nodes g" "al_wf g'" "set pushed = set aids \<inter> diff - nodes g"
    "refs g' = (refs g)(eid := refs g eid \<union> set aids \<inter> diff)" by blast
  have aid: "map_of g' aid = None \<longleftrightarrow> aid \<notin> nodes g" using ih(2) by (auto simp: nodes_dom)
  let ?g = "if aid \<in> diff then entry_insert g' eid aid else g'"
  let ?p = "if aid \<in> diff \<and> aid \<notin> nodes g then aid # pushed else pushed"
  have "foldl (scan_auth_event diff eid) (g, stack) (aids @ [aid]) = (?g, ?p @ stack)"
    using ih(1) by (simp add: scan_auth_event_def aid)
  moreover have "nodes ?g = nodes g" "al_wf ?g" "set ?p = set (aids @ [aid]) \<inter> diff - nodes g"
    "refs ?g = (refs g)(eid := refs g eid \<union> set (aids @ [aid]) \<inter> diff)"
    using assms(1) ih(2-) by (auto simp: fun_eq_iff)
  ultimately show ?case by blast
qed (use assms in \<open>auto intro!: exI [of _ "[]"]\<close>)

lemma visit_event_spec:
  assumes "al_wf g"
  obtains g' pushed where "visit_event fetch diff g eid stack = (g', pushed @ stack)"
    "nodes g' = insert eid (nodes g)" "al_wf g'" "set pushed = chain_refs fetch diff eid - insert eid (nodes g)"
    "refs g' = (refs g)(eid := refs g eid \<union> chain_refs fetch diff eid)"
  using scan_auth_events [of eid "entry_default g eid" diff stack "auth_ids fetch eid"] assms
  by (auto simp: visit_event_def chain_refs_def)

text \<open>
  \<open>grown fetch diff g g' S\<close>: \<open>g'\<close> extends \<open>g\<close> by the events \<open>S\<close> and what they
  reach, and the new events have all their references.
\<close>

definition grown ::
    "event_fetch \<Rightarrow> string set \<Rightarrow> string graph \<Rightarrow> string graph \<Rightarrow> string set \<Rightarrow> bool" where
  "grown fetch diff g g' S \<longleftrightarrow>
     al_wf g' \<and> nodes g \<union> S \<subseteq> nodes g' \<and>
     nodes g' \<subseteq> nodes g \<union> {(a, b). b \<in> chain_refs fetch diff a}\<^sup>* `` S \<and>
     (\<forall>n. refs g n \<subseteq> refs g' n \<and> refs g' n \<subseteq> refs g n \<union> chain_refs fetch diff n) \<and>
     (\<forall>n \<in> nodes g' - nodes g \<union> S. chain_refs fetch diff n \<subseteq> refs g' n \<inter> nodes g')"

lemma grownD:
  assumes "grown fetch diff g g' S"
  shows "al_wf g'" "nodes g \<subseteq> nodes g'" "S \<subseteq> nodes g'"
    "nodes g' \<subseteq> nodes g \<union> {(a, b). b \<in> chain_refs fetch diff a}\<^sup>* `` S"
    "refs g n \<subseteq> refs g' n" "refs g' n \<subseteq> refs g n \<union> chain_refs fetch diff n"
    "n \<in> nodes g' - nodes g \<union> S \<Longrightarrow> chain_refs fetch diff n \<subseteq> refs g' n"
    "n \<in> nodes g' - nodes g \<union> S \<Longrightarrow> chain_refs fetch diff n \<subseteq> nodes g'"
  using assms unfolding grown_def by simp_all

lemma grownI:
  assumes "al_wf g'" "nodes g \<subseteq> nodes g'" "S \<subseteq> nodes g'"
    "nodes g' \<subseteq> nodes g \<union> {(a, b). b \<in> chain_refs fetch diff a}\<^sup>* `` S"
    "\<And>n. refs g n \<subseteq> refs g' n" "\<And>n. refs g' n \<subseteq> refs g n \<union> chain_refs fetch diff n"
    "\<And>n. n \<in> nodes g' - nodes g \<union> S \<Longrightarrow> chain_refs fetch diff n \<subseteq> refs g' n"
    "\<And>n. n \<in> nodes g' - nodes g \<union> S \<Longrightarrow> chain_refs fetch diff n \<subseteq> nodes g'"
  shows "grown fetch diff g g' S"
  using assms unfolding grown_def by simp

lemma grown_refl: "al_wf g \<Longrightarrow> grown fetch diff g g {}"
  by (simp add: grown_def)

lemma grown_trans:
  assumes a: "grown fetch diff g g1 S" and b: "grown fetch diff g1 g2 T"
  shows "grown fetch diff g g2 (S \<union> T)"
proof (rule grownI)
  note da = grownD [OF a] and db = grownD [OF b]
  show "al_wf g2" by (rule db(1))
  show "nodes g \<subseteq> nodes g2" "S \<union> T \<subseteq> nodes g2" using da(2,3) db(2,3) by blast+
  show "nodes g2 \<subseteq> nodes g \<union> {(a, b). b \<in> chain_refs fetch diff a}\<^sup>* `` (S \<union> T)"
    using da(4) db(4) by (auto simp: Image_Un)
  show "refs g n \<subseteq> refs g2 n" "refs g2 n \<subseteq> refs g n \<union> chain_refs fetch diff n" for n
    using da(5,6) [of n] db(5,6) [of n] by blast+
  fix n assume n: "n \<in> nodes g2 - nodes g \<union> (S \<union> T)"
  then consider "n \<in> nodes g2 - nodes g1 \<union> T" | "n \<in> nodes g1 - nodes g \<union> S" by blast
  then show "chain_refs fetch diff n \<subseteq> refs g2 n" "chain_refs fetch diff n \<subseteq> nodes g2"
    using da(7,8) [of n] db(7,8) [of n] db(5) [of n] db(2) by (cases; blast)+
qed

text \<open>Processing a list of pushed events, given that each can be processed.\<close>

lemma add_auth_chain_list:
  assumes "\<And>g' a rest. \<lbrakk>a \<in> set L; nodes g \<subseteq> nodes g'; al_wf g'\<rbrakk> \<Longrightarrow>
     \<exists>g2. add_auth_chain fetch diff (g', a # rest) = add_auth_chain fetch diff (g2, rest) \<and> grown fetch diff g' g2 {a}"
    and "al_wf g"
  shows "\<exists>g2. add_auth_chain fetch diff (g, L @ rest) = add_auth_chain fetch diff (g2, rest) \<and>
              grown fetch diff g g2 (set L)"
  using assms
proof (induction L arbitrary: g)
  case Nil
  then show ?case using grown_refl by auto
next
  case (Cons a L)
  obtain g1 where g1: "add_auth_chain fetch diff (g, a # (L @ rest)) = add_auth_chain fetch diff (g1, L @ rest)"
    "grown fetch diff g g1 {a}" using Cons.prems(1) [of a g "L @ rest"] Cons.prems(2) by auto
  note n = grownD(1,2) [OF g1(2)]
  have "\<exists>g2. add_auth_chain fetch diff (g1, L @ rest) = add_auth_chain fetch diff (g2, rest) \<and>
      grown fetch diff g1 g2 (set L)"
    by (rule Cons.IH) (use Cons.prems(1) n in auto)
  then obtain g2 where "add_auth_chain fetch diff (g1, L @ rest) = add_auth_chain fetch diff (g2, rest)"
    "grown fetch diff g1 g2 (set L)" by blast
  with g1 grown_trans [OF g1(2)] show ?case by auto
qed

definition work :: "string set \<Rightarrow> string graph \<Rightarrow> string \<Rightarrow> nat" where
  "work U g eid = 2 * card (U - nodes g) + (if eid \<in> nodes g then 1 else 0)"

lemma work_less:
  assumes "finite U" "eid \<in> U" "nodes g' \<supseteq> insert eid (nodes g)" "a \<in> U" "a \<notin> insert eid (nodes g)"
  shows "work U g' a < work U g eid"
proof (cases "eid \<in> nodes g")
  case False
  then have "card (U - nodes g') < card (U - nodes g)"
    using assms by (intro psubset_card_mono) auto
  then show ?thesis using False by (simp add: work_def)
next
  case True
  show ?thesis
  proof (cases "a \<in> nodes g'")
    case in': True
    then have "card (U - nodes g') < card (U - nodes g)" using assms by (intro psubset_card_mono) auto
    then show ?thesis using True by (simp add: work_def)
  next
    case False
    have "card (U - nodes g') \<le> card (U - nodes g)" using assms by (intro card_mono) auto
    then show ?thesis using True False by (simp add: work_def)
  qed
qed

lemma add_auth_chain_one:
  assumes "finite U" "diff \<subseteq> U" "eid \<in> U" "al_wf g"
  shows "\<exists>g2. add_auth_chain fetch diff (g, eid # rest) = add_auth_chain fetch diff (g2, rest) \<and>
              grown fetch diff g g2 {eid}"
  using assms(3,4)
proof (induction "work U g eid" arbitrary: g eid rest rule: less_induct)
  case less
  obtain g1 pushed where v: "visit_event fetch diff g eid rest = (g1, pushed @ rest)"
    "nodes g1 = insert eid (nodes g)" "al_wf g1" "set pushed = chain_refs fetch diff eid - insert eid (nodes g)"
    "refs g1 = (refs g)(eid := refs g eid \<union> chain_refs fetch diff eid)"
    using visit_event_spec [OF less.prems(2)] by blast
  have step: "add_auth_chain fetch diff (g, eid # rest) = add_auth_chain fetch diff (g1, pushed @ rest)"
    by (subst add_auth_chain.simps) (simp add: v(1))
  have U: "a \<in> U" if "a \<in> set pushed" for a using that v(4) assms(2) by (auto simp: chain_refs_def)
  obtain g2 where g2: "add_auth_chain fetch diff (g1, pushed @ rest) = add_auth_chain fetch diff (g2, rest)"
    "grown fetch diff g1 g2 (set pushed)"
  proof (rule exE [OF add_auth_chain_list [of pushed g1 fetch diff rest]])
    fix g' a rest assume a: "a \<in> set pushed" "nodes g1 \<subseteq> nodes g'" "al_wf g'"
    then have "work U g' a < work U g eid"
      using v(2,4) by (intro work_less [OF assms(1) less.prems(1)] U) auto
    then show "\<exists>g2. add_auth_chain fetch diff (g', a # rest) = add_auth_chain fetch diff (g2, rest) \<and>
        grown fetch diff g' g2 {a}" using less.hyps U a by blast
  qed (use v(3) in blast)+
  have "grown fetch diff g g2 {eid}"
  proof (rule grownI)
    note gr = grownD [OF g2(2)]
    let ?R = "{(a, b). b \<in> chain_refs fetch diff a}"
    show "al_wf g2" by (rule gr(1))
    show sub: "nodes g \<subseteq> nodes g2" "{eid} \<subseteq> nodes g2" using gr(2) v(2) by auto
    have "?R\<^sup>* `` set pushed \<subseteq> ?R\<^sup>* `` {eid}"
    proof
      fix x assume "x \<in> ?R\<^sup>* `` set pushed"
      then obtain a where a: "a \<in> set pushed" "(a, x) \<in> ?R\<^sup>*" by blast
      then have "(eid, a) \<in> ?R" using v(4) by auto
      then show "x \<in> ?R\<^sup>* `` {eid}" using a(2) by (simp add: converse_rtrancl_into_rtrancl)
    qed
    then have "nodes g2 \<subseteq> nodes g1 \<union> ?R\<^sup>* `` {eid}" by (rule subset_trans [OF gr(4) Un_mono [OF order_refl]])
    then show "nodes g2 \<subseteq> nodes g \<union> ?R\<^sup>* `` {eid}" unfolding v(2) by auto
    show "refs g n \<subseteq> refs g2 n" "refs g2 n \<subseteq> refs g n \<union> chain_refs fetch diff n" for n
      using gr(5,6) [of n] v(5) by (auto split: if_splits)
    fix n assume n: "n \<in> nodes g2 - nodes g \<union> {eid}"
    have r1: "chain_refs fetch diff eid \<subseteq> refs g1 eid" unfolding v(5) by simp
    have r2: "chain_refs fetch diff eid \<subseteq> set pushed \<union> nodes g1" unfolding v(2,4) by blast
    have e: "chain_refs fetch diff eid \<subseteq> refs g2 eid" "chain_refs fetch diff eid \<subseteq> nodes g2"
      using r1 r2 gr(5) [of eid] gr(2,3) by blast+
    show "chain_refs fetch diff n \<subseteq> refs g2 n" "chain_refs fetch diff n \<subseteq> nodes g2"
    proof -
      have "n = eid \<or> n \<in> nodes g2 - nodes g1 \<union> set pushed" using n v(2) by blast
      then show "chain_refs fetch diff n \<subseteq> refs g2 n" "chain_refs fetch diff n \<subseteq> nodes g2"
        using e gr(7,8) [of n] by blast+
    qed
  qed
  with step g2(1) show ?case by auto
qed

lemma add_to_graph:
  assumes "finite diff" "al_wf g"
  shows "\<exists>g2. add_event_and_auth_chain_to_graph fetch diff g eid = Some g2 \<and> grown fetch diff g g2 {eid}"
proof -
  obtain g2 where "add_auth_chain fetch diff (g, [eid]) = add_auth_chain fetch diff (g2, [])" "grown fetch diff g g2 {eid}"
    using add_auth_chain_one [of "insert eid diff" diff eid g fetch "[]"] assms by auto
  then show ?thesis
    by (auto simp: add_event_and_auth_chain_to_graph_def add_auth_chain.simps [of fetch diff "(g2, [])"])
qed

lemma add_all_to_graph_spec:
  assumes "finite diff" "al_wf g"
  shows "\<exists>g2. add_all_to_graph fetch diff g eids = Some g2 \<and> grown fetch diff g g2 (set eids)"
  using assms(2)
proof (induction eids arbitrary: g)
  case Nil
  then show ?case using grown_refl by auto
next
  case (Cons e eids)
  obtain g1 where g1: "add_event_and_auth_chain_to_graph fetch diff g e = Some g1" "grown fetch diff g g1 {e}"
    using add_to_graph [OF assms(1) Cons.prems] by blast
  then obtain g2 where "add_all_to_graph fetch diff g1 eids = Some g2" "grown fetch diff g1 g2 (set eids)"
    using Cons.IH [OF grownD(1) [OF g1(2)]] by blast
  with g1 grown_trans [OF g1(2)] show ?case by auto
qed

section \<open>Properties\<close>

definition chain_rel :: "event_fetch \<Rightarrow> string set \<Rightarrow> (string \<times> string) set" where
  "chain_rel fetch diff = {(a, b). b \<in> chain_refs fetch diff a}"

lemma built_graph:
  assumes "finite diff" "add_all_to_graph fetch diff [] events = Some g"
  shows "al_wf g" "nodes g = (chain_rel fetch diff)\<^sup>* `` set events"
    "n \<in> nodes g \<Longrightarrow> refs g n = chain_refs fetch diff n"
    "n \<in> nodes g \<Longrightarrow> refs g n \<subseteq> nodes g"
proof -
  have e: "nodes [] = {}" "\<And>n. refs [] n = {}" by (simp_all add: nodes_def refs_def)
  obtain g2 where "add_all_to_graph fetch diff [] events = Some g2" "grown fetch diff [] g2 (set events)"
    using add_all_to_graph_spec [OF assms(1), of "[]"] by auto
  then have gr: "grown fetch diff [] g (set events)" using assms(2) by simp
  note d = grownD [OF gr, unfolded e]
  show "al_wf g" by (rule d(1))
  show r: "refs g n = chain_refs fetch diff n" if "n \<in> nodes g" for n
    using d(6) [of n] d(7) [of n] that by auto
  show c: "refs g n \<subseteq> nodes g" if "n \<in> nodes g" for n using r [OF that] d(8) [of n] that by auto
  have "x \<in> nodes g" if "(y, x) \<in> (chain_rel fetch diff)\<^sup>*" "y \<in> nodes g" for x y
    using that
  proof (induction rule: rtrancl_induct)
    case (step a b)
    then show ?case using c r by (auto simp: chain_rel_def)
  qed
  then show "nodes g = (chain_rel fetch diff)\<^sup>* `` set events"
    using d(3,4) unfolding chain_rel_def by auto
qed

text \<open>C18: the power sort of acyclic auth chains lists exactly the given events and the events
  of the conflicted set that their auth chains reach inside that set, each once, every event after
  its auth events.\<close>

theorem power_sort_correct:
  assumes "finite diff" "acyclic (chain_rel fetch diff)"
    and "\<forall>n \<in> (chain_rel fetch diff)\<^sup>* `` set events. power_sort_key de arrive rules fetch n = Inr (k n)"
  shows "\<exists>xs. reverse_topological_power_sort de arrive events diff rules fetch = Some (Inr xs) \<and> distinct xs \<and>
              set xs = (chain_rel fetch diff)\<^sup>* `` set events \<and>
              (\<forall>i < length xs. chain_refs fetch diff (xs ! i) \<subseteq> set (take i xs))"
proof -
  obtain g where g: "add_all_to_graph fetch diff [] events = Some g"
    using add_all_to_graph_spec [OF assms(1), of "[]"] by auto
  note b = built_graph [OF assms(1) g]
  have sub: "{(m, n). n \<in> nodes g \<and> m \<in> refs g n} \<subseteq> (chain_rel fetch diff)\<inverse>" using b(3) by (auto simp: chain_rel_def)
  have "acyclic {(m, n). n \<in> nodes g \<and> m \<in> refs g n}"
    by (rule acyclic_subset [OF _ sub]) (simp only: acyclic_converse assms(2))
  then obtain xs where xs: "lexicographical_topological_sort g (power_sort_key de arrive rules fetch) = Some (Inr xs)"
    "distinct xs" "set xs = nodes g" "\<forall>i < length xs. refs g (xs ! i) \<subseteq> set (take i xs)"
    using topo_sort_exists [OF b(1), of "power_sort_key de arrive rules fetch" k] assms(3) b(2,4) by auto
  have "chain_refs fetch diff (xs ! i) \<subseteq> set (take i xs)" if "i < length xs" for i
    using xs(3,4) b(3) that nth_mem by metis
  with xs b(2) g show ?thesis by (auto simp: reverse_topological_power_sort_def)
qed

definition demo_chain :: event_fetch where
  "demo_chain i = (if i = ''$b'' then Some
     \<lparr>pdu_event_id = ''$b'', pdu_room_id = Some ''!r'', pdu_sender = ''@a'', pdu_origin_server_ts = 2,
      pdu_kind = RoomPowerLevels, pdu_content = '''', pdu_state_key = Some '''', pdu_prev_events = [],
      pdu_auth_events = [''$a''], pdu_redacts = None, pdu_unsigned = None\<rparr>
    else if i = ''$a'' then Some
     \<lparr>pdu_event_id = ''$a'', pdu_room_id = Some ''!r'', pdu_sender = ''@a'', pdu_origin_server_ts = 1,
      pdu_kind = RoomJoinRules, pdu_content = '''', pdu_state_key = Some '''', pdu_prev_events = [],
      pdu_auth_events = [], pdu_redacts = None, pdu_unsigned = None\<rparr>
    else None)"

definition demo_sort_rules :: room_version_rules where
  "demo_sort_rules = \<lparr>authorization =
        \<lparr>explicitly_privilege_room_creators = False, use_room_create_sender = False,
         special_case_room_aliases = False, special_case_room_redaction = False,
         integer_power_levels = False, limit_notifications_power_levels = True, knocking = True,
         knock_restricted_join_rule = True\<rparr>,
      room_id_format = RoomIdV1, state_res = StateResV2 False, content_field_redacts = False\<rparr>"

theorem power_sort_correct_witness:
  "\<exists>xs. reverse_topological_power_sort no_decoders id [''$b''] {''$a'', ''$b''} demo_sort_rules demo_chain = Some (Inr xs) \<and>
        ''$b'' \<in> set xs"
proof -
  have refs: "chain_refs demo_chain {''$a'', ''$b''} n = (if n = ''$b'' then {''$a''} else {})" for n
    by (auto simp: chain_refs_def auth_ids_def demo_chain_def)
  have "acyclic ((chain_rel demo_chain {''$a'', ''$b''}))"
    by (rule acyclicI_order [where f = id]) (auto simp: chain_rel_def refs split: if_splits)
  moreover have "(chain_rel demo_chain {''$a'', ''$b''})\<^sup>* `` set [''$b''] \<subseteq> {''$a'', ''$b''}"
  proof -
    have "x \<in> {''$a'', ''$b''}" if "(''$b'', x) \<in> (chain_rel demo_chain {''$a'', ''$b''})\<^sup>*" for x
      using that by (induction rule: rtrancl_induct) (auto simp: chain_rel_def refs split: if_splits)
    then show ?thesis by auto
  qed
  moreover have "\<forall>n \<in> {''$a'', ''$b''}. power_sort_key no_decoders id demo_sort_rules demo_chain n
      = Inr (0, if n = ''$b'' then 2 else 1)"
    by (simp add: power_sort_key_def get_power_level_for_sender_def sender_is_creator_def room_id_or_hash_def
        demo_chain_def no_decoders_def demo_sort_rules_def is_type_and_key_def Let_def List.map_filter_def)
  ultimately obtain xs where "reverse_topological_power_sort no_decoders id [''$b''] {''$a'', ''$b''} demo_sort_rules demo_chain
      = Some (Inr xs)" "set xs = (chain_rel demo_chain {''$a'', ''$b''})\<^sup>* `` set [''$b'']"
    using power_sort_correct [of "{''$a'', ''$b''}" demo_chain "[''$b'']" no_decoders id demo_sort_rules
        "\<lambda>n. (0, if n = ''$b'' then 2 else 1)"] by blast
  then show ?thesis by auto
qed

text \<open>The power sort always returns; when it does not return a list, the error is
  \<open>NotFound\<close>, for an event whose sender's power cannot be found or that cannot be fetched.\<close>

lemma power_sort_returns:
  assumes "finite diff"
  shows "\<exists>r. reverse_topological_power_sort de arrive events diff rules fetch = Some r \<and>
             (\<forall>e. r = Inl e \<longrightarrow> e = NotFound '''' \<and>
                (\<exists>n. power_sort_key de arrive rules fetch n = Inl e))"
proof -
  obtain g where g: "add_all_to_graph fetch diff [] events = Some g"
    using add_all_to_graph_spec [OF assms, of "[]"] by auto
  have nf: "e = NotFound ''''" if "power_sort_key de arrive rules fetch n = Inl e" for n e
    using that by (auto simp: power_sort_key_def split: option.splits)
  from topo_sort_total [OF built_graph(1) [OF assms g], of "power_sort_key de arrive rules fetch"]
  show ?thesis
    using nf g by (auto simp: reverse_topological_power_sort_def)
qed

text \<open>The order in which the events are given has no influence on the power sort when every event's
  sort key is found.\<close>

lemma power_sort_order_free:
  assumes "finite diff" "set events = set events'"
    and "\<forall>n \<in> (chain_rel fetch diff)\<^sup>* `` set events. \<exists>k. power_sort_key de arrive rules fetch n = Inr k"
  shows "reverse_topological_power_sort de arrive events diff rules fetch =
         reverse_topological_power_sort de arrive events' diff rules fetch"
proof -
  let ?key = "power_sort_key de arrive rules fetch"
  obtain g g' where g: "add_all_to_graph fetch diff [] events = Some g" "add_all_to_graph fetch diff [] events' = Some g'"
    using add_all_to_graph_spec [OF assms(1), of "[]" fetch events]
      add_all_to_graph_spec [OF assms(1), of "[]" fetch events'] by auto
  note b = built_graph [OF assms(1) g(1)] and b' = built_graph [OF assms(1) g(2)]
  have nodes: "nodes g' = nodes g" using b(2) b'(2) assms(2) by simp
  have refs: "refs g' n = refs g n" for n
  proof (cases "n \<in> nodes g")
    case True
    then show ?thesis using b(3) b'(3) nodes by simp
  next
    case False
    then show ?thesis using nodes by (simp add: refs_def nodes_def map_of_eq_None_iff [THEN iffD2])
  qed
  have found: "?key n \<noteq> Inl e" if "n \<in> nodes g" for n e using that b(2) assms(3) by (metis Inl_Inr_False)
  obtain xs where xs: "lexicographical_topological_sort g ?key = Some (Inr xs)"
    "greedy (nodes g) (refs g) (order_key (found_keys ?key)) {} xs"
    using topo_sort_total [OF b(1), of ?key] found by blast
  obtain ys where ys: "lexicographical_topological_sort g' ?key = Some (Inr ys)"
    "greedy (nodes g') (refs g') (order_key (found_keys ?key)) {} ys"
    using topo_sort_total [OF b'(1), of ?key] found nodes by blast
  have "refs g' = refs g" using refs by (simp add: fun_eq_iff)
  then have "xs = ys" using greedy_unique [OF xs(2) _ inj_order_key] ys(2) nodes by simp
  with xs(1) ys(1) show ?thesis by (simp add: reverse_topological_power_sort_def g)
qed

lemma find_unique:
  assumes "set ys = set xs" "\<And>x y. x \<in> set xs \<Longrightarrow> y \<in> set xs \<Longrightarrow> P x \<Longrightarrow> P y \<Longrightarrow> x = y"
  shows "find P ys = find P xs"
proof (cases "\<exists>x \<in> set xs. P x")
  case True
  then obtain x where x: "x \<in> set xs" "P x" by blast
  have "find P zs = Some x" if "set zs = set xs" for zs
  proof -
    have "find P zs \<noteq> None" using x that by (auto simp: find_None_iff)
    then obtain y where y: "find P zs = Some y" by blast
    then have "y \<in> set zs" "P y" by (auto simp: find_Some_iff)
    with assms(2) x that y show ?thesis by blast
  qed
  then show ?thesis using assms(1) by simp
next
  case False
  then show ?thesis using assms(1) by (simp add: find_None_iff [THEN iffD2])
qed

text \<open>The power of a sender does not depend on the order in which the concurrently fetched
  auth events arrive, when the event refers to at most one create event and one power level event.\<close>

lemma sender_power_arrival:
  assumes "fetch event_id = Some ev" "auths = List.map_filter fetch (pdu_auth_events ev)"
    and "set (arrive auths) = set auths"
    and "\<forall>x \<in> set auths. \<forall>y \<in> set auths. pdu_kind x = pdu_kind y \<and> pdu_kind x \<in> {RoomCreate, RoomPowerLevels} \<longrightarrow> x = y"
  shows "get_power_level_for_sender de arrive event_id rules fetch = get_power_level_for_sender de id event_id rules fetch"
proof -
  have f: "find (\<lambda>aev. is_type_and_key aev t '''') (arrive auths) = find (\<lambda>aev. is_type_and_key aev t '''') auths"
    if "t \<in> {RoomCreate, RoomPowerLevels}" for t
    by (rule find_unique [OF assms(3)]) (use assms(4) that in \<open>auto simp: is_type_and_key_def\<close>)
  have "sender_is_creator de ev rules (arrive auths) fetch = sender_is_creator de ev rules auths fetch"
    by (simp add: sender_is_creator_def f)
  then show ?thesis
    using assms(1) by (simp add: get_power_level_for_sender_def f assms(2) [symmetric] Let_def cong: if_cong)
qed

end
