(* ===== verification/Mainline.thy ===== *)
theory Mainline
  imports Auth_Graph
begin

text \<open>
  The second sort of state resolution, \<open>mainline_sort\<close> and \<open>get_mainline_depth\<close> of
  \<open>src/core/matrix/state_res/mod.rs\<close>: the mainline is the chain of power level events that
  starts at the resolved one; every other event is placed by the first mainline event on its own
  chain of power level events. The two loops follow chains of events; their result is
  \<^const>\<open>None\<close> when a chain never ends.
\<close>

section \<open>Following the power level events\<close>

text \<open>The loop over the auth events: the first that is a power level event.\<close>

fun next_power_event :: "event_fetch \<Rightarrow> string list \<Rightarrow> state_res_error + (string \<times> pdu) option" where
  "next_power_event fetch [] = Inr None"
| "next_power_event fetch (aid # aids) =
     (case fetch aid of
        None \<Rightarrow> Inl (NotFound (''Failed to find '' @ aid))
      | Some ev \<Rightarrow>
          if is_type_and_key ev RoomPowerLevels '''' then Inr (Some (aid, ev))
          else next_power_event fetch aids)"

partial_function (option) mainline_of ::
    "event_fetch \<Rightarrow> string option \<Rightarrow> string list \<Rightarrow> (state_res_error + string list) option" where
  "mainline_of fetch pl mainline =
     (case pl of
        None \<Rightarrow> Some (Inr mainline)
      | Some p \<Rightarrow>
          (case fetch p of
             None \<Rightarrow> Some (Inl (NotFound (''Failed to find '' @ p)))
           | Some ev \<Rightarrow>
               (case next_power_event fetch (pdu_auth_events ev) of
                  Inl e \<Rightarrow> Some (Inl e)
                | Inr pl \<Rightarrow> mainline_of fetch (map_option fst pl) (mainline @ [p]))))"

declare mainline_of.simps [code]

partial_function (option) get_mainline_depth ::
    "event_fetch \<Rightarrow> (string \<rightharpoonup> nat) \<Rightarrow> pdu option \<Rightarrow> (state_res_error + nat) option" where
  "get_mainline_depth fetch mainline_map ev =
     (case ev of
        None \<Rightarrow> Some (Inr 0)
      | Some sort_ev \<Rightarrow>
          (case mainline_map (pdu_event_id sort_ev) of
             Some depth \<Rightarrow> Some (Inr depth)
           | None \<Rightarrow>
               (case next_power_event fetch (pdu_auth_events sort_ev) of
                  Inl e \<Rightarrow> Some (Inl e)
                | Inr next \<Rightarrow> get_mainline_depth fetch mainline_map (map_option snd next))))"

declare get_mainline_depth.simps [code]

section \<open>The sort\<close>

text \<open>\<open>mainline.iter().rev().enumerate()\<close> collected into a map.\<close>

definition mainline_map :: "string list \<Rightarrow> string \<rightharpoonup> nat" where
  "mainline_map mainline = map_of (rev (zip (rev mainline) [0..<length mainline]))"

type_synonym order_entry = "string \<times> nat \<times> nat \<times> string"

text \<open>The entries of \<open>order_map\<close>; an event that is not found or whose depth fails has none.\<close>

fun order_entries ::
    "event_fetch \<Rightarrow> (string \<rightharpoonup> nat) \<Rightarrow> string list \<Rightarrow> order_entry list option" where
  "order_entries fetch mm [] = Some []"
| "order_entries fetch mm (ev_id # ev_ids) =
     (case fetch ev_id of
        None \<Rightarrow> order_entries fetch mm ev_ids
      | Some ev \<Rightarrow>
          (case get_mainline_depth fetch mm (Some ev) of
             None \<Rightarrow> None
           | Some (Inl e) \<Rightarrow> order_entries fetch mm ev_ids
           | Some (Inr depth) \<Rightarrow>
               map_option (\<lambda>entries. (ev_id, depth, pdu_origin_server_ts ev, ev_id) # entries)
                 (order_entries fetch mm ev_ids)))"

definition mainline_sort ::
    "event_fetch \<Rightarrow> string list \<Rightarrow> string option \<Rightarrow> (state_res_error + string list) option" where
  "mainline_sort fetch to_sort resolved_power_level =
     (if to_sort = [] then Some (Inr [])
      else
        (case mainline_of fetch resolved_power_level [] of
           None \<Rightarrow> None
         | Some (Inl e) \<Rightarrow> Some (Inl e)
         | Some (Inr mainline) \<Rightarrow>
             map_option (\<lambda>entries.
                 (let order_map = foldl (\<lambda>m (i, v). al_insert i v m) [] entries in
                  Inr (sort_key (\<lambda>i. the (map_of order_map i)) (map fst order_map))))
               (order_entries fetch (mainline_map mainline) to_sort)))"

section \<open>The order of the result\<close>

definition depth_of :: "event_fetch \<Rightarrow> string list \<Rightarrow> string \<Rightarrow> nat option" where
  "depth_of fetch mainline i =
     (case fetch i of
        None \<Rightarrow> None
      | Some ev \<Rightarrow>
          (case get_mainline_depth fetch (mainline_map mainline) (Some ev) of
             Some (Inr depth) \<Rightarrow> Some depth | _ \<Rightarrow> None))"

definition position :: "event_fetch \<Rightarrow> string list \<Rightarrow> string \<Rightarrow> nat \<times> nat \<times> string" where
  "position fetch mainline i =
     (the (depth_of fetch mainline i), pdu_origin_server_ts (the (fetch i)), i)"

lemma inj_position: "inj (position fetch mainline)"
  by (auto simp: inj_def position_def)

lemma order_entries_spec:
  "order_entries fetch (mainline_map ml) ids = Some entries \<Longrightarrow>
   entries = map (\<lambda>i. (i, position fetch ml i)) (filter (\<lambda>i. depth_of fetch ml i \<noteq> None) ids)"
  by (induction ids arbitrary: entries)
    (auto simp: depth_of_def position_def split: option.splits sum.splits)

lemma order_map_spec:
  "al_wf (foldl (\<lambda>m (i, v). al_insert i v m) [] (map (\<lambda>i. (i, f i)) ids)) \<and>
   map_of (foldl (\<lambda>m (i, v). al_insert i v m) [] (map (\<lambda>i. (i, f i)) ids)) = (\<lambda>i. if i \<in> set ids then Some (f i) else None)"
  by (induction ids rule: rev_induct) (auto simp: fun_eq_iff)

lemma sort_key_cong: "(\<And>x. x \<in> set xs \<Longrightarrow> f x = g x) \<Longrightarrow> sort_key f xs = sort_key g xs"
proof (induction xs)
  case (Cons x xs)
  have "insort_key f x ys = insort_key g x ys" if "set ys \<subseteq> set xs" for ys
    using that Cons.prems by (induction ys) auto
  with Cons show ?case by simp
qed simp

lemma sorted_key_unique:
  assumes "sorted (map f xs)" "sorted (map f ys)" "distinct xs" "distinct ys" "set xs = set ys" "inj f"
  shows "xs = ys"
proof -
  have "map f xs = map f ys"
    using assms by (intro sorted_distinct_set_unique) (auto simp: distinct_map intro: inj_on_subset)
  then show ?thesis using assms(6) by (simp add: inj_map_eq_map)
qed

lemma mainline_sort_value:
  assumes "to_sort \<noteq> []" "mainline_of fetch pl [] = Some (Inr ml)"
    "mainline_sort fetch to_sort pl = Some (Inr xs)"
  shows "distinct xs \<and> set xs = {i \<in> set to_sort. depth_of fetch ml i \<noteq> None} \<and> sorted (map (position fetch ml) xs)"
proof -
  define ids where "ids = filter (\<lambda>i. depth_of fetch ml i \<noteq> None) to_sort"
  define om where "om = foldl (\<lambda>m (i, v). al_insert i v m) [] (map (\<lambda>i. (i, position fetch ml i)) ids)"
  note om = order_map_spec [of "position fetch ml" ids, folded om_def]
  have "dom (map_of om) = set ids" using om by (auto simp: dom_def position_def)
  then have keys: "set (map fst om) = set ids" by (simp add: dom_map_of_conv_image_fst)
  obtain entries where "order_entries fetch (mainline_map ml) to_sort = Some entries"
    "Inr xs = (let order_map = foldl (\<lambda>m (i, v). al_insert i v m) [] entries in
       Inr (sort_key (\<lambda>i. the (map_of order_map i)) (map fst order_map)) :: state_res_error + string list)"
    using assms by (auto simp: mainline_sort_def)
  then have "xs = sort_key (\<lambda>i. the (map_of om i)) (map fst om)"
    using order_entries_spec [of fetch ml to_sort entries] by (simp add: om_def ids_def Let_def)
  also have "\<dots> = sort_key (position fetch ml) (map fst om)"
    using om keys by (intro sort_key_cong) auto
  finally have xs: "xs = sort_key (position fetch ml) (map fst om)" .
  then have "distinct xs" "set xs = set ids" using om keys by (simp_all add: distinct_sort)
  then show ?thesis using xs by (auto simp: ids_def)
qed

lemma order_entries_None:
  "order_entries fetch mm ids = None \<longleftrightarrow> (\<exists>i \<in> set ids. \<exists>ev. fetch i = Some ev \<and> get_mainline_depth fetch mm (Some ev) = None)"
  by (induction ids) (auto split: option.splits sum.splits)

section \<open>Chains that end\<close>

definition auth_rel :: "event_fetch \<Rightarrow> (string \<times> string) set" where
  "auth_rel fetch = {(b, a). b \<in> set (auth_ids fetch a)}"

lemma next_power_event_in:
  "next_power_event fetch aids = Inr (Some (a, ev)) \<Longrightarrow> a \<in> set aids \<and> fetch a = Some ev \<and> is_type_and_key ev RoomPowerLevels ''''"
  by (induction aids) (auto split: option.splits if_splits)

lemma mainline_of_ends:
  assumes "wf (auth_rel fetch)"
  shows "mainline_of fetch (Some p) acc \<noteq> None"
proof (induction p arbitrary: acc rule: wf_induct_rule [OF assms])
  case (1 p)
  show ?case
  proof (cases "fetch p")
    case None
    then show ?thesis by (subst mainline_of.simps) simp
  next
    case (Some ev)
    show ?thesis
    proof (cases "next_power_event fetch (pdu_auth_events ev)")
      case (Inl e)
      then show ?thesis using Some by (subst mainline_of.simps) simp
    next
      case (Inr r)
      show ?thesis
      proof (cases r)
        case None
        then show ?thesis using Some Inr
          by (subst mainline_of.simps) (simp add: mainline_of.simps [of fetch None])
      next
        case r: (Some ae)
        then have "(fst ae, p) \<in> auth_rel fetch"
          using Inr next_power_event_in [of fetch "pdu_auth_events ev" "fst ae" "snd ae"] Some
          by (simp add: auth_rel_def auth_ids_def)
        then show ?thesis using 1 r Some Inr by (subst mainline_of.simps) simp
      qed
    qed
  qed
qed

lemma get_mainline_depth_ends:
  assumes "wf (auth_rel fetch)"
  shows "fetch a = Some ev \<Longrightarrow> get_mainline_depth fetch mm (Some ev) \<noteq> None"
proof (induction a arbitrary: ev rule: wf_induct_rule [OF assms])
  case (1 a)
  show ?case
  proof (cases "mm (pdu_event_id ev)")
    case (Some d)
    then show ?thesis by (subst get_mainline_depth.simps) simp
  next
    case mm: None
    show ?thesis
    proof (cases "next_power_event fetch (pdu_auth_events ev)")
      case (Inl e)
      then show ?thesis using mm by (subst get_mainline_depth.simps) simp
    next
      case (Inr r)
      show ?thesis
      proof (cases r)
        case None
        then show ?thesis using mm Inr
          by (subst get_mainline_depth.simps) (simp add: get_mainline_depth.simps [of fetch mm None])
      next
        case r: (Some ae)
        then have ae: "fst ae \<in> set (pdu_auth_events ev)" "fetch (fst ae) = Some (snd ae)"
          using Inr next_power_event_in [of fetch "pdu_auth_events ev" "fst ae" "snd ae"] by simp_all
        then have "(fst ae, a) \<in> auth_rel fetch" using 1(2) by (simp add: auth_rel_def auth_ids_def)
        then show ?thesis using 1(1) ae(2) r mm Inr by (subst get_mainline_depth.simps) simp
      qed
    qed
  qed
qed

section \<open>Properties\<close>


lemma demo_mainline:
  "mainline_of demo_chain (Some ''$b'') [] = Some (Inr [''$b''])"
  by (simp add: mainline_of.simps demo_chain_def is_type_and_key_def)

lemma demo_depths:
  "get_mainline_depth demo_chain (mainline_map [''$b'']) (demo_chain ''$a'') = Some (Inr 0)"
  "get_mainline_depth demo_chain (mainline_map [''$b'']) (demo_chain ''$b'') = Some (Inr 0)"
  by (simp_all add: get_mainline_depth.simps demo_chain_def mainline_map_def)


text \<open>The order in which the events left to resolve are given, which comes from a hash set, has no
  influence on the mainline sort: two lists of the same events give the same result, error or
  divergence.\<close>

lemma mainline_sort_order_free:
  assumes "set to_sort = set to_sort'"
  shows "mainline_sort fetch to_sort pl = mainline_sort fetch to_sort' pl"
proof (cases "to_sort = []")
  case True
  then show ?thesis using assms by simp
next
  case False
  then have ne: "to_sort' \<noteq> []" using assms by auto
  show ?thesis
  proof (cases "\<exists>ml. mainline_of fetch pl [] = Some (Inr ml)")
    case True
    then obtain ml where ml: "mainline_of fetch pl [] = Some (Inr ml)" by blast
    show ?thesis
    proof (cases "order_entries fetch (mainline_map ml) to_sort")
      case None
      then have "order_entries fetch (mainline_map ml) to_sort' = None" using assms by (simp add: order_entries_None)
      with None show ?thesis using False ne ml by (simp add: mainline_sort_def)
    next
      case (Some es)
      then obtain es' where es': "order_entries fetch (mainline_map ml) to_sort' = Some es'"
        using assms by (metis order_entries_None not_None_eq)
      obtain xs ys where xs: "mainline_sort fetch to_sort pl = Some (Inr xs)"
        and ys: "mainline_sort fetch to_sort' pl = Some (Inr ys)"
        using False ne ml Some es' by (simp add: mainline_sort_def Let_def)
      have "xs = ys"
        using mainline_sort_value [OF False ml xs] mainline_sort_value [OF ne ml ys] assms
        by (intro sorted_key_unique [OF _ _ _ _ _ inj_position]) auto
      with xs ys show ?thesis by simp
    qed
  next
    case no: False
    then show ?thesis using False ne by (auto simp: mainline_sort_def split: option.splits sum.splits)
  qed
qed

text \<open>On auth chains that end, the mainline sort returns.\<close>

lemma mainline_sort_returns:
  assumes "wf (auth_rel fetch)"
  shows "\<exists>r. mainline_sort fetch to_sort pl = Some r"
proof -
  have "mainline_of fetch pl [] \<noteq> None"
    using mainline_of_ends [OF assms] by (cases pl) (auto simp: mainline_of.simps [of fetch None])
  moreover have "order_entries fetch mm to_sort \<noteq> None" for mm
    using get_mainline_depth_ends [OF assms] by (auto simp: order_entries_None)
  ultimately show ?thesis
    by (auto simp: mainline_sort_def split: option.splits sum.splits)
qed

text \<open>The numbering of the mainline. The events of the mainline are numbered from its oldest event,
  which has depth 0, up to the resolved power level event; an event with no power level event on
  its chain gets depth 0 as well, the same as the oldest mainline event.\<close>

lemma mainline_numbering:
  assumes "distinct ml"
  shows "(\<forall>j < length ml. mainline_map ml (ml ! j) = Some (length ml - 1 - j)) \<and>
         (next_power_event fetch (pdu_auth_events ev) = Inr None \<and> pdu_event_id ev \<notin> set ml \<longrightarrow>
            get_mainline_depth fetch (mainline_map ml) (Some ev) = Some (Inr 0))"
proof (intro conjI allI impI)
  have d: "distinct (map fst (rev (zip (rev ml) [0..<length ml])))" using assms by (simp add: rev_map [symmetric])
  fix j assume j: "j < length ml"
  have "(ml ! j, length ml - 1 - j) \<in> set (rev (zip (rev ml) [0..<length ml]))"
    using j by (auto simp: set_zip rev_nth intro!: exI [of _ "length ml - 1 - j"])
  then show "mainline_map ml (ml ! j) = Some (length ml - 1 - j)" using d by (simp add: mainline_map_def)
next
  assume a: "next_power_event fetch (pdu_auth_events ev) = Inr None \<and> pdu_event_id ev \<notin> set ml"
  have "mainline_map ml (pdu_event_id ev) = None"
    using a by (auto simp: mainline_map_def map_of_eq_None_iff dest: set_zip_leftD)
  then show "get_mainline_depth fetch (mainline_map ml) (Some ev) = Some (Inr 0)"
    using a by (subst get_mainline_depth.simps) (simp add: get_mainline_depth.simps [of _ _ None])
qed

end
