(* ===== verification/Conflicted_Subgraph.thy ===== *)
theory Conflicted_Subgraph
  imports State_Sets Auth_Graph
begin

text \<open>
  \<open>calculate_conflicted_subgraph\<close> of \<open>src/core/matrix/state_res/mod.rs\<close>: a depth-first walk along the
  auth events of the conflicted events that collects every event on a path from one conflicted
  event to another. The walk is shown to end, to collect only such events, and, when auth events
  form no cycle, to collect all of them. An event that cannot be fetched has no auth events here.
\<close>

section \<open>The conflicted subgraph\<close>

text \<open>The state of the depth-first walk: stacks have their top first, \<open>walk_path\<close> its start.\<close>

record walk =
  walk_subgraph :: "string set"
  walk_stack :: "string list list"
  walk_path :: "string list"
  walk_seen :: "string set"

fun next_event :: "string list list \<Rightarrow> string list \<Rightarrow> string option \<times> string list list \<times> string list" where
  "next_event [] path = (None, [], path)"
| "next_event ([] # stack) path = next_event stack (butlast path)"
| "next_event ((e # es) # stack) path = (Some (last (e # es)), butlast (e # es) # stack, path)"

definition visit ::
    "event_fetch \<Rightarrow> string set \<Rightarrow> walk \<Rightarrow> string \<Rightarrow> string list list \<Rightarrow> string list \<Rightarrow> walk" where
  "visit fetch conflicted_events w event_id stack path =
     (let here = path @ [event_id] in
      if event_id \<in> walk_subgraph w then
        w\<lparr>walk_subgraph := (if 1 < length here then walk_subgraph w \<union> set here else walk_subgraph w),
          walk_stack := stack, walk_path := path\<rparr>
      else
        (let w = w\<lparr>walk_subgraph := (if event_id \<in> conflicted_events \<and> 1 < length here
                                     then walk_subgraph w \<union> set here else walk_subgraph w)\<rparr> in
         if event_id \<in> walk_seen w then w\<lparr>walk_stack := stack, walk_path := path\<rparr>
         else (case fetch event_id of
                 None \<Rightarrow> w\<lparr>walk_stack := stack, walk_path := path\<rparr>
               | Some evt \<Rightarrow>
                   w\<lparr>walk_stack := pdu_auth_events evt # stack, walk_path := here,
                     walk_seen := insert event_id (walk_seen w)\<rparr>)))"

partial_function (option) walk_loop :: "event_fetch \<Rightarrow> string set \<Rightarrow> walk \<Rightarrow> string set option" where
  "walk_loop fetch conflicted_events w =
     (case next_event (walk_stack w) (walk_path w) of
        (None, _, _) \<Rightarrow> Some (walk_subgraph w)
      | (Some event_id, stack, path) \<Rightarrow>
          walk_loop fetch conflicted_events (visit fetch conflicted_events w event_id stack path))"

declare walk_loop.simps [code]

definition calculate_conflicted_subgraph ::
    "event_fetch \<Rightarrow> string list state_map \<Rightarrow> string set option" where
  "calculate_conflicted_subgraph fetch conflicted =
     (let conflicted_events = remdups (concat (map snd conflicted)) in
      walk_loop fetch (set conflicted_events)
        \<lparr>walk_subgraph = {}, walk_stack = [conflicted_events], walk_path = [], walk_seen = {}\<rparr>)"

section \<open>Paths along auth events\<close>

definition auth_step :: "event_fetch \<Rightarrow> (string \<times> string) set" where
  "auth_step fetch = {(a, b). b \<in> set (auth_ids fetch a)}"

text \<open>The events on an auth path of at least one step between two conflicted events.\<close>

definition between :: "event_fetch \<Rightarrow> string set \<Rightarrow> string set" where
  "between fetch C = {x. \<exists>a \<in> C. \<exists>b \<in> C. (a, x) \<in> (auth_step fetch)\<^sup>* \<and> (x, b) \<in> (auth_step fetch)\<^sup>* \<and>
     ((a, x) \<in> (auth_step fetch)\<^sup>+ \<or> (x, b) \<in> (auth_step fetch)\<^sup>+)}"

definition leads :: "event_fetch \<Rightarrow> string set \<Rightarrow> string \<Rightarrow> bool" where
  "leads fetch C y \<longleftrightarrow> (\<exists>b \<in> C. (y, b) \<in> (auth_step fetch)\<^sup>*)"

lemma leads_step: "(x, y) \<in> auth_step fetch \<Longrightarrow> leads fetch C y \<Longrightarrow> leads fetch C x"
  by (meson converse_rtrancl_into_rtrancl leads_def)

section \<open>The loop ends\<close>

lemma next_event_size:
  "next_event st path = (Some e, st', path') \<Longrightarrow> sum_list (map length st') < sum_list (map length st)"
  by (induction st path rule: next_event.induct) auto

definition walk_left :: "event_fetch \<Rightarrow> walk \<Rightarrow> nat \<times> nat" where
  "walk_left fetch w = (card ({i. fetch i \<noteq> None} - walk_seen w), sum_list (map length (walk_stack w)))"

lemma visit_less:
  assumes "finite {i. fetch i \<noteq> None}" "next_event (walk_stack w) (walk_path w) = (Some e, st, path)"
  shows "(walk_left fetch (visit fetch C w e st path), walk_left fetch w) \<in> less_than <*lex*> less_than"
proof -
  note less = next_event_size [OF assms(2)]
  show ?thesis
  proof (cases "e \<in> walk_subgraph w \<or> e \<in> walk_seen w \<or> fetch e = None")
    case True
    then show ?thesis using less by (auto simp: walk_left_def visit_def Let_def)
  next
    case False
    let ?F = "{i. fetch i \<noteq> None}"
    have "card (?F - insert e (walk_seen w)) < card (?F - walk_seen w)"
      using assms(1) False by (intro psubset_card_mono) auto
    then show ?thesis using False by (auto simp: walk_left_def visit_def Let_def)
  qed
qed

text \<open>The rule for the loop: an invariant that every visit keeps holds when the walk returns, and it
  returns.\<close>

lemma walk_loop_rule:
  assumes fin: "finite {i. fetch i \<noteq> None}" and "I w"
    and step: "\<And>w e st path. I w \<Longrightarrow> next_event (walk_stack w) (walk_path w) = (Some e, st, path) \<Longrightarrow>
                 I (visit fetch C w e st path)"
    and final: "\<And>w st path. I w \<Longrightarrow> next_event (walk_stack w) (walk_path w) = (None, st, path) \<Longrightarrow> Q (walk_subgraph w)"
  shows "\<exists>S. walk_loop fetch C w = Some S \<and> Q S"
  using \<open>I w\<close>
proof (induction "walk_left fetch w" arbitrary: w rule: wf_induct_rule [OF wf_lex_prod [OF wf_less_than wf_less_than]])
  case 1
  obtain r st path where n: "next_event (walk_stack w) (walk_path w) = (r, st, path)"
    by (cases "next_event (walk_stack w) (walk_path w)")
  show ?case
  proof (cases r)
    case None
    then show ?thesis using final [OF 1(2)] n by (simp add: walk_loop.simps)
  next
    case (Some e)
    with n have n: "next_event (walk_stack w) (walk_path w) = (Some e, st, path)" by simp
    from 1(1) [OF visit_less [OF fin n] step [OF 1(2) n]] show ?thesis by (simp add: walk_loop.simps [of _ _ w] n)
  qed
qed

section \<open>Only events between conflicted events are collected\<close>

text \<open>The walk's frames, top first, and its path, end first: a frame holds auth events of the path
  element it belongs to, the last frame conflicted events; a path element was taken from the
  frame below its own.\<close>

fun path_frames :: "event_fetch \<Rightarrow> string set \<Rightarrow> string list list \<Rightarrow> string list \<Rightarrow> bool" where
  "path_frames fetch C [] [] = True"
| "path_frames fetch C [s] [] = (set s \<subseteq> C)"
| "path_frames fetch C (s # t # st) (q # qs) =
     (set s \<subseteq> set (auth_ids fetch q) \<and> path_frames fetch C ((q # t) # st) qs)"
| "path_frames fetch C _ _ = False"

lemma path_frames_mono: "path_frames fetch C (s # st) qs \<Longrightarrow> set t \<subseteq> set s \<Longrightarrow> path_frames fetch C (t # st) qs"
  by (cases "(fetch, C, s # st, qs)" rule: path_frames.cases) auto

lemma path_frames_pop: "path_frames fetch C ([] # st) qs \<Longrightarrow> path_frames fetch C st (tl qs)"
  by (cases "(fetch, C, [] # st, qs)" rule: path_frames.cases) (auto dest: path_frames_mono)

lemma rev_butlast: "rev (butlast xs) = tl (rev xs)"
  by (metis butlast_rev rev_rev_ident rev_swap)

lemma next_event_frames:
  "next_event st path = (r, st', path') \<Longrightarrow> path_frames fetch C st (rev path) \<Longrightarrow>
   (case r of None \<Rightarrow> path_frames fetch C st' (rev path')
    | Some e \<Rightarrow> \<exists>s u. st' = s # u \<and> path_frames fetch C ((e # s) # u) (rev path'))"
proof (induction st path rule: next_event.induct)
  case (2 stack path)
  then show ?case by (auto simp: rev_butlast dest: path_frames_pop)
next
  case (3 e es stack path)
  have "set (last (e # es) # butlast (e # es)) \<subseteq> set (e # es)"
    by (metis append_butlast_last_id list.distinct(1) list.set(2) rotate1.simps(2) set_rotate1 subset_refl)
  with 3(2) have "path_frames fetch C ((last (e # es) # butlast (e # es)) # stack) (rev path)"
    by (rule path_frames_mono)
  with 3(1) show ?case by auto
qed auto

text \<open>Every path element is reached from a conflicted event and reaches the elements after it.\<close>

lemma path_frames_reach:
  "path_frames fetch C ((e # s) # u) qs \<Longrightarrow> x \<in> set qs \<Longrightarrow>
   (x, e) \<in> (auth_step fetch)\<^sup>+ \<and> (\<exists>a \<in> C. (a, x) \<in> (auth_step fetch)\<^sup>*)"
  "path_frames fetch C ((e # s) # u) qs \<Longrightarrow> (qs = [] \<and> e \<in> C) \<or> (\<exists>a \<in> C. (a, e) \<in> (auth_step fetch)\<^sup>+)"
proof (induction qs arbitrary: e s u x)
  case Nil
  { case 1 then show ?case by simp }
  { case 2 then show ?case by (cases u) auto }
next
  case (Cons q qs)
  have split: "\<exists>t st. (q, e) \<in> auth_step fetch \<and> path_frames fetch C ((q # t) # st) qs"
    if "path_frames fetch C ((e # s) # u) (q # qs)" for e s u
    using that by (cases u) (auto simp: auth_step_def)
  { case 1
    then obtain t st where qe: "(q, e) \<in> auth_step fetch" and fr: "path_frames fetch C ((q # t) # st) qs"
      using split [of e s u] by blast
    have "\<exists>a \<in> C. (a, q) \<in> (auth_step fetch)\<^sup>*" using Cons(2) [OF fr] by (auto dest: trancl_into_rtrancl)
    then show ?case using 1(2) qe Cons(1) [OF fr, of x] by (auto intro: trancl_into_trancl) }
  { case 2
    then obtain t st where qe: "(q, e) \<in> auth_step fetch" and fr: "path_frames fetch C ((q # t) # st) qs"
      using split [of e s u] by blast
    then show ?case using Cons(2) [OF fr] by (auto intro: trancl_into_trancl) }
qed

lemma between_iff_leads:
  "x \<in> between fetch C \<longleftrightarrow>
   (\<exists>a \<in> C. (a, x) \<in> (auth_step fetch)\<^sup>+) \<and> leads fetch C x \<or>
   (\<exists>a \<in> C. (a, x) \<in> (auth_step fetch)\<^sup>*) \<and> (\<exists>b \<in> C. (x, b) \<in> (auth_step fetch)\<^sup>+)"
  unfolding between_def leads_def using trancl_into_rtrancl [of _ _ "auth_step fetch"] by blast

text \<open>A visit adds the path and the event only when the event is between conflicted events and leads
  to one.\<close>

lemma path_between:
  assumes "path_frames fetch C ((e # s) # u) qs" "qs \<noteq> []" "leads fetch C e" "x \<in> insert e (set qs)"
  shows "x \<in> between fetch C"
proof (cases "x = e")
  case True
  then show ?thesis using path_frames_reach(2) [OF assms(1)] assms(2,3) by (auto simp: between_iff_leads)
next
  case False
  then have "(x, e) \<in> (auth_step fetch)\<^sup>+" "\<exists>a \<in> C. (a, x) \<in> (auth_step fetch)\<^sup>*"
    using path_frames_reach(1) [OF assms(1)] assms(4) by auto
  then show ?thesis using assms(3) by (auto simp: between_iff_leads leads_def intro: trancl_rtrancl_trancl)
qed

definition walk_sound :: "event_fetch \<Rightarrow> string set \<Rightarrow> walk \<Rightarrow> bool" where
  "walk_sound fetch C w \<longleftrightarrow> path_frames fetch C (walk_stack w) (rev (walk_path w)) \<and> walk_subgraph w \<subseteq> between fetch C"

lemma visit_sound:
  assumes "walk_sound fetch C w" "next_event (walk_stack w) (walk_path w) = (Some e, st, path)"
  shows "walk_sound fetch C (visit fetch C w e st path)"
proof -
  obtain s u where st: "st = s # u" "path_frames fetch C ((e # s) # u) (rev path)"
    using next_event_frames [OF assms(2), of fetch C] assms(1) by (auto simp: walk_sound_def)
  have sub: "walk_subgraph w \<subseteq> between fetch C" using assms(1) by (simp add: walk_sound_def)
  have keep: "path_frames fetch C st (rev path)" using st by (auto intro: path_frames_mono)
  have push: "path_frames fetch C (auth_ids fetch e # st) (e # rev path)" using st by simp
  have leads: "leads fetch C e" if "e \<in> walk_subgraph w \<or> e \<in> C"
    using that sub by (auto simp: leads_def between_def)
  have add: "set (path @ [e]) \<subseteq> between fetch C" if "e \<in> walk_subgraph w \<or> e \<in> C" "path \<noteq> []"
    using path_between [OF st(2) _ leads [OF that(1)]] that(2) by auto
  show ?thesis
    using sub keep push add
    by (auto simp: walk_sound_def visit_def Let_def auth_ids_def split: option.splits)
qed

section \<open>Every event between conflicted events is collected\<close>

definition known :: "event_fetch \<Rightarrow> string set \<Rightarrow> string \<Rightarrow> bool" where
  "known fetch seen y \<longleftrightarrow> y \<in> seen \<or> fetch y = None"

text \<open>The auth event \<open>y\<close> of \<open>q\<close> has been dealt with.\<close>

definition settled :: "event_fetch \<Rightarrow> string set \<Rightarrow> string set \<Rightarrow> string set \<Rightarrow> string \<Rightarrow> string \<Rightarrow> bool" where
  "settled fetch C sub seen q y \<longleftrightarrow>
     known fetch seen y \<and> (y \<in> C \<longrightarrow> y \<in> sub) \<and> (leads fetch C y \<longrightarrow> q \<in> sub)"

lemma settled_mono: "settled fetch C sub seen q y \<Longrightarrow> sub \<subseteq> sub' \<Longrightarrow> seen \<subseteq> seen' \<Longrightarrow> settled fetch C sub' seen' q y"
  by (auto simp: settled_def known_def)

definition settled_under ::
    "event_fetch \<Rightarrow> string set \<Rightarrow> string set \<Rightarrow> string set \<Rightarrow> string list \<Rightarrow> string \<Rightarrow> bool" where
  "settled_under fetch C sub seen qs y =
     (case qs of [] \<Rightarrow> known fetch seen y | q # _ \<Rightarrow> settled fetch C sub seen q y)"

fun done_frames ::
    "event_fetch \<Rightarrow> string set \<Rightarrow> string set \<Rightarrow> string set \<Rightarrow> string list list \<Rightarrow> string list \<Rightarrow> bool" where
  "done_frames fetch C sub seen [] [] = (\<forall>c \<in> C. known fetch seen c)"
| "done_frames fetch C sub seen [s] [] = (\<forall>c \<in> C - set s. known fetch seen c)"
| "done_frames fetch C sub seen (s # t # st) (q # qs) =
     (q \<in> seen \<and> q \<notin> set qs \<and> (\<forall>y \<in> set (auth_ids fetch q) - set s. settled fetch C sub seen q y) \<and>
      (qs \<noteq> [] \<longrightarrow> (q \<in> C \<longrightarrow> q \<in> sub) \<and> (q \<in> sub \<longrightarrow> hd qs \<in> sub)) \<and>
      done_frames fetch C sub seen ((q # t) # st) qs)"
| "done_frames fetch C sub seen _ _ = False"

lemma done_frames_mono:
  assumes "done_frames fetch C sub seen st qs" "sub \<subseteq> sub'" "seen \<subseteq> seen'"
    and "set qs \<subseteq> sub' \<or> sub' \<inter> set qs = sub \<inter> set qs"
  shows "done_frames fetch C sub' seen' st qs"
  using assms
proof (induction fetch C sub seen st qs rule: done_frames.induct)
  case (3 fetch C sub seen s t st q qs)
  then have "done_frames fetch C sub' seen' ((q # t) # st) qs" by auto
  moreover have "settled fetch C sub' seen' q y" if "y \<in> set (auth_ids fetch q) - set s" for y
    using that 3 by (auto intro: settled_mono)
  moreover have "hd qs \<in> sub'" if "qs \<noteq> []" "q \<in> sub'"
    using that 3 hd_in_set [OF that(1)] by auto
  ultimately show ?case using 3 by auto
qed (auto simp: known_def)

lemma done_frames_take:
  "done_frames fetch C sub seen ((e # s) # u) qs \<Longrightarrow> settled_under fetch C sub seen qs e \<Longrightarrow>
   done_frames fetch C sub seen (s # u) qs"
  by (cases "(fetch, C, s # u, qs)" rule: path_frames.cases) (auto simp: settled_under_def)

lemma done_frames_same: "done_frames fetch C sub seen (s # u) qs \<Longrightarrow> set s \<subseteq> set t \<Longrightarrow> done_frames fetch C sub seen (t # u) qs"
  by (cases "(fetch, C, s # u, qs)" rule: path_frames.cases) auto

lemma done_frames_seen: "done_frames fetch C sub seen st qs \<Longrightarrow> set qs \<subseteq> seen"
  by (induction fetch C sub seen st qs rule: done_frames.induct) auto

text \<open>Events that left the path have all their auth events dealt with.\<close>

definition walk_complete :: "event_fetch \<Rightarrow> string set \<Rightarrow> string set \<Rightarrow> string set \<Rightarrow> string list list \<Rightarrow> string list \<Rightarrow> bool" where
  "walk_complete fetch C sub seen st qs \<longleftrightarrow>
     path_frames fetch C st qs \<and> done_frames fetch C sub seen st qs \<and> (\<forall>x \<in> sub. known fetch seen x) \<and>
     (\<forall>x \<in> seen - set qs. \<forall>y \<in> set (auth_ids fetch x). settled fetch C sub seen x y)"

lemma leads_cases: "leads fetch C x \<Longrightarrow> x \<in> C \<or> (\<exists>y \<in> set (auth_ids fetch x). leads fetch C y)"
  unfolding leads_def auth_step_def by (metis (no_types, lifting) case_prodD converse_rtranclE mem_Collect_eq)

lemma walk_complete_pop:
  assumes "walk_complete fetch C sub seen ([] # st) qs"
  shows "walk_complete fetch C sub seen st (tl qs)"
proof (cases qs)
  case Nil
  then show ?thesis using assms by (cases st) (auto simp: walk_complete_def)
next
  case (Cons q qs')
  then obtain t st' where st: "st = t # st'" using assms by (cases st) (auto simp: walk_complete_def)
  have fr: "q \<in> seen" "q \<notin> set qs'" "\<forall>y \<in> set (auth_ids fetch q). settled fetch C sub seen q y"
    "qs' \<noteq> [] \<longrightarrow> (q \<in> C \<longrightarrow> q \<in> sub) \<and> (q \<in> sub \<longrightarrow> hd qs' \<in> sub)"
    "done_frames fetch C sub seen ((q # t) # st') qs'"
    using assms by (auto simp: walk_complete_def Cons st)
  have "q \<in> sub" if "leads fetch C q" "qs' \<noteq> []"
    using leads_cases [OF that(1)] fr(3,4) that(2) by (auto simp: settled_def)
  then have "settled_under fetch C sub seen qs' q"
    using fr(1,4) by (auto simp: settled_under_def settled_def known_def split: list.splits)
  with fr(5) have "done_frames fetch C sub seen st qs'" unfolding st by (rule done_frames_take)
  moreover have "path_frames fetch C st qs'"
    using assms path_frames_pop [of fetch C st qs] by (simp add: walk_complete_def Cons)
  ultimately show ?thesis using assms fr(2,3) by (auto simp: walk_complete_def Cons)
qed

lemma next_event_complete:
  "next_event st path = (r, st', path') \<Longrightarrow> walk_complete fetch C sub seen st (rev path) \<Longrightarrow>
   (case r of None \<Rightarrow> walk_complete fetch C sub seen [] []
    | Some e \<Rightarrow> \<exists>s u. st' = s # u \<and> walk_complete fetch C sub seen ((e # s) # u) (rev path'))"
proof (induction st path rule: next_event.induct)
  case (1 path)
  then show ?case by (cases "rev path") (auto simp: walk_complete_def)
next
  case (2 stack path)
  then show ?case using walk_complete_pop [OF 2(3)] by (simp add: rev_butlast)
next
  case (3 e es stack path)
  have eq: "set (last (e # es) # butlast (e # es)) = set (e # es)"
    by (metis append_butlast_last_id list.distinct(1) list.set(2) rotate1.simps(2) set_rotate1)
  from 3(2) have "walk_complete fetch C sub seen ((last (e # es) # butlast (e # es)) # stack) (rev path)"
    using path_frames_mono [of fetch C "e # es" stack "rev path"]
      done_frames_same [of fetch C sub seen "e # es" stack "rev path"] eq
    unfolding walk_complete_def by (metis subset_refl)
  with 3(1) show ?case by auto
qed

lemma not_on_path:
  "acyclic (auth_step fetch) \<Longrightarrow> path_frames fetch C ((e # s) # u) qs \<Longrightarrow> e \<notin> set qs"
  using path_frames_reach(1) [of fetch C e s u qs e] by (auto simp: acyclic_def)

text \<open>An event that is taken from a frame and not pushed is dealt with.\<close>

lemma taken_settled:
  assumes "acyclic (auth_step fetch)" "walk_complete fetch C sub seen ((e # s) # u) qs"
    and "known fetch seen e" "qs \<noteq> [] \<Longrightarrow> e \<in> C \<or> e \<in> sub \<Longrightarrow> insert e (set qs) \<subseteq> sub'" "sub \<subseteq> sub'"
  shows "settled_under fetch C sub' seen qs e"
proof (cases qs)
  case Nil
  then show ?thesis using assms(3) by (simp add: settled_under_def)
next
  case (Cons q qs')
  have "e \<notin> set qs" using not_on_path assms(1,2) unfolding walk_complete_def by blast
  have "e \<in> C \<or> e \<in> sub" if l: "leads fetch C e"
  proof (rule ccontr)
    assume n: "\<not> ?thesis"
    then obtain y where y: "y \<in> set (auth_ids fetch e)" "leads fetch C y" using leads_cases [OF l] by blast
    then have "e \<in> seen" using assms(3) by (auto simp: known_def auth_ids_def)
    with \<open>e \<notin> set qs\<close> y have "settled fetch C sub seen e y" using assms(2) by (auto simp: walk_complete_def)
    then show False using y n by (simp add: settled_def)
  qed
  then show ?thesis using assms(3,4) Cons by (auto simp: settled_under_def settled_def)
qed

lemma walk_complete_grow:
  assumes "walk_complete fetch C sub seen ((e # s) # u) qs"
    and "sub' = sub \<or> sub' = sub \<union> insert e (set qs)" "seen \<subseteq> seen'" "seen' \<subseteq> insert e seen" "e \<notin> set qs"
  shows "done_frames fetch C sub' seen' ((e # s) # u) qs"
    "\<forall>x \<in> seen - set qs. \<forall>y \<in> set (auth_ids fetch x). settled fetch C sub' seen' x y"
proof -
  have sub: "sub \<subseteq> sub'" "set qs \<subseteq> sub' \<or> sub' \<inter> set qs = sub \<inter> set qs" using assms(2) by auto
  then show "done_frames fetch C sub' seen' ((e # s) # u) qs"
    using assms(1,3) by (auto simp: walk_complete_def intro: done_frames_mono)
  show "\<forall>x \<in> seen - set qs. \<forall>y \<in> set (auth_ids fetch x). settled fetch C sub' seen' x y"
    using assms(1,3) sub(1) settled_mono unfolding walk_complete_def by metis
qed

lemma walk_complete_skip:
  assumes "acyclic (auth_step fetch)" "walk_complete fetch C sub seen ((e # s) # u) qs" "known fetch seen e"
    and "sub' = (if qs \<noteq> [] \<and> (e \<in> C \<or> e \<in> sub) then sub \<union> insert e (set qs) else sub)"
  shows "walk_complete fetch C sub' seen (s # u) qs"
proof -
  have fr: "path_frames fetch C ((e # s) # u) qs" using assms(2) by (simp add: walk_complete_def)
  have grow: "done_frames fetch C sub' seen ((e # s) # u) qs"
    "\<forall>x \<in> seen - set qs. \<forall>y \<in> set (auth_ids fetch x). settled fetch C sub' seen x y"
    using walk_complete_grow [OF assms(2) _ subset_refl subset_insertI not_on_path [OF assms(1) fr], of sub'] assms(4)
    by auto
  have "settled_under fetch C sub' seen qs e"
    by (rule taken_settled [OF assms(1-3)]) (auto simp: assms(4))
  then have "done_frames fetch C sub' seen (s # u) qs" by (rule done_frames_take [OF grow(1)])
  moreover have "\<forall>x \<in> sub'. known fetch seen x"
    using assms(2-4) done_frames_seen [of fetch C sub seen "(e # s) # u" qs] by (auto simp: walk_complete_def known_def)
  moreover have "path_frames fetch C (s # u) qs" using fr by (auto intro: path_frames_mono)
  ultimately show ?thesis using grow(2) by (simp add: walk_complete_def)
qed

lemma walk_complete_push:
  assumes "acyclic (auth_step fetch)" "walk_complete fetch C sub seen ((e # s) # u) qs" "e \<notin> sub"
    and "sub' = (if qs \<noteq> [] \<and> e \<in> C then sub \<union> insert e (set qs) else sub)"
  shows "walk_complete fetch C sub' (insert e seen) (auth_ids fetch e # s # u) (e # qs)"
proof -
  have fr: "path_frames fetch C ((e # s) # u) qs" using assms(2) by (simp add: walk_complete_def)
  note out = not_on_path [OF assms(1) fr]
  have grow: "done_frames fetch C sub' (insert e seen) ((e # s) # u) qs"
    "\<forall>x \<in> seen - set qs. \<forall>y \<in> set (auth_ids fetch x). settled fetch C sub' (insert e seen) x y"
    using walk_complete_grow [OF assms(2) _ subset_insertI subset_refl out, of sub'] assms(4) by auto
  have "e \<in> sub' \<longrightarrow> hd qs \<in> sub'" if "qs \<noteq> []" using that assms(3,4) hd_in_set [OF that] by auto
  with grow(1) out have "done_frames fetch C sub' (insert e seen) (auth_ids fetch e # s # u) (e # qs)"
    by (simp add: assms(4))
  moreover have "\<forall>x \<in> sub'. known fetch (insert e seen) x"
    using assms(2,4) done_frames_seen [of fetch C sub seen "(e # s) # u" qs] by (auto simp: walk_complete_def known_def)
  ultimately show ?thesis using grow(2) fr by (auto simp: walk_complete_def)
qed

lemma visit_complete:
  assumes "acyclic (auth_step fetch)" "next_event (walk_stack w) (walk_path w) = (Some e, st, path)"
    and "walk_complete fetch C (walk_subgraph w) (walk_seen w) (walk_stack w) (rev (walk_path w))"
  defines "w' \<equiv> visit fetch C w e st path"
  shows "walk_complete fetch C (walk_subgraph w') (walk_seen w') (walk_stack w') (rev (walk_path w'))"
proof -
  obtain s u where st: "st = s # u"
    and wc: "walk_complete fetch C (walk_subgraph w) (walk_seen w) ((e # s) # u) (rev path)"
    using next_event_complete [OF assms(2,3)] by auto
  have known: "known fetch (walk_seen w) e" if "e \<in> walk_subgraph w" using that wc by (simp add: walk_complete_def)
  show ?thesis
  proof (cases "e \<in> walk_subgraph w \<or> e \<in> walk_seen w \<or> fetch e = None")
    case True
    then have k: "known fetch (walk_seen w) e" using known by (auto simp: known_def)
    show ?thesis using True walk_complete_skip [OF assms(1) wc k refl]
      by (auto simp: w'_def visit_def Let_def st split: option.splits)
  next
    case False
    then show ?thesis using walk_complete_push [OF assms(1) wc _ refl]
      by (auto simp: w'_def visit_def Let_def st auth_ids_def)
  qed
qed

text \<open>When the walk is over, every event between conflicted events is in the subgraph.\<close>

lemma walk_complete_end:
  assumes "walk_complete fetch C sub seen [] []"
  shows "between fetch C \<subseteq> sub"
proof
  fix x assume "x \<in> between fetch C"
  have seen: "settled fetch C sub seen x y" if "(x, y) \<in> auth_step fetch" "known fetch seen x" for x y
  proof -
    have y: "y \<in> set (auth_ids fetch x)" using that(1) by (simp add: auth_step_def)
    then have "x \<in> seen" using that(2) by (auto simp: known_def auth_ids_def)
    then show ?thesis using y assms by (simp add: walk_complete_def)
  qed
  have reach: "known fetch seen x" if "(a, x) \<in> (auth_step fetch)\<^sup>*" "a \<in> C" for a x
    using that
  proof (induction rule: rtrancl_induct)
    case base
    then show ?case using assms by (simp add: walk_complete_def)
  next
    case (step y z)
    from seen [OF step(2) step.IH [OF step.prems]] show ?case by (simp add: settled_def)
  qed
  have inner: "x \<in> sub" if "(a, x) \<in> (auth_step fetch)\<^sup>*" "a \<in> C" "(x, y) \<in> auth_step fetch" "leads fetch C y" for a y
    using seen [OF that(3) reach [OF that(1,2)]] that(4) by (simp add: settled_def)
  from \<open>x \<in> between fetch C\<close> consider
    (last) a where "a \<in> C" "(a, x) \<in> (auth_step fetch)\<^sup>+" "leads fetch C x"
  | (inner) a b where "a \<in> C" "(a, x) \<in> (auth_step fetch)\<^sup>*" "b \<in> C" "(x, b) \<in> (auth_step fetch)\<^sup>+"
    by (auto simp: between_iff_leads)
  then show "x \<in> sub"
  proof cases
    case last
    obtain p where p: "(a, p) \<in> (auth_step fetch)\<^sup>*" "(p, x) \<in> auth_step fetch" using last(2) by (meson tranclD2)
    show ?thesis
    proof (cases "x \<in> C")
      case True
      then show ?thesis using seen [OF p(2) reach [OF p(1) last(1)]] by (simp add: settled_def)
    next
      case False
      then obtain y where "y \<in> set (auth_ids fetch x)" "leads fetch C y" using leads_cases [OF last(3)] by blast
      then show ?thesis using inner [of a y] last(1,2) by (auto simp: auth_step_def dest: trancl_into_rtrancl)
    qed
  next
    case inner
    obtain y where "(x, y) \<in> auth_step fetch" "(y, b) \<in> (auth_step fetch)\<^sup>*" using inner(4) by (meson tranclD)
    then show ?thesis using \<open>\<And>y a. (a, x) \<in> (auth_step fetch)\<^sup>* \<Longrightarrow> a \<in> C \<Longrightarrow> (x, y) \<in> auth_step fetch \<Longrightarrow> leads fetch C y \<Longrightarrow> x \<in> sub\<close>
      inner(1-3) by (auto simp: leads_def)
  qed
qed

lemma calculate_conflicted_subgraph_spec:
  assumes "finite {i. fetch i \<noteq> None}"
  shows "\<exists>S. calculate_conflicted_subgraph fetch conflicted = Some S \<and>
    S \<subseteq> between fetch (set (concat (map snd conflicted))) \<and>
    (acyclic (auth_step fetch) \<longrightarrow> S = between fetch (set (concat (map snd conflicted))))"
proof -
  define ids where "ids = remdups (concat (map snd conflicted))"
  define w where "w = \<lparr>walk_subgraph = {}, walk_stack = [ids], walk_path = [], walk_seen = {}\<rparr>"
  define C where "C = set (concat (map snd conflicted))"
  have C: "set ids = C" by (simp add: ids_def C_def)
  define complete where "complete w \<longleftrightarrow>
    walk_complete fetch C (walk_subgraph w) (walk_seen w) (walk_stack w) (rev (walk_path w))" for w :: walk
  let ?I = "\<lambda>w. walk_sound fetch C w \<and> (acyclic (auth_step fetch) \<longrightarrow> complete w)"
  let ?Q = "\<lambda>S. S \<subseteq> between fetch C \<and> (acyclic (auth_step fetch) \<longrightarrow> S = between fetch C)"
  have "\<exists>S. walk_loop fetch C w = Some S \<and> ?Q S"
  proof (rule walk_loop_rule [where I = ?I and Q = ?Q, OF assms])
    show "?I w" by (auto simp: w_def walk_sound_def complete_def walk_complete_def C)
  next
    fix w e st path
    assume I: "?I w" and n: "next_event (walk_stack w) (walk_path w) = (Some e, st, path)"
    show "?I (visit fetch C w e st path)"
      using visit_sound [OF _ n] visit_complete [OF _ n] I unfolding complete_def by blast
  next
    fix w st path
    assume I: "?I w" and n: "next_event (walk_stack w) (walk_path w) = (None, st, path)"
    have "between fetch C \<subseteq> walk_subgraph w" if "acyclic (auth_step fetch)"
      using next_event_complete [OF n, of fetch C "walk_subgraph w" "walk_seen w"] I that
      by (auto simp: complete_def intro: walk_complete_end [THEN subsetD])
    then show "?Q (walk_subgraph w)" using I by (auto simp: walk_sound_def)
  qed
  moreover have "calculate_conflicted_subgraph fetch conflicted = walk_loop fetch C w"
    unfolding calculate_conflicted_subgraph_def Let_def w_def ids_def [symmetric] C ..
  ultimately show ?thesis unfolding C_def by metis
qed

lemma conflicted_subgraph_ends:
  "finite {i. fetch i \<noteq> None} \<Longrightarrow> \<exists>S. calculate_conflicted_subgraph fetch conflicted = Some S"
  using calculate_conflicted_subgraph_spec by blast

section \<open>Properties\<close>

text \<open>C13: the conflicted subgraph. When finitely many events can be fetched, the depth-first walk ends
  and returns only events that lie on an auth path of at least one step from one conflicted event to
  another; when no event is its own auth ancestor, it returns all of them.\<close>

theorem conflicted_subgraph_exact:
  assumes "finite {i. fetch i \<noteq> None}"
  shows "\<exists>S. calculate_conflicted_subgraph fetch conflicted = Some S \<and>
    S \<subseteq> between fetch (set (concat (map snd conflicted))) \<and>
    (acyclic (auth_step fetch) \<longrightarrow> S = between fetch (set (concat (map snd conflicted))))"
  by (rule calculate_conflicted_subgraph_spec [OF assms])

theorem conflicted_subgraph_exact_witness:
  "calculate_conflicted_subgraph demo_chain [((RoomJoinRules, ''''), [''$a'', ''$b''])] = Some {''$a'', ''$b''}"
proof -
  have rel: "auth_step demo_chain = {(''$b'', ''$a'')}"
    by (auto simp: auth_step_def auth_ids_def demo_chain_def split: if_splits)
  have tr: "(auth_step demo_chain)\<^sup>+ = {(''$b'', ''$a'')}"
    unfolding rel by (rule trancl_id) (auto simp: trans_def)
  have "acyclic (auth_step demo_chain)" by (simp add: acyclic_def tr)
  moreover have "finite {i. demo_chain i \<noteq> None}"
    by (rule finite_subset [of _ "{''$a'', ''$b''}"]) (auto simp: demo_chain_def)
  moreover have "between demo_chain {''$a'', ''$b''} = {''$a'', ''$b''}"
    unfolding between_def by (auto simp: rtrancl_eq_or_trancl tr)
  ultimately show ?thesis
    using conflicted_subgraph_exact [of demo_chain "[((RoomJoinRules, ''''), [''$a'', ''$b''])]"] by auto
qed

end
