(* ===== verification/State_Res.thy ===== *)
theory State_Res
  imports Conflicted_Subgraph Mainline Event_Auth
begin

text \<open>
  The iterative authorization of sorted events and the whole of state resolution:
  \<open>iterative_auth_check\<close>, \<open>is_power_event\<close>, \<open>calculate_conflicted_subgraph\<close> and
  \<open>resolve\<close> of \<open>src/core/matrix/state_res/mod.rs\<close>. Events that are fetched concurrently
  (\<open>broad_and_then\<close> keeps no order) come in the order \<open>arrive\<close> gives; a resolution that does
  not end is \<^const>\<open>None\<close>.
\<close>

section \<open>Power events\<close>

definition is_power_event :: "decoders \<Rightarrow> pdu \<Rightarrow> bool" where
  "is_power_event de ev =
     (if pdu_kind ev \<in> {RoomPowerLevels, RoomJoinRules, RoomCreate} then pdu_state_key ev = Some ''''
      else if pdu_kind ev = RoomMember then
        (case de_member_content de (pdu_content ev) of
           Some membership \<Rightarrow>
             if membership \<in> {Leave, Ban} then Some (pdu_sender ev) \<noteq> pdu_state_key ev else False
         | None \<Rightarrow> False)
      else False)"

definition is_power_event_id :: "decoders \<Rightarrow> event_fetch \<Rightarrow> string \<Rightarrow> bool" where
  "is_power_event_id de fetch event_id =
     (case fetch event_id of Some state \<Rightarrow> is_power_event de state | None \<Rightarrow> False)"

section \<open>Checking sorted events one after the other\<close>

fun fetch_all :: "event_fetch \<Rightarrow> string list \<Rightarrow> state_res_error + pdu list" where
  "fetch_all fetch [] = Inr []"
| "fetch_all fetch (event_id # event_ids) =
     (case fetch event_id of
        None \<Rightarrow> Inl (NotFound (''Failed to find '' @ event_id))
      | Some ev \<Rightarrow> res_bind (fetch_all fetch event_ids) (\<lambda>evs. Inr (ev # evs)))"

text \<open>The auth events of all events to check, by their event id.\<close>

definition auth_event_map :: "event_fetch \<Rightarrow> pdu list \<Rightarrow> (string \<times> pdu) list" where
  "auth_event_map fetch events =
     foldl (\<lambda>m ev. al_insert (pdu_event_id ev) ev m) []
       (List.map_filter fetch (remdups (concat (map pdu_auth_events events))))"

text \<open>In rooms with hashed ids the create event is found through the room id.\<close>

definition create_event_of_room ::
    "decoders \<Rightarrow> event_fetch \<Rightarrow> pdu \<Rightarrow> state_res_error + pdu" where
  "create_event_of_room de fetch ev =
     res_bind (room_id_or_hash de ev) (\<lambda>room_id.
       let create_event_id = replace_char (CHR ''!'') (CHR ''$'') room_id in
       if \<not> valid_event_id de create_event_id
       then Inl (InvalidPdu ''Failed to parse create event ID from room ID/hash'')
       else ok_or (NotFound ''Failed to find create event'') (fetch create_event_id))"

fun insert_auth_events ::
    "(string \<rightharpoonup> pdu) \<Rightarrow> string list \<Rightarrow> pdu state_map \<Rightarrow> state_res_error + pdu state_map" where
  "insert_auth_events auth_events [] auth_state = Inr auth_state"
| "insert_auth_events auth_events (aid # aids) auth_state =
     (case auth_events aid of
        None \<Rightarrow> insert_auth_events auth_events aids auth_state
      | Some ev \<Rightarrow>
          (case pdu_state_key ev of
             None \<Rightarrow> Inl (InvalidPdu ''State event had no state key'')
           | Some k \<Rightarrow>
               insert_auth_events auth_events aids
                 (al_insert (with_state_key (pdu_kind ev) k) ev auth_state)))"

definition insert_resolved ::
    "event_fetch \<Rightarrow> (string \<rightharpoonup> pdu) \<Rightarrow> string state_map \<Rightarrow> type_state_key list \<Rightarrow> pdu state_map \<Rightarrow> pdu state_map" where
  "insert_resolved fetch auth_events resolved_state auth_types auth_state =
     foldl (\<lambda>st key.
         case map_of resolved_state key of
           None \<Rightarrow> st
         | Some ev_id \<Rightarrow>
             (case (case auth_events ev_id of Some ev \<Rightarrow> Some ev | None \<Rightarrow> fetch ev_id) of
                Some ev \<Rightarrow> al_insert key ev st
              | None \<Rightarrow> st))
       auth_state auth_types"

definition auth_state_for ::
    "decoders \<Rightarrow> room_version_rules \<Rightarrow> event_fetch \<Rightarrow> (string \<rightharpoonup> pdu) \<Rightarrow> string state_map \<Rightarrow> pdu \<Rightarrow> string \<Rightarrow>
     state_res_error + pdu state_map" where
  "auth_state_for de rules fetch auth_events resolved_state ev state_key =
     res_bind (auth_types_for_event de (pdu_kind ev) (pdu_sender ev) (Some state_key) (pdu_content ev) rules)
       (\<lambda>auth_types.
     res_bind
       (if room_id_format rules = RoomIdV2
        then res_bind (create_event_of_room de fetch ev) (\<lambda>create_event.
               Inr [(with_state_key (pdu_kind create_event) '''', create_event)])
        else Inr [])
       (\<lambda>auth_state.
     res_bind (insert_auth_events auth_events (pdu_auth_events ev) auth_state) (\<lambda>auth_state.
       let auth_state = insert_resolved fetch auth_events resolved_state auth_types auth_state in
       if pdu_kind ev = RoomCreate \<and> pdu_state_key ev = Some '''' then
         Inr (case map_of auth_state (RoomCreate, '''') of
                None \<Rightarrow> al_insert (RoomCreate, '''') ev auth_state
              | Some _ \<Rightarrow> auth_state)
       else if map_of auth_state (RoomCreate, '''') = None
       then Inl (NotFound (''m.room.create did not appear in the auth state for '' @ pdu_event_id ev))
       else Inr auth_state)))"

definition check_event ::
    "decoders \<Rightarrow> room_version_rules \<Rightarrow> event_fetch \<Rightarrow> (string \<rightharpoonup> pdu) \<Rightarrow> string state_map \<Rightarrow> pdu \<Rightarrow>
     state_res_error + string state_map" where
  "check_event de rules fetch auth_events resolved_state ev =
     (case pdu_state_key ev of
        None \<Rightarrow> Inl (InvalidPdu ''State event had no state key'')
      | Some state_key \<Rightarrow>
          res_bind (auth_state_for de rules fetch auth_events resolved_state ev state_key) (\<lambda>auth_state.
            case map_of auth_state (RoomCreate, '''') of
              None \<Rightarrow> Inl Panicked
            | Some create_event \<Rightarrow>
                (let current_third_party =
                   find (\<lambda>pdu. pdu_kind pdu = RoomThirdPartyInvite) (map snd auth_state) in
                 res_bind (auth_check de rules ev current_third_party (map_of auth_state) create_event)
                   (\<lambda>allowed.
                      Inr (if allowed
                           then al_insert (with_state_key (pdu_kind ev) state_key) (pdu_event_id ev) resolved_state
                           else resolved_state)))))"

fun check_events ::
    "decoders \<Rightarrow> room_version_rules \<Rightarrow> event_fetch \<Rightarrow> (string \<rightharpoonup> pdu) \<Rightarrow> string state_map \<Rightarrow> pdu list \<Rightarrow>
     state_res_error + string state_map" where
  "check_events de rules fetch auth_events resolved_state [] = Inr resolved_state"
| "check_events de rules fetch auth_events resolved_state (ev # evs) =
     res_bind (check_event de rules fetch auth_events resolved_state ev) (\<lambda>resolved_state.
       check_events de rules fetch auth_events resolved_state evs)"

definition iterative_auth_check ::
    "decoders \<Rightarrow> room_version_rules \<Rightarrow> (pdu list \<Rightarrow> pdu list) \<Rightarrow> string list \<Rightarrow> string state_map \<Rightarrow> event_fetch \<Rightarrow>
     state_res_error + string state_map" where
  "iterative_auth_check de rules arrive events_to_check unconflicted_state fetch =
     res_bind (fetch_all fetch events_to_check) (\<lambda>fetched.
       let events = arrive fetched in
       if events = [] then Inr unconflicted_state
       else check_events de rules fetch (map_of (auth_event_map fetch events)) unconflicted_state events)"

section \<open>Resolution\<close>

text \<open>
  \<open>subgraph\<close> is the iteration order of the conflicted subgraph's hash set; \<open>extend\<close> overwrites.
\<close>

definition extend_state :: "string state_map \<Rightarrow> string state_map \<Rightarrow> string state_map" where
  "extend_state m m' = foldl (\<lambda>m (k, v). al_insert k v m) m m'"

definition resolve_conflicted ::
    "decoders \<Rightarrow> (pdu list \<Rightarrow> pdu list) \<Rightarrow> room_version_rules \<Rightarrow> event_fetch \<Rightarrow> string state_map \<Rightarrow>
     string state_map \<Rightarrow> string list \<Rightarrow> (state_res_error + string state_map) option" where
  "resolve_conflicted de arrive rules fetch unconflicted initial_state all_conflicted =
     (let control_events = filter (is_power_event_id de fetch) all_conflicted in
      case reverse_topological_power_sort de arrive control_events (set all_conflicted) rules fetch of
        None \<Rightarrow> None
      | Some (Inl e) \<Rightarrow> Some (Inl e)
      | Some (Inr sorted_control_levels) \<Rightarrow>
          (case iterative_auth_check de rules arrive sorted_control_levels initial_state fetch of
             Inl e \<Rightarrow> Some (Inl e)
           | Inr resolved_control \<Rightarrow>
               (let events_to_resolve = filter (\<lambda>i. i \<notin> set sorted_control_levels) all_conflicted;
                    power_event = map_of resolved_control (RoomPowerLevels, '''')
                in case mainline_sort fetch events_to_resolve power_event of
                     None \<Rightarrow> None
                   | Some (Inl e) \<Rightarrow> Some (Inl e)
                   | Some (Inr sorted_left_events) \<Rightarrow>
                       Some (res_bind (iterative_auth_check de rules arrive sorted_left_events resolved_control fetch)
                         (\<lambda>resolved_state. Inr (extend_state resolved_state unconflicted))))))"

definition resolve ::
    "decoders \<Rightarrow> (pdu list \<Rightarrow> pdu list) \<Rightarrow> (string set \<Rightarrow> string list) \<Rightarrow> room_version_rules \<Rightarrow>
     string state_map list \<Rightarrow> string list list \<Rightarrow> event_fetch \<Rightarrow> (string \<Rightarrow> bool) \<Rightarrow>
     (state_res_error + string state_map) option" where
  "resolve de arrive iter rules state_sets auth_chain_sets event_fetch event_exists =
     (case separate state_sets of
        (unconflicted, conflicting) \<Rightarrow>
          if conflicting = [] then Some (Inr unconflicted)
          else
            (let full_set = \<lambda>csg. remdups (filter event_exists
                     (get_auth_chain_diff auth_chain_sets @ concat (map snd conflicting)) @ csg)
             in if state_res rules = StateResV2 True then
                  (case calculate_conflicted_subgraph event_fetch conflicting of
                     None \<Rightarrow> None
                   | Some csg \<Rightarrow>
                       resolve_conflicted de arrive rules event_fetch unconflicted [] (full_set (iter csg)))
                else resolve_conflicted de arrive rules event_fetch unconflicted unconflicted (full_set [])))"

section \<open>What the iterative check keeps and adds\<close>

lemma fetch_all_spec:
  "fetch_all fetch ids = Inr evs \<Longrightarrow> length evs = length ids \<and> (\<forall>i < length ids. fetch (ids ! i) = Some (evs ! i))"
proof (induction ids arbitrary: evs)
  case (Cons i ids)
  then obtain ev rest where e: "fetch i = Some ev" "fetch_all fetch ids = Inr rest" "evs = ev # rest"
    by (auto split: option.splits)
  have "fetch ((i # ids) ! j) = Some (evs ! j)" if "j < length (i # ids)" for j
    using that e Cons.IH [OF e(2)] by (cases j) auto
  then show ?case using e Cons.IH [OF e(2)] by simp
qed simp

lemma fetch_all_set: "fetch_all fetch ids = Inr evs \<Longrightarrow> set evs = (\<lambda>i. the (fetch i)) ` set ids"
  by (induction ids arbitrary: evs) (auto split: option.splits)

text \<open>An event that was accepted against a state that holds only fetched events, the create event
  among them.\<close>

definition accepted :: "decoders \<Rightarrow> room_version_rules \<Rightarrow> event_fetch \<Rightarrow> pdu \<Rightarrow> bool" where
  "accepted de rules fetch ev \<longleftrightarrow>
     (\<exists>tpi st create. auth_check de rules ev tpi st create = Inr True \<and>
        st (RoomCreate, '''') = Some create \<and> ran st \<subseteq> ran fetch)"

lemma ran_upd_subset: "ran m \<subseteq> R \<Longrightarrow> v \<in> R \<Longrightarrow> ran (m(k \<mapsto> v)) \<subseteq> R"
  by (auto simp: ran_def split: if_splits)

lemma insert_auth_events_ran:
  "insert_auth_events auths aids st = Inr st' \<Longrightarrow> ran (map_of st) \<subseteq> R \<Longrightarrow> ran auths \<subseteq> R \<Longrightarrow> ran (map_of st') \<subseteq> R"
proof (induction aids arbitrary: st)
  case (Cons aid aids)
  show ?case
  proof (cases "auths aid")
    case (Some ev)
    then have "ev \<in> R" using Cons.prems(3) by (auto simp: ran_def)
    then have st: "ran (map_of (al_insert (with_state_key (pdu_kind ev) k) ev st)) \<subseteq> R" for k
      using ran_upd_subset [OF Cons.prems(2)] by simp
    obtain k where "insert_auth_events auths aids (al_insert (with_state_key (pdu_kind ev) k) ev st) = Inr st'"
      using Cons.prems(1) Some by (auto split: option.splits)
    from Cons.IH [OF this st Cons.prems(3)] show ?thesis .
  qed (use Cons in simp)
qed simp

lemma insert_resolved_ran:
  assumes "ran (map_of st) \<subseteq> R" "ran auths \<subseteq> R" "ran fetch \<subseteq> R"
  shows "ran (map_of (insert_resolved fetch auths res keys st)) \<subseteq> R"
  using assms(1)
proof (induction keys arbitrary: st)
  case (Cons key keys)
  let ?st = "insert_resolved fetch auths res [key] st"
  have "ran (map_of ?st) \<subseteq> R"
    using Cons.prems assms(2,3)
    by (auto simp: insert_resolved_def ran_upd_subset ranI subset_iff split: option.splits)
      (auto simp: ran_def split: if_splits)
  from Cons.IH [OF this] show ?case by (simp add: insert_resolved_def)
qed (simp add: insert_resolved_def)

lemma auth_state_for_ran:
  assumes "auth_state_for de rules fetch auths res ev k = Inr st" "ran auths \<subseteq> ran fetch" "ev \<in> ran fetch"
  shows "ran (map_of st) \<subseteq> ran fetch"
proof -
  obtain types st0 st1 where
    st0: "(if room_id_format rules = RoomIdV2
        then res_bind (create_event_of_room de fetch ev) (\<lambda>create_event.
               Inr [(with_state_key (pdu_kind create_event) '''', create_event)])
        else Inr []) = Inr st0"
    and st1: "insert_auth_events auths (pdu_auth_events ev) st0 = Inr st1"
    and st: "st = insert_resolved fetch auths res types st1 \<or>
      st = al_insert (RoomCreate, '''') ev (insert_resolved fetch auths res types st1)"
    using assms(1) by (auto simp: auth_state_for_def Let_def split: if_splits option.splits)
  have "ran (map_of st0) \<subseteq> ran fetch"
    using st0 by (auto simp: create_event_of_room_def Let_def ran_def split: if_splits option.splits)
  then have "ran (map_of st1) \<subseteq> ran fetch" by (rule insert_auth_events_ran [OF st1 _ assms(2)])
  then have "ran (map_of (insert_resolved fetch auths res types st1)) \<subseteq> ran fetch"
    by (rule insert_resolved_ran [OF _ assms(2) subset_refl])
  from this ran_upd_subset [OF this assms(3)] st show ?thesis by (elim disjE) simp_all
qed

lemma auth_event_map_ran: "ran (map_of (auth_event_map fetch evs)) \<subseteq> ran fetch"
proof -
  have "ran (map_of (foldl (\<lambda>m ev. al_insert (pdu_event_id ev) ev m) m es)) \<subseteq> ran fetch"
    if "ran (map_of m) \<subseteq> ran fetch" "set es \<subseteq> ran fetch" for m es
    using that
  proof (induction es arbitrary: m)
    case (Cons e es)
    have "ran (map_of (al_insert (pdu_event_id e) e m)) \<subseteq> ran fetch"
      using ran_upd_subset [OF Cons.prems(1)] Cons.prems(2) by simp
    from Cons.IH [OF this] Cons.prems(2) show ?case by simp
  qed simp
  moreover have "set (List.map_filter fetch ids) \<subseteq> ran fetch" for ids
    by (auto simp: List.map_filter_def ran_def)
  ultimately show ?thesis by (simp add: auth_event_map_def)
qed

lemma check_event_spec:
  assumes "check_event de rules fetch auths st ev = Inr st'" "ran auths \<subseteq> ran fetch" "ev \<in> ran fetch"
  shows "st' = st \<or>
    (\<exists>k. pdu_state_key ev = Some k \<and> st' = al_insert (pdu_kind ev, k) (pdu_event_id ev) st \<and>
       accepted de rules fetch ev)"
proof -
  obtain k ast create where "pdu_state_key ev = Some k"
    and ast: "auth_state_for de rules fetch auths st ev k = Inr ast" "map_of ast (RoomCreate, '''') = Some create"
    using assms(1) by (auto simp: check_event_def split: option.splits)
  with assms(1) auth_state_for_ran [OF ast(1) assms(2,3)] show ?thesis
    by (auto simp: check_event_def accepted_def with_state_key_def Let_def split: if_splits)
qed

lemma check_events_spec:
  "check_events de rules fetch auths st evs = Inr st' \<Longrightarrow> ran auths \<subseteq> ran fetch \<Longrightarrow> set evs \<subseteq> ran fetch \<Longrightarrow>
   map_of st' k = Some i \<Longrightarrow>
   map_of st k = Some i \<or>
   (\<exists>ev \<in> set evs. pdu_event_id ev = i \<and> k = (pdu_kind ev, the (pdu_state_key ev)) \<and> pdu_state_key ev \<noteq> None \<and>
      accepted de rules fetch ev)"
proof (induction evs arbitrary: st)
  case (Cons ev evs)
  then obtain st1 where s: "check_event de rules fetch auths st ev = Inr st1"
    "check_events de rules fetch auths st1 evs = Inr st'" by auto
  have "set evs \<subseteq> ran fetch" "ev \<in> ran fetch" using Cons.prems(3) by simp_all
  from Cons.IH [OF s(2) Cons.prems(2) this(1) Cons.prems(4)] show ?case
  proof
    assume "map_of st1 k = Some i"
    then show ?thesis using check_event_spec [OF s(1) Cons.prems(2) \<open>ev \<in> ran fetch\<close>] by (auto split: if_splits)
  qed auto
qed simp

lemma iterative_auth_check_spec:
  assumes "iterative_auth_check de rules arrive ids st fetch = Inr st'" "map_of st' k = Some i"
    and "\<And>evs. set (arrive evs) = set evs"
  shows "map_of st k = Some i \<or>
    (\<exists>j ev. j \<in> set ids \<and> fetch j = Some ev \<and> pdu_event_id ev = i \<and> pdu_state_key ev \<noteq> None \<and>
       k = (pdu_kind ev, the (pdu_state_key ev)) \<and> accepted de rules fetch ev)"
proof -
  obtain evs where evs: "fetch_all fetch ids = Inr evs" using assms(1) by (auto simp: iterative_auth_check_def)
  have mem: "\<exists>j. j \<in> set ids \<and> fetch j = Some ev" if "ev \<in> set evs" for ev
    using that fetch_all_spec [OF evs] by (metis in_set_conv_nth)
  then have ran: "set (arrive evs) \<subseteq> ran fetch" using assms(3) by (metis ranI subsetI)
  show ?thesis
  proof (cases "arrive evs = []")
    case True
    then show ?thesis using assms(1,2) evs by (simp add: iterative_auth_check_def)
  next
    case False
    then have "check_events de rules fetch (map_of (auth_event_map fetch (arrive evs))) st (arrive evs) = Inr st'"
      using assms(1) evs by (simp add: iterative_auth_check_def Let_def)
    from check_events_spec [OF this auth_event_map_ran ran assms(2)] show ?thesis using mem assms(3) by metis
  qed
qed

section \<open>What resolution returns\<close>

lemma map_of_extend_state: "al_wf m' \<Longrightarrow> map_of (extend_state m m') = map_of m ++ map_of m'"
proof (induction m' arbitrary: m)
  case (Cons p m')
  obtain k v where p: "p = (k, v)" by (cases p)
  have "map_of m' k = None" using Cons.prems by (simp add: p map_of_eq_None_iff)
  then show ?case using Cons by (auto simp: extend_state_def p fun_eq_iff map_add_def split: option.split)
qed (simp add: extend_state_def)

lemma power_sort_subset:
  assumes "finite diff" "set events \<subseteq> diff"
    and "reverse_topological_power_sort de arrive events diff rules fetch = Some (Inr xs)"
  shows "set xs \<subseteq> diff"
proof -
  obtain g where g: "add_all_to_graph fetch diff [] events = Some g"
    "lexicographical_topological_sort g (power_sort_key de arrive rules fetch) = Some (Inr xs)"
    using assms(3) by (auto simp: reverse_topological_power_sort_def split: option.splits)
  note b = built_graph [OF assms(1) g(1)]
  have "set xs \<subseteq> nodes g"
    using topo_sort_total [OF b(1), of "power_sort_key de arrive rules fetch"] g(2) greedy_sound by fastforce
  moreover have "b \<in> diff" if "(a, b) \<in> (chain_rel fetch diff)\<^sup>*" "a \<in> diff" for a b
    using that by (induction rule: rtrancl_induct) (auto simp: chain_rel_def chain_refs_def)
  ultimately show ?thesis using b(2) assms(2) by blast
qed

lemma mainline_sort_subset: "mainline_sort fetch ids pl = Some (Inr xs) \<Longrightarrow> set xs \<subseteq> set ids"
proof (cases "ids = []")
  case False
  assume a: "mainline_sort fetch ids pl = Some (Inr xs)"
  then obtain ml where "mainline_of fetch pl [] = Some (Inr ml)"
    using False by (auto simp: mainline_sort_def split: option.splits sum.splits)
  from mainline_sort_value [OF False this a] show ?thesis by auto
qed (simp add: mainline_sort_def)

lemma resolve_conflicted_entries:
  assumes "resolve_conflicted de arrive rules fetch unc init full = Some (Inr st)" "al_wf unc"
    and "map_of st k = Some i" "\<And>evs. set (arrive evs) = set evs"
  shows "map_of unc k = Some i \<or> map_of init k = Some i \<or>
    (\<exists>j \<in> set full. \<exists>ev. fetch j = Some ev \<and> pdu_event_id ev = i \<and> pdu_state_key ev \<noteq> None \<and>
       k = (pdu_kind ev, the (pdu_state_key ev)) \<and> accepted de rules fetch ev)"
proof -
  obtain ctl r1 left r2 where
    ctl: "reverse_topological_power_sort de arrive (filter (is_power_event_id de fetch) full) (set full) rules fetch
            = Some (Inr ctl)"
    and r1: "iterative_auth_check de rules arrive ctl init fetch = Inr r1"
    and left: "mainline_sort fetch (filter (\<lambda>i. i \<notin> set ctl) full) (map_of r1 (RoomPowerLevels, '''')) = Some (Inr left)"
    and r2: "iterative_auth_check de rules arrive left r1 fetch = Inr r2"
    and st: "st = extend_state r2 unc"
    using assms(1) by (auto simp: resolve_conflicted_def Let_def split: option.splits sum.splits)
  have sub: "set ctl \<subseteq> set full" "set left \<subseteq> set full"
    using power_sort_subset [OF _ _ ctl] mainline_sort_subset [OF left] by auto
  have "map_of unc k = Some i \<or> map_of r2 k = Some i"
    using assms(2,3) by (auto simp: st map_of_extend_state map_add_def split: option.splits)
  then show ?thesis
  proof
    assume "map_of r2 k = Some i"
    from iterative_auth_check_spec [OF r2 this assms(4)] show ?thesis
    proof
      assume "map_of r1 k = Some i"
      from iterative_auth_check_spec [OF r1 this assms(4)] show ?thesis using sub(1) by blast
    qed (use sub(2) in blast)
  qed simp
qed

lemma resolve_conflicted_keeps:
  assumes "resolve_conflicted de arrive rules fetch unc init full = Some (Inr st)" "al_wf unc"
    and "map_of unc k = Some i"
  shows "map_of st k = Some i"
  using assms by (auto simp: resolve_conflicted_def Let_def map_of_extend_state split: option.splits sum.splits)

lemma conflicting_ids:
  assumes "\<forall>s \<in> set sets. al_wf s" "length sets \<le> u64_max" "separate sets = (u, c)"
    and "i \<in> set (concat (map snd c))"
  shows "\<exists>s \<in> set sets. i \<in> snd ` set s"
proof -
  obtain k vs where k: "(k, vs) \<in> set c" "i \<in> set vs" using assms(4) by auto
  then have "i \<in> set (listed c k)" using separate_wf [OF assms(3)] by (simp add: listed_def)
  then obtain s where "s \<in> set sets" "map_of s k = Some i" using separate_spec [OF assms(1-3), of k i] by blast
  then show ?thesis using map_of_SomeD by force
qed

lemma auth_chain_diff_ids: "i \<in> set (get_auth_chain_diff chs) \<Longrightarrow> \<exists>ch \<in> set chs. i \<in> set ch"
proof -
  assume i: "i \<in> set (get_auth_chain_diff chs)"
  let ?step = "\<lambda>counts i. al_insert i (case map_of counts i of Some x \<Rightarrow> x + 1 | None \<Rightarrow> (1 :: nat)) counts"
  have "al_keys (foldl ?step m ps) \<subseteq> al_keys m \<union> set ps" for m ps
  proof (induction ps arbitrary: m)
    case (Cons p ps)
    show ?case using Cons [of "?step m p"] by simp
  qed simp
  from this [of "[]" "concat chs"] i show ?thesis by (auto simp: get_auth_chain_diff_def Let_def)
qed

section \<open>A sample room\<close>

definition demo_room :: "string state_map" where
  "demo_room = [((RoomCreate, ''''), ''$create''), ((RoomPowerLevels, ''''), ''$pl''), ((RoomMember, ''@a:x''), ''$a'')]"

abbreviation topic :: event_type where "topic \<equiv> OtherType ''m.room.topic''"

definition demo_fetch :: event_fetch where
  "demo_fetch = map_of
     [(''$create'', demo_create),
      (''$pl'', demo_event ''$pl'' ''@a:x'' RoomPowerLevels (Some '''') ''levels''),
      (''$a'', demo_event ''$a'' ''@a:x'' RoomMember (Some ''@a:x'') ''join''),
      (''$t'', demo_event ''$t'' ''@a:x'' topic (Some '''') ''topic''),
      (''$j1'', demo_event ''$j1'' ''@a:x'' RoomJoinRules (Some '''') ''public''),
      (''$j2'', demo_event ''$j2'' ''@a:x'' RoomJoinRules (Some '''') ''invite'')]"

definition demo_sets :: "string state_map list" where
  "demo_sets = [demo_room @ [((topic, ''''), ''$t'')], demo_room]"

lemma demo_check_event:
  assumes "t = RoomJoinRules \<or> t = topic"
  shows "check_event demo_decoders demo_rules demo_fetch (map_of [(''$create'', demo_create)]) (demo_room @ jr)
    (demo_event j ''@a:x'' t (Some '''') c) = Inr (al_insert (t, '''') j (demo_room @ jr))"
  using assms
  by (elim disjE) (simp_all add: check_event_def auth_state_for_def auth_types_for_event_def insert_resolved_def
      with_state_key_def push_unique_def auth_check_defs demo_defs demo_room_def demo_fetch_def Let_def)

lemma demo_room_insert:
  "al_insert (RoomJoinRules, '''') j (demo_room @ m) = demo_room @ al_insert (RoomJoinRules, '''') j m"
  "al_insert (OtherType t, '''') j (demo_room @ m) = demo_room @ al_insert (OtherType t, '''') j m"
  by (simp_all add: demo_room_def)

lemma demo_fetch_simps:
  "demo_fetch ''$j1'' = Some (demo_event ''$j1'' ''@a:x'' RoomJoinRules (Some '''') ''public'')"
  "demo_fetch ''$j2'' = Some (demo_event ''$j2'' ''@a:x'' RoomJoinRules (Some '''') ''invite'')"
  "demo_fetch ''$t'' = Some (demo_event ''$t'' ''@a:x'' topic (Some '''') ''topic'')"
  "demo_fetch ''$create'' = Some demo_create"
  "pdu_auth_events (demo_event i s t k c) = [''$create'']" "pdu_event_id demo_create = ''$create''"
  "pdu_kind (demo_event i s t k c) = t"
  by (simp_all add: demo_fetch_def demo_event_def demo_create_def)

lemmas demo_checks = demo_check_event demo_check_event [where jr = "[]", unfolded append_Nil2]
  demo_room_insert demo_room_insert [where m = "[]", unfolded append_Nil2]
  demo_fetch_simps auth_event_map_def List.map_filter_def

lemma demo_iterative:
  "iterative_auth_check demo_decoders demo_rules id [''$t''] demo_room demo_fetch =
     Inr (demo_room @ [((topic, ''''), ''$t'')])"
  "iterative_auth_check demo_decoders demo_rules id [''$j1'', ''$j2''] demo_room demo_fetch =
     Inr (demo_room @ [((RoomJoinRules, ''''), ''$j2'')])"
  "iterative_auth_check demo_decoders demo_rules rev [''$j1'', ''$j2''] demo_room demo_fetch =
     Inr (demo_room @ [((RoomJoinRules, ''''), ''$j1'')])"
  "iterative_auth_check demo_decoders demo_rules id [] demo_room demo_fetch = Inr demo_room"
  by (simp_all add: iterative_auth_check_def demo_checks Let_def del: map_of.simps)

lemma demo_separate: "separate demo_sets = (demo_room, [((topic, ''''), [''$t''])])"
  by (simp add: separate_def demo_sets_def demo_room_def sort_occurrence_def count_occurrence_def
      flat_occurrences_def saturating_inc_def bump_def)

lemma demo_sorts:
  "reverse_topological_power_sort de arrive [] d rules fetch = Some (Inr [])"
  "mainline_sort demo_fetch [''$t''] (Some ''$pl'') = Some (Inr [''$t''])"
  by (simp_all add: reverse_topological_power_sort_def lexicographical_topological_sort_def topo_loop.simps
      heap_from_def mainline_sort_def mainline_of.simps get_mainline_depth.simps mainline_map_def
      demo_fetch_def demo_event_def demo_create_def is_type_and_key_def)

lemma demo_resolve_conflicted:
  "resolve_conflicted demo_decoders id demo_rules demo_fetch demo_room demo_room [''$t''] =
     Some (Inr (demo_room @ [((topic, ''''), ''$t'')]))"
proof -
  have no_power: "\<not> is_power_event_id demo_decoders demo_fetch ''$t''"
    by (simp add: is_power_event_id_def is_power_event_def demo_fetch_simps)
  have pl: "map_of demo_room (RoomPowerLevels, '''') = Some ''$pl''" by (simp add: demo_room_def)
  have "extend_state (demo_room @ [((topic, ''''), ''$t'')]) demo_room = demo_room @ [((topic, ''''), ''$t'')]"
    by (simp add: extend_state_def demo_room_def)
  then show ?thesis
    by (simp add: resolve_conflicted_def Let_def no_power demo_sorts demo_iterative pl)
qed

lemma demo_resolve:
  "resolve demo_decoders id (\<lambda>_. []) demo_rules demo_sets [] demo_fetch (\<lambda>_. True) =
     Some (Inr (demo_room @ [((topic, ''''), ''$t'')]))"
proof -
  have "state_res demo_rules = StateResV2 False" by (simp add: demo_rules_def)
  then show ?thesis
    by (simp add: resolve_def demo_separate Let_def get_auth_chain_diff_def demo_resolve_conflicted)
qed

section \<open>Properties\<close>



text \<open>C5: state resolution ends. When finitely many events can be fetched and no auth chain is infinite,
  \<open>resolve\<close> returns a state or an error.\<close>

theorem resolve_returns:
  assumes "finite {i. fetch i \<noteq> None}" "wf (auth_rel fetch)"
  shows "\<exists>r. resolve de arrive iter rules sets chs fetch event_exists = Some r"
proof -
  have "resolve_conflicted de arrive rules fetch unc init full \<noteq> None" for unc init full
  proof -
    obtain r where r: "reverse_topological_power_sort de arrive (filter (is_power_event_id de fetch) full) (set full)
        rules fetch = Some r" using power_sort_returns [OF finite_set] by blast
    have m: "mainline_sort fetch ids pl \<noteq> None" for ids pl using mainline_sort_returns [OF assms(2)] by (metis option.distinct(1))
    show ?thesis
      by (cases r) (auto simp: resolve_conflicted_def r m Let_def split: sum.splits option.splits)
  qed
  moreover obtain u c where sep: "separate sets = (u, c)" by (cases "separate sets")
  moreover obtain S where "calculate_conflicted_subgraph fetch c = Some S"
    using conflicted_subgraph_ends [OF assms(1)] by blast
  ultimately have "resolve de arrive iter rules sets chs fetch event_exists \<noteq> None"
    by (simp add: resolve_def Let_def)
  then show ?thesis by blast
qed

theorem resolve_returns_witness:
  "\<exists>r. resolve no_decoders id (\<lambda>_. []) demo_sort_rules [[((topic, ''''), ''$a'')], []] [] demo_chain (\<lambda>_. True) = Some r"
proof (rule resolve_returns)
  show "finite {i. demo_chain i \<noteq> None}"
    by (rule finite_subset [of _ "{''$a'', ''$b''}"]) (auto simp: demo_chain_def)
  have "auth_rel demo_chain \<subseteq> {(''$a'', ''$b'')}"
    by (auto simp: auth_rel_def auth_ids_def demo_chain_def split: if_splits)
  then show "wf (auth_rel demo_chain)"
    by (rule wf_subset [rotated]) (simp add: wf_insert)
qed

text \<open>C9: the order of the full conflicted set, which is a hash set, has no influence on the result.
  When the sort keys of the power events and their auth chains are found, two lists of the same
  events resolve to the same state or the same error.\<close>

theorem resolve_order_free:
  assumes "set a = set b"
    and "\<forall>n \<in> (chain_rel fetch (set a))\<^sup>* `` {i \<in> set a. is_power_event_id de fetch i}.
           \<exists>k. power_sort_key de arrive rules fetch n = Inr k"
  shows "resolve_conflicted de arrive rules fetch unc init a = resolve_conflicted de arrive rules fetch unc init b"
proof -
  have p: "reverse_topological_power_sort de arrive (filter (is_power_event_id de fetch) a) (set a) rules fetch =
      reverse_topological_power_sort de arrive (filter (is_power_event_id de fetch) b) (set b) rules fetch"
    using power_sort_order_free [of "set a" "filter (is_power_event_id de fetch) a"
        "filter (is_power_event_id de fetch) b" fetch de arrive rules] assms by (auto simp: assms(1))
  have m: "mainline_sort fetch (filter (\<lambda>i. i \<notin> set ctl) a) pl = mainline_sort fetch (filter (\<lambda>i. i \<notin> set ctl) b) pl"
    for ctl pl by (rule mainline_sort_order_free) (auto simp: assms(1))
  show ?thesis unfolding resolve_conflicted_def Let_def p m by (rule refl)
qed

theorem resolve_order_free_witness:
  "resolve_conflicted demo_decoders id demo_rules demo_fetch demo_room demo_room [''$t'', ''$a''] =
   resolve_conflicted demo_decoders id demo_rules demo_fetch demo_room demo_room [''$a'', ''$t'']"
proof (rule resolve_order_free)
  have "\<not> is_power_event_id demo_decoders demo_fetch i" if "i \<in> {''$t'', ''$a''}" for i
    using that by (auto simp: is_power_event_id_def is_power_event_def demo_fetch_def demo_defs)
  then show "\<forall>n \<in> (chain_rel demo_fetch (set [''$t'', ''$a'']))\<^sup>* `` {i \<in> set [''$t'', ''$a'']. is_power_event_id demo_decoders demo_fetch i}.
      \<exists>k. power_sort_key demo_decoders id demo_rules demo_fetch n = Inr k" by auto
qed auto

text \<open>C30: the order of the sorted list is lost before it is checked. The events are fetched through
  \<open>broad_and_then\<close>, which yields them as they arrive; two join rules of the same sorted list are both
  accepted, and which of them is in the result depends on which was fetched first.\<close>

theorem iterative_check_follows_arrival:
  "\<exists>de rules ids st fetch j1 j2 st1 st2. ids = [j1, j2] \<and> j1 \<noteq> j2 \<and>
     iterative_auth_check de rules id ids st fetch = Inr st1 \<and> map_of st1 (RoomJoinRules, '''') = Some j2 \<and>
     iterative_auth_check de rules rev ids st fetch = Inr st2 \<and> map_of st2 (RoomJoinRules, '''') = Some j1"
proof -
  have jr: "map_of (demo_room @ [((RoomJoinRules, ''''), j)]) (RoomJoinRules, '''') = Some j" for j
    by (simp add: demo_room_def)
  have "[''$j1'', ''$j2''] = [''$j1'', ''$j2''] \<and> ''$j1'' \<noteq> ''$j2'' \<and>
     iterative_auth_check demo_decoders demo_rules id [''$j1'', ''$j2''] demo_room demo_fetch =
       Inr (demo_room @ [((RoomJoinRules, ''''), ''$j2'')]) \<and>
     map_of (demo_room @ [((RoomJoinRules, ''''), ''$j2'')]) (RoomJoinRules, '''') = Some ''$j2'' \<and>
     iterative_auth_check demo_decoders demo_rules rev [''$j1'', ''$j2''] demo_room demo_fetch =
       Inr (demo_room @ [((RoomJoinRules, ''''), ''$j1'')]) \<and>
     map_of (demo_room @ [((RoomJoinRules, ''''), ''$j1'')]) (RoomJoinRules, '''') = Some ''$j1''"
    by (simp only: jr demo_iterative) simp
  then show ?thesis by (intro exI)
qed

end
