(* ===== verification/State_Diff.thy ===== *)
theory State_Diff
  imports Short_Ids
begin

text \<open>
  The storage of room states as layered differences,
  \<open>src/service/rooms/state_compressor/mod.rs\<close>, and the joined hash input of
  \<open>src/core/utils/hash/sha256.rs\<close>. A state is a set of sixteen-byte entries (a short state key
  and a short event id); it is stored under a short state hash either in full or as what it
  adds to and removes from a parent state. A \<open>BTreeSet\<close> is a set, iterated in ascending order.
  The \<open>LruCache\<close> of the crate \<open>lru_cache\<close> is a map whose insertion, which may evict
  entries, is a parameter.
\<close>

section \<open>Compressed states\<close>

type_synonym compressed_state_event = "byte list"
type_synonym compressed_state = "compressed_state_event set"

definition compress_state_event :: "u64 \<Rightarrow> u64 \<Rightarrow> compressed_state_event" where
  "compress_state_event shortstatekey shorteventid = to_be_bytes shortstatekey @ to_be_bytes shorteventid"

definition parse_compressed_state_event :: "compressed_state_event \<Rightarrow> u64 \<times> u64" where
  "parse_compressed_state_event ev = (from_be_bytes (take 8 ev), from_be_bytes (drop 8 ev))"

record state_diff =
  sd_parent :: "u64 option"
  sd_added :: compressed_state
  sd_removed :: compressed_state

record short_state_info =
  si_shortstatehash :: u64
  si_full_state :: compressed_state
  si_added :: compressed_state
  si_removed :: compressed_state

datatype compressor_error = StateDiffNotFound u64 | ArithmeticError | CompressorPanic

text \<open>The checked arithmetic of \<open>checked!\<close> on \<open>usize\<close>.\<close>

definition checked_usize :: "nat \<Rightarrow> compressor_error + nat" where
  "checked_usize n = (if n \<le> u64_max then Inr n else Inl ArithmeticError)"

section \<open>The stored form of a difference\<close>

type_synonym statediff_column = "u64 \<rightharpoonup> byte list"

definition encode_statediff :: "state_diff \<Rightarrow> byte list" where
  "encode_statediff diff =
     to_be_bytes (case sd_parent diff of None \<Rightarrow> 0 | Some p \<Rightarrow> p) @
     concat (sorted_list_of_set (sd_added diff)) @
     (if sd_removed diff = {} then []
      else to_be_bytes 0 @ concat (sorted_list_of_set (sd_removed diff)))"

definition save_statediff :: "statediff_column \<Rightarrow> u64 \<Rightarrow> state_diff \<Rightarrow> statediff_column" where
  "save_statediff db shortstatehash diff = db(shortstatehash \<mapsto> encode_statediff diff)"

text \<open>The reading loop, on the bytes from the current index on.\<close>

function read_diff ::
    "bool \<Rightarrow> byte list \<Rightarrow> compressed_state \<Rightarrow> compressed_state \<Rightarrow> compressed_state \<times> compressed_state" where
  "read_diff add_mode value added removed =
     (if length value < 16 then (added, removed)
      else
        (let v = take 16 value in
         if add_mode \<and> take 8 v = to_be_bytes 0 then read_diff False (drop 8 value) added removed
         else if add_mode then read_diff add_mode (drop 16 value) (insert v added) removed
         else read_diff add_mode (drop 16 value) added (insert v removed)))"
  by pat_completeness auto

termination read_diff by (relation "measure (\<lambda>(_, value, _, _). length value)") auto

declare read_diff.simps [simp del]

definition decode_statediff :: "byte list \<Rightarrow> compressor_error + state_diff" where
  "decode_statediff value =
     (if length value < 8 then Inl CompressorPanic
      else
        (let parent = (case u64_from_bytes (take 8 value) of
                         Some parent \<Rightarrow> if parent \<noteq> 0 then Some parent else None
                       | None \<Rightarrow> None);
             (added, removed) = read_diff True (drop 8 value) {} {}
         in Inr \<lparr>sd_parent = parent, sd_added = added, sd_removed = removed\<rparr>))"

definition get_statediff :: "statediff_column \<Rightarrow> u64 \<Rightarrow> compressor_error + state_diff" where
  "get_statediff db shortstatehash =
     (case db shortstatehash of
        None \<Rightarrow> Inl (StateDiffNotFound shortstatehash)
      | Some value \<Rightarrow> decode_statediff value)"

section \<open>Loading a state\<close>

type_synonym stateinfo_cache = "u64 \<rightharpoonup> short_state_info list"

type_synonym lru_insert = "u64 \<Rightarrow> short_state_info list \<Rightarrow> stateinfo_cache \<Rightarrow> stateinfo_cache"

definition first_layer :: "u64 \<Rightarrow> state_diff \<Rightarrow> short_state_info list" where
  "first_layer shortstatehash d =
     [\<lparr>si_shortstatehash = shortstatehash, si_full_state = sd_added d, si_added = sd_added d,
       si_removed = sd_removed d\<rparr>]"

definition push_layer :: "u64 \<Rightarrow> state_diff \<Rightarrow> short_state_info list \<Rightarrow> compressor_error + short_state_info list" where
  "push_layer shortstatehash d stack =
     (if stack = [] then Inl CompressorPanic
      else Inr (stack @
        [\<lparr>si_shortstatehash = shortstatehash,
          si_full_state = (si_full_state (last stack) \<union> sd_added d) - sd_removed d,
          si_added = sd_added d, si_removed = sd_removed d\<rparr>]))"

definition cache_shortstatehash_info ::
    "lru_insert \<Rightarrow> u64 \<Rightarrow> compressor_error + short_state_info list \<Rightarrow> stateinfo_cache \<Rightarrow>
     stateinfo_cache \<times> (compressor_error + short_state_info list)" where
  "cache_shortstatehash_info lru shortstatehash r cache =
     (case r of Inl e \<Rightarrow> (cache, Inl e) | Inr stack \<Rightarrow> (lru shortstatehash stack cache, Inr stack))"

partial_function (option) load_shortstatehash_info ::
    "lru_insert \<Rightarrow> statediff_column \<Rightarrow> stateinfo_cache \<times> u64 \<Rightarrow>
     (stateinfo_cache \<times> (compressor_error + short_state_info list)) option" where
  "load_shortstatehash_info lru db arg =
     (case arg of (cache, shortstatehash) \<Rightarrow>
       (case cache shortstatehash of
          Some r \<Rightarrow> Some (cache, Inr r)
        | None \<Rightarrow>
            (case get_statediff db shortstatehash of
               Inl e \<Rightarrow> Some (cache, Inl e)
             | Inr d \<Rightarrow>
                 (case sd_parent d of
                    None \<Rightarrow> Some (cache_shortstatehash_info lru shortstatehash (Inr (first_layer shortstatehash d)) cache)
                  | Some parent \<Rightarrow>
                      Option.bind (load_shortstatehash_info lru db (cache, parent)) (\<lambda>(cache, r).
                        Some (cache_shortstatehash_info lru shortstatehash
                                (res_bind r (push_layer shortstatehash d)) cache))))))"

declare load_shortstatehash_info.simps [code]

section \<open>Saving a state\<close>

text \<open>The two loops that combine a difference with that of its parent, over the sets in order.\<close>

definition merge_removed ::
    "compressed_state \<times> compressed_state \<Rightarrow> compressed_state_event \<Rightarrow> compressed_state \<times> compressed_state" where
  "merge_removed p removed =
     (case p of (parent_new, parent_removed) \<Rightarrow>
        if removed \<in> parent_new then (parent_new - {removed}, parent_removed)
        else (parent_new, insert removed parent_removed))"

definition merge_new ::
    "compressed_state \<times> compressed_state \<Rightarrow> compressed_state_event \<Rightarrow> compressed_state \<times> compressed_state" where
  "merge_new p new =
     (case p of (parent_new, parent_removed) \<Rightarrow>
        if new \<in> parent_removed then (parent_new, parent_removed - {new})
        else (insert new parent_new, parent_removed))"

definition merge_diff ::
    "short_state_info \<Rightarrow> compressed_state \<Rightarrow> compressed_state \<Rightarrow> compressed_state \<times> compressed_state" where
  "merge_diff parent statediffnew statediffremoved =
     foldl merge_new
       (foldl merge_removed (si_added parent, si_removed parent) (sorted_list_of_set statediffremoved))
       (sorted_list_of_set statediffnew)"

function save_state_from_diff ::
    "statediff_column \<Rightarrow> u64 \<Rightarrow> compressed_state \<Rightarrow> compressed_state \<Rightarrow> nat \<Rightarrow> short_state_info list \<Rightarrow>
     compressor_error + statediff_column" where
  "save_state_from_diff db shortstatehash statediffnew statediffremoved diff_to_sibling parent_states =
     res_bind (checked_usize (card statediffnew + card statediffremoved)) (\<lambda>diffsum.
       if 3 < length parent_states then
         (let (parent_new, parent_removed) = merge_diff (last parent_states) statediffnew statediffremoved in
          save_state_from_diff db shortstatehash parent_new parent_removed diffsum (butlast parent_states))
       else if parent_states = [] then
         Inr (save_statediff db shortstatehash
                \<lparr>sd_parent = None, sd_added = statediffnew, sd_removed = statediffremoved\<rparr>)
       else
         (let parent = last parent_states; parent_states = butlast parent_states in
          res_bind (checked_usize (card (si_added parent) + card (si_removed parent))) (\<lambda>parent_diff.
          res_bind (checked_usize (diffsum * diffsum)) (\<lambda>square.
          res_bind (checked_usize (2 * diff_to_sibling)) (\<lambda>twice.
          res_bind (checked_usize (twice * parent_diff)) (\<lambda>bound.
            if bound \<le> square then
              (let (parent_new, parent_removed) = merge_diff parent statediffnew statediffremoved in
               save_state_from_diff db shortstatehash parent_new parent_removed diffsum parent_states)
            else
              Inr (save_statediff db shortstatehash
                     \<lparr>sd_parent = Some (si_shortstatehash parent), sd_added = statediffnew,
                      sd_removed = statediffremoved\<rparr>)))))))"
  by pat_completeness auto

termination save_state_from_diff
  by (relation "measure (\<lambda>(_, _, _, _, _, parent_states). length parent_states)")
    auto

declare save_state_from_diff.simps [simp del]

definition compressed_state_size :: "compressed_state \<Rightarrow> nat option" where
  "compressed_state_size s = (if card s * 16 \<le> u64_max then Some (card s * 16) else None)"

section \<open>Entries and the stored form\<close>

text \<open>An entry that can be stored: sixteen bytes, and its short state key is not zero, which is the mark
  that separates the two parts of a stored difference.\<close>

definition entry_ok :: "compressed_state_event \<Rightarrow> bool" where
  "entry_ok e \<longleftrightarrow> length e = 16 \<and> take 8 e \<noteq> to_be_bytes 0"

definition state_ok :: "compressed_state \<Rightarrow> bool" where
  "state_ok S \<longleftrightarrow> finite S \<and> (\<forall>e \<in> S. entry_ok e)"

lemma state_ok_simps [simp]:
  "state_ok {}" "state_ok (insert e S) \<longleftrightarrow> entry_ok e \<and> state_ok S" "state_ok (S \<union> T) \<longleftrightarrow> state_ok S \<and> state_ok T"
  by (auto simp: state_ok_def)

lemma state_ok_subset: "state_ok S \<Longrightarrow> T \<subseteq> S \<Longrightarrow> state_ok T"
  by (auto simp: state_ok_def intro: finite_subset)

lemma state_ok_Diff [simp]: "state_ok S \<Longrightarrow> state_ok (S - T)"
  by (rule state_ok_subset) auto

lemma compress_state_event_ok: "shortstatekey \<noteq> 0 \<Longrightarrow> entry_ok (compress_state_event shortstatekey shorteventid)"
  by (simp add: entry_ok_def compress_state_event_def)

lemma parse_compress: "parse_compressed_state_event (compress_state_event k e) = (k, e)"
  by (simp add: parse_compressed_state_event_def compress_state_event_def)

lemma read_removed:
  "\<forall>e \<in> set es. length e = 16 \<Longrightarrow> read_diff False (concat es) A R = (A, R \<union> set es)"
  by (induction es arbitrary: R) (simp_all add: read_diff.simps)

lemma read_added:
  "\<forall>e \<in> set es. entry_ok e \<Longrightarrow> read_diff True (concat es @ rest) A R = read_diff True rest (A \<union> set es) R"
proof (induction es arbitrary: A)
  case (Cons e es)
  then have e: "length e = 16" "take 8 e \<noteq> to_be_bytes 0" by (simp_all add: entry_ok_def)
  have "read_diff True (e @ concat es @ rest) A R = read_diff True (concat es @ rest) (insert e A) R"
    using e by (subst read_diff.simps) (simp add: Let_def)
  then show ?case using Cons by simp
qed simp

lemma read_mark:
  assumes "es \<noteq> []" "\<forall>e \<in> set es. length e = 16"
  shows "read_diff True (to_be_bytes 0 @ concat es) A R = (A, R \<union> set es)"
proof -
  obtain e es' where es: "es = e # es'" using assms(1) by (auto simp: neq_Nil_conv)
  then have "\<not> length (to_be_bytes 0 @ concat es) < 16" using assms(2) by simp
  moreover have "take 8 (take 16 (to_be_bytes 0 @ concat es)) = to_be_bytes 0" by simp
  ultimately show ?thesis
    using read_removed [OF assms(2)] by (subst read_diff.simps) (simp add: Let_def)
qed

lemma decode_encode:
  assumes "sd_parent d \<noteq> Some 0" "state_ok (sd_added d)" "state_ok (sd_removed d)"
  shows "decode_statediff (encode_statediff d) = Inr d"
proof -
  have parent: "(case u64_from_bytes (take 8 (encode_statediff d)) of
      Some p \<Rightarrow> if p \<noteq> 0 then Some p else None | None \<Rightarrow> None) = sd_parent d"
    using assms(1) by (auto simp: encode_statediff_def split: option.split)
  have "read_diff True (drop 8 (encode_statediff d)) {} {} = (sd_added d, sd_removed d)"
  proof -
    have add: "\<forall>e \<in> set (sorted_list_of_set (sd_added d)). entry_ok e" "set (sorted_list_of_set (sd_added d)) = sd_added d"
      and rem: "\<forall>e \<in> set (sorted_list_of_set (sd_removed d)). length e = 16"
        "set (sorted_list_of_set (sd_removed d)) = sd_removed d"
      using assms(2,3) by (auto simp: state_ok_def entry_ok_def)
    show ?thesis
    proof (cases "sd_removed d = {}")
      case True
      then show ?thesis
        using read_added [OF add(1), of "[]" "{}" "{}"] add(2) by (simp add: encode_statediff_def read_diff.simps)
    next
      case False
      then have "sorted_list_of_set (sd_removed d) \<noteq> []" using rem(2) by auto
      from read_mark [OF this rem(1)] False add rem(2) show ?thesis
        by (simp add: encode_statediff_def read_added)
    qed
  qed
  with parent show ?thesis by (simp add: decode_statediff_def Let_def encode_statediff_def)
qed

section \<open>Layers\<close>

text \<open>A stack of layers over a base state: every layer adds entries that were absent and removes entries
  that were present.\<close>

fun layers_ok :: "compressed_state \<Rightarrow> short_state_info list \<Rightarrow> bool" where
  "layers_ok base [] \<longleftrightarrow> True"
| "layers_ok base (i # is) \<longleftrightarrow>
     state_ok (si_added i) \<and> state_ok (si_removed i) \<and> si_added i \<inter> base = {} \<and> si_removed i \<subseteq> base \<and>
     si_full_state i = (base \<union> si_added i) - si_removed i \<and> layers_ok (si_full_state i) is"

definition full_of :: "compressed_state \<Rightarrow> short_state_info list \<Rightarrow> compressed_state" where
  "full_of base stack = (if stack = [] then base else si_full_state (last stack))"

lemma full_of_simps [simp]: "full_of base [] = base" "full_of base (i # is) = full_of (si_full_state i) is"
  "full_of base (st @ [i]) = si_full_state i"
  by (auto simp: full_of_def)

lemma layers_ok_snoc: "layers_ok base (st @ [i]) \<longleftrightarrow>
    layers_ok base st \<and> state_ok (si_added i) \<and> state_ok (si_removed i) \<and> si_added i \<inter> full_of base st = {} \<and>
    si_removed i \<subseteq> full_of base st \<and> si_full_state i = (full_of base st \<union> si_added i) - si_removed i"
  by (induction st arbitrary: base) auto

lemma layers_ok_full: "layers_ok base st \<Longrightarrow> state_ok base \<Longrightarrow> state_ok (full_of base st)"
  by (induction st arbitrary: base) auto

text \<open>The size of the differences of a stack.\<close>

definition diff_size :: "short_state_info \<Rightarrow> nat" where
  "diff_size i = card (si_added i) + card (si_removed i)"

definition stack_size :: "short_state_info list \<Rightarrow> nat" where
  "stack_size st = sum_list (map diff_size st)"

section \<open>Combining two differences\<close>

lemma merge_removed_all:
  "distinct ds \<Longrightarrow> foldl merge_removed (A, R) ds = (A - set ds, R \<union> (set ds - A))"
  by (induction ds arbitrary: A R) (auto simp: merge_removed_def)

lemma merge_new_all:
  "distinct ns \<Longrightarrow> foldl merge_new (A, R) ns = (A \<union> (set ns - R), R - set ns)"
  by (induction ns arbitrary: A R) (auto simp: merge_new_def)

lemma merge_diff_eq:
  assumes "finite N" "finite D"
  shows "merge_diff i N D =
    ((si_added i - D) \<union> (N - (si_removed i \<union> (D - si_added i))), (si_removed i \<union> (D - si_added i)) - N)"
  using assms by (simp add: merge_diff_def merge_removed_all merge_new_all)

text \<open>A difference to the top layer becomes a difference to the layer below with the same outcome.\<close>

lemma merge_diff_spec:
  assumes "layers_ok base [i]" "merge_diff i N D = (A', R')"
    and "state_ok N" "state_ok D" "N \<inter> si_full_state i = {}" "D \<subseteq> si_full_state i"
  shows "state_ok A'" "state_ok R'" "A' \<inter> base = {}" "R' \<subseteq> base" "(base \<union> A') - R' = (si_full_state i \<union> N) - D"
    "card A' + card R' \<le> diff_size i + (card N + card D)"
proof -
  have fin: "finite N" "finite D" "finite (si_added i)" "finite (si_removed i)"
    using assms(1,3,4) by (auto simp: state_ok_def)
  have A': "A' = (si_added i - D) \<union> (N - (si_removed i \<union> (D - si_added i)))"
    and R': "R' = (si_removed i \<union> (D - si_added i)) - N"
    using assms(2) fin by (simp_all add: merge_diff_eq)
  show "state_ok A'" "state_ok R'" using assms(1,3,4) by (auto simp: A' R')
  show "A' \<inter> base = {}" "R' \<subseteq> base" using assms(1,5,6) by (auto simp: A' R')
  show "(base \<union> A') - R' = (si_full_state i \<union> N) - D" using assms(1,5,6) by (auto simp: A' R')
  have "card A' \<le> card (si_added i) + card N" "card R' \<le> card (si_removed i) + card D"
    unfolding A' R' by (rule order_trans [OF card_mono card_Un_le], use fin in auto)+
  then show "card A' + card R' \<le> diff_size i + (card N + card D)" by (simp add: diff_size_def)
qed

section \<open>What is stored\<close>

text \<open>The stack of layers that the column holds for a state.\<close>

inductive stored :: "statediff_column \<Rightarrow> u64 \<Rightarrow> short_state_info list \<Rightarrow> bool" for db where
  stored_full: "get_statediff db h = Inr d \<Longrightarrow> sd_parent d = None \<Longrightarrow> stored db h (first_layer h d)"
| stored_layer: "get_statediff db h = Inr d \<Longrightarrow> sd_parent d = Some p \<Longrightarrow> stored db p st \<Longrightarrow>
    push_layer h d st = Inr st' \<Longrightarrow> stored db h st'"

inductive_cases storedE: "stored db h st"

lemma stored_not_Nil: "stored db h st \<Longrightarrow> st \<noteq> []"
  by (erule storedE) (auto simp: first_layer_def push_layer_def split: if_splits)

lemma stored_last: "stored db h st \<Longrightarrow> si_shortstatehash (last st) = h"
  by (erule storedE) (auto simp: first_layer_def push_layer_def split: if_splits)

lemma stored_unique: "stored db h st \<Longrightarrow> stored db h st' \<Longrightarrow> st = st'"
proof (induction arbitrary: st' rule: stored.induct)
  case (stored_full h d)
  from stored_full(3,1,2) show ?case by cases auto
next
  case (stored_layer h d p st st1)
  from stored_layer(6) show ?case
    using stored_layer(1,2,4,5) by cases (auto dest: stored_layer.IH)
qed

lemma stored_dom: "stored db h st \<Longrightarrow> h \<in> dom db"
  by (erule storedE) (auto simp: get_statediff_def split: option.splits)

lemma get_statediff_extend:
  "get_statediff db h = Inr d \<Longrightarrow> \<forall>x \<in> dom db. db' x = db x \<Longrightarrow> get_statediff db' h = Inr d"
  unfolding get_statediff_def by (cases "db h") (simp_all add: domI)

lemma stored_extend:
  assumes "stored db h st" "\<forall>x \<in> dom db. db' x = db x"
  shows "stored db' h st"
  using assms(1) by induction (auto intro: stored.intros get_statediff_extend [OF _ assms(2)])

section \<open>Loading what is stored\<close>

text \<open>What the \<open>lru_cache\<close> crate promises of an insertion: an entry found afterwards is the new one or was
  there before.\<close>

definition lru_law :: "lru_insert \<Rightarrow> bool" where
  "lru_law lru \<longleftrightarrow>
     (\<forall>k v cache k' v'. lru k v cache k' = Some v' \<longrightarrow> k' = k \<and> v' = v \<or> cache k' = Some v')"

definition cache_ok :: "statediff_column \<Rightarrow> stateinfo_cache \<Rightarrow> bool" where
  "cache_ok db cache \<longleftrightarrow> (\<forall>h st. cache h = Some st \<longrightarrow> stored db h st)"

lemma cache_ok_insert: "cache_ok db cache \<Longrightarrow> lru_law lru \<Longrightarrow> stored db h st \<Longrightarrow> cache_ok db (lru h st cache)"
  unfolding cache_ok_def lru_law_def by blast

lemma cache_ok_extend: "cache_ok db cache \<Longrightarrow> \<forall>x \<in> dom db. db' x = db x \<Longrightarrow> cache_ok db' cache"
  unfolding cache_ok_def using stored_extend by blast

lemma load_stored:
  assumes "stored db h st" "lru_law lru" "cache_ok db cache"
  shows "\<exists>cache'. load_shortstatehash_info lru db (cache, h) = Some (cache', Inr st) \<and> cache_ok db cache'"
  using assms(1)
proof induction
  case (stored_full h d)
  show ?case
  proof (cases "cache h")
    case None
    have "cache_ok db (lru h (first_layer h d) cache)"
      by (rule cache_ok_insert [OF assms(3,2) stored.stored_full [OF stored_full]])
    with None stored_full show ?thesis by (simp add: load_shortstatehash_info.simps cache_shortstatehash_info_def)
  next
    case (Some r)
    then have "r = first_layer h d"
      using assms(3) stored_unique stored.stored_full [OF stored_full] unfolding cache_ok_def by blast
    with Some show ?thesis using assms(3) by (simp add: load_shortstatehash_info.simps)
  qed
next
  case (stored_layer h d p st st')
  note here = stored.stored_layer [OF stored_layer(1-4)]
  show ?case
  proof (cases "cache h")
    case None
    obtain cache' where ih: "load_shortstatehash_info lru db (cache, p) = Some (cache', Inr st)" "cache_ok db cache'"
      using stored_layer.IH by blast
    have "cache_ok db (lru h st' cache')" by (rule cache_ok_insert [OF ih(2) assms(2) here])
    then show ?thesis using None stored_layer(1,2,4) ih(1)
      by (subst load_shortstatehash_info.simps) (simp add: cache_shortstatehash_info_def)
  next
    case (Some r)
    then have "r = st'" using assms(3) stored_unique here unfolding cache_ok_def by blast
    with Some show ?thesis using assms(3) by (simp add: load_shortstatehash_info.simps)
  qed
qed

section \<open>Saving a state\<close>

lemma get_save_statediff:
  assumes "sd_parent d \<noteq> Some 0" "state_ok (sd_added d)" "state_ok (sd_removed d)"
  shows "get_statediff (save_statediff db h d) h = Inr d"
  using decode_encode [OF assms] by (simp add: get_statediff_def save_statediff_def)

text \<open>The bound on the sizes under which the checked arithmetic succeeds.\<close>

abbreviation size_limit :: nat where "size_limit \<equiv> 2 ^ 30"

lemma checked_usize_small: "n \<le> 2 * (size_limit * size_limit) \<Longrightarrow> checked_usize n = Inr n"
  by (simp add: checked_usize_def)

text \<open>The outcome of a save: the new state is stored over the same or fewer layers, and nothing else
  changes.\<close>

definition saved_as ::
    "statediff_column \<Rightarrow> u64 \<Rightarrow> compressed_state \<Rightarrow> nat \<Rightarrow> statediff_column \<Rightarrow> bool" where
  "saved_as db h S n db' \<longleftrightarrow>
     (\<exists>st. stored db' h st \<and> layers_ok {} st \<and> full_of {} st = S \<and> length st \<le> 4 \<and> stack_size st \<le> n) \<and>
     (\<forall>x. x \<noteq> h \<longrightarrow> db' x = db x)"

definition chain_ok :: "statediff_column \<Rightarrow> short_state_info list \<Rightarrow> bool" where
  "chain_ok db st \<longleftrightarrow> st = [] \<or> stored db (si_shortstatehash (last st)) st"

lemma saved_asI:
  assumes "stored db' h st" "layers_ok {} st" "full_of {} st = S" "length st \<le> 4" "stack_size st \<le> n"
    and "\<And>x. x \<noteq> h \<Longrightarrow> db' x = db x"
  shows "saved_as db h S n db'"
  unfolding saved_as_def using assms by (intro conjI exI [of _ st] allI impI)

lemma saved_as_mono:
  assumes "saved_as db h S m db'" "m \<le> n"
  shows "saved_as db h S n db'"
proof -
  obtain st where "stored db' h st" "layers_ok {} st" "full_of {} st = S" "length st \<le> 4" "stack_size st \<le> m"
    using assms(1) unfolding saved_as_def by blast
  then show ?thesis using assms by (intro saved_asI [of _ _ st]) (auto simp: saved_as_def)
qed

lemma chain_ok_butlast:
  assumes "chain_ok db (st @ [i])"
  shows "chain_ok db st"
proof -
  have "stored db (si_shortstatehash i) (st @ [i])" using assms by (simp add: chain_ok_def)
  then show ?thesis
  proof cases
    case (stored_layer d p st0)
    then have "st0 = st" by (auto simp: push_layer_def split: if_splits)
    then show ?thesis using stored_layer(3) stored_last [OF stored_layer(3)] by (simp add: chain_ok_def)
  qed (simp add: first_layer_def chain_ok_def)
qed

lemma save_full:
  assumes "state_ok N" "h \<notin> dom db"
  shows "saved_as db h N (card N) (save_statediff db h \<lparr>sd_parent = None, sd_added = N, sd_removed = {}\<rparr>)"
proof -
  let ?d = "\<lparr>sd_parent = None, sd_added = N, sd_removed = {}\<rparr>"
  have "stored (save_statediff db h ?d) h (first_layer h ?d)"
    using assms(1) by (intro stored_full get_save_statediff) auto
  then show ?thesis
    by (rule saved_asI)
      (use assms(1) in \<open>simp_all add: save_statediff_def first_layer_def full_of_def stack_size_def diff_size_def\<close>)
qed

lemma save_layer:
  assumes "layers_ok {} st" "chain_ok db st" "st \<noteq> []" "length st \<le> 3" "h \<notin> dom db" "0 \<notin> dom db"
    and "state_ok N" "state_ok D" "N \<inter> full_of {} st = {}" "D \<subseteq> full_of {} st"
  shows "saved_as db h ((full_of {} st \<union> N) - D) (stack_size st + (card N + card D))
    (save_statediff db h \<lparr>sd_parent = Some (si_shortstatehash (last st)), sd_added = N, sd_removed = D\<rparr>)"
proof -
  let ?p = "si_shortstatehash (last st)"
  let ?d = "\<lparr>sd_parent = Some ?p, sd_added = N, sd_removed = D\<rparr>"
  let ?db = "save_statediff db h ?d"
  have p: "stored db ?p st" using assms(2,3) by (simp add: chain_ok_def)
  from stored_dom [OF this] have "?p \<noteq> 0" using assms(6) by metis
  then have get: "get_statediff ?db h = Inr ?d" using assms(7,8) by (intro get_save_statediff) auto
  have "stored ?db ?p st" using stored_extend [OF p] assms(5) by (auto simp: save_statediff_def)
  then obtain st' where st': "push_layer h ?d st = Inr st'" "stored ?db h st'"
    using stored_layer [OF get] assms(3) by (auto simp: push_layer_def)
  have full: "full_of {} st = si_full_state (last st)" using assms(3) by (simp add: full_of_def)
  have "layers_ok {} st'" "full_of {} st' = (full_of {} st \<union> N) - D" "length st' \<le> 4"
    "stack_size st' = stack_size st + (card N + card D)"
    using st'(1) assms(1,3,4,7-10) full
    by (auto simp: push_layer_def layers_ok_snoc stack_size_def diff_size_def)
  with st'(2) show ?thesis by (intro saved_asI [of _ _ st']) (simp_all add: save_statediff_def)
qed

lemma save_state_from_diff_spec:
  assumes "layers_ok {} st" "chain_ok db st" "h \<notin> dom db" "0 \<notin> dom db"
    and "state_ok N" "state_ok D" "N \<inter> full_of {} st = {}" "D \<subseteq> full_of {} st"
    and "stack_size st + (card N + card D) \<le> size_limit" "dts \<le> size_limit"
  shows "\<exists>db'. save_state_from_diff db h N D dts st = Inr db' \<and>
    saved_as db h ((full_of {} st \<union> N) - D) (stack_size st + (card N + card D)) db'"
  using assms
proof (induction st arbitrary: N D dts rule: rev_induct)
  case Nil
  then have "D = {}" by simp
  moreover have "checked_usize (card N) = Inr (card N)" using Nil by (intro checked_usize_small) simp
  ultimately show ?case
    using save_full [OF Nil(5,3)] by (subst save_state_from_diff.simps) (simp add: stack_size_def)
next
  case (snoc i st)
  let ?S = "(full_of {} (st @ [i]) \<union> N) - D" and ?n = "stack_size (st @ [i]) + (card N + card D)"
  have size: "?n = stack_size st + (diff_size i + (card N + card D))" by (simp add: stack_size_def)
  have layer: "layers_ok (full_of {} st) [i]" and full: "full_of {} (st @ [i]) = si_full_state i"
    using snoc.prems(1) by (simp_all add: layers_ok_snoc)
  obtain A R where m: "merge_diff i N D = (A, R)" by (cases "merge_diff i N D")
  have dom: "N \<inter> si_full_state i = {}" "D \<subseteq> si_full_state i" using snoc.prems(7,8) full by simp_all
  note spec = merge_diff_spec [OF layer m snoc.prems(5,6) dom]
  have lim: "card N + card D \<le> size_limit" "diff_size i \<le> size_limit" using snoc.prems(9) size by simp_all
  have merged: "\<exists>db'. save_state_from_diff db h A R (card N + card D) st = Inr db' \<and> saved_as db h ?S ?n db'"
  proof -
    have "layers_ok {} st" using snoc.prems(1) by (simp add: layers_ok_snoc)
    moreover have "stack_size st + (card A + card R) \<le> ?n" using spec(6) size by simp
    ultimately show ?thesis
      using snoc.IH [of A R "card N + card D"] chain_ok_butlast [OF snoc.prems(2)] snoc.prems(3,4,9) spec(1-5) lim(1) full
      by (auto intro: saved_as_mono)
  qed
  have arith: "checked_usize (card N + card D) = Inr (card N + card D)" "checked_usize (diff_size i) = Inr (diff_size i)"
    "checked_usize ((card N + card D) * (card N + card D)) = Inr ((card N + card D) * (card N + card D))"
    "checked_usize (2 * dts) = Inr (2 * dts)" "checked_usize (2 * dts * diff_size i) = Inr (2 * dts * diff_size i)"
    using lim snoc.prems(10) mult_le_mono [OF lim(1) lim(1)] mult_le_mono [OF snoc.prems(10) lim(2)]
    by (auto intro!: checked_usize_small)
  show ?case
  proof (cases "3 < length (st @ [i]) \<or> 2 * dts * diff_size i \<le> (card N + card D) * (card N + card D)")
    case True
    then have "save_state_from_diff db h N D dts (st @ [i]) = save_state_from_diff db h A R (card N + card D) st"
      using arith m by (subst save_state_from_diff.simps) (auto simp: diff_size_def [symmetric] Let_def)
    then show ?thesis using merged by simp
  next
    case False
    then have "save_state_from_diff db h N D dts (st @ [i]) = Inr (save_statediff db h
        \<lparr>sd_parent = Some (si_shortstatehash i), sd_added = N, sd_removed = D\<rparr>)"
      using arith by (subst save_state_from_diff.simps) (auto simp: diff_size_def [symmetric] Let_def)
    then show ?thesis using save_layer [OF snoc.prems(1,2) _ _ snoc.prems(3-8)] False by auto
  qed
qed

section \<open>Properties\<close>

text \<open>A difference is read back as it was written, when its parent is not zero and no entry has the
  short state key zero.\<close>

lemma statediff_roundtrip:
  assumes "sd_parent d \<noteq> Some 0" "finite (sd_added d)" "finite (sd_removed d)"
    and "\<forall>e \<in> sd_added d \<union> sd_removed d. \<exists>k s. k \<noteq> 0 \<and> e = compress_state_event k s"
  shows "get_statediff (save_statediff db h d) h = Inr d"
proof (rule get_save_statediff [OF assms(1)])
  have "entry_ok e" if "e \<in> sd_added d \<union> sd_removed d" for e
    using assms(4) [rule_format, OF that] by (auto simp: compress_state_event_ok)
  then show "state_ok (sd_added d)" "state_ok (sd_removed d)" using assms(2,3) by (simp_all add: state_ok_def)
qed

text \<open>C10: saving and loading. Given the stored layers of a parent state (or none) and the difference of
  a new state to it, saving succeeds for states of realistic size, and afterwards loading the new
  state hash, with any cache that agrees with the column, returns a stack of at most four layers
  whose top is exactly the new state; every other stored state still loads as before.\<close>

theorem save_then_load:
  assumes "st = [] \<or> stored db p st" "layers_ok {} st" "h \<notin> dom db" "0 \<notin> dom db"
    and "state_ok S" "stack_size st + card (S - full_of {} st) + card (full_of {} st - S) \<le> size_limit"
    and "diff_to_sibling \<le> size_limit" "lru_law lru"
  shows "\<exists>db' st'. save_state_from_diff db h (S - full_of {} st) (full_of {} st - S) diff_to_sibling st = Inr db' \<and>
    full_of {} st' = S \<and> length st' \<le> 4 \<and>
    (\<forall>cache. cache_ok db' cache \<longrightarrow> (\<exists>cache'. load_shortstatehash_info lru db' (cache, h) = Some (cache', Inr st'))) \<and>
    (\<forall>x sx. stored db x sx \<longrightarrow> stored db' x sx)"
proof -
  let ?F = "full_of {} st"
  have "state_ok ?F" using layers_ok_full [OF assms(2)] by simp
  moreover have "chain_ok db st" using assms(1) stored_last by (auto simp: chain_ok_def)
  ultimately obtain db' where db': "save_state_from_diff db h (S - ?F) (?F - S) diff_to_sibling st = Inr db'"
    "saved_as db h ((?F \<union> (S - ?F)) - (?F - S)) (stack_size st + (card (S - ?F) + card (?F - S))) db'"
    using save_state_from_diff_spec [OF assms(2) _ assms(3,4), of "S - ?F" "?F - S"] assms(5-7) by auto
  have "(?F \<union> (S - ?F)) - (?F - S) = S" by auto
  with db'(2) obtain st' where st': "stored db' h st'" "full_of {} st' = S" "length st' \<le> 4"
    unfolding saved_as_def by auto
  have keep: "stored db' x sx" if "stored db x sx" for x sx
    using stored_extend [OF that] db'(2) assms(3) unfolding saved_as_def by (metis domIff)
  have "\<exists>cache'. load_shortstatehash_info lru db' (cache, h) = Some (cache', Inr st')" if "cache_ok db' cache" for cache
    using load_stored [OF st'(1) assms(8) that] by blast
  with db'(1) st' keep show ?thesis by blast
qed

theorem save_then_load_witness:
  "\<exists>db' st'. save_state_from_diff Map.empty 9 {compress_state_event 1 2} {} 2 [] = Inr db' \<and>
     full_of {} st' = {compress_state_event 1 2} \<and>
     (\<exists>cache'. load_shortstatehash_info (\<lambda>k v c. c(k \<mapsto> v)) db' (Map.empty, 9) = Some (cache', Inr st'))"
proof -
  have "state_ok {compress_state_event 1 2}" by (simp add: compress_state_event_ok)
  moreover have "lru_law (\<lambda>k v c. c(k \<mapsto> v))" by (auto simp: lru_law_def split: if_splits)
  ultimately obtain db' st' where
    "save_state_from_diff Map.empty 9 {compress_state_event 1 2} {} 2 [] = Inr db'"
    "full_of {} st' = {compress_state_event 1 2}"
    "\<forall>cache. cache_ok db' cache \<longrightarrow>
       (\<exists>cache'. load_shortstatehash_info (\<lambda>k v c. c(k \<mapsto> v)) db' (cache, 9) = Some (cache', Inr st'))"
    using save_then_load [of "[]" Map.empty 0 9 "{compress_state_event 1 2}" 2 "\<lambda>k v c. c(k \<mapsto> v)"]
    by (auto simp: stack_size_def)
  moreover have "cache_ok db' Map.empty" by (simp add: cache_ok_def)
  ultimately show ?thesis by blast
qed

end
