(* ===== verification/Room_State.thy ===== *)
theory Room_State
  imports State_Diff
begin

text \<open>
  The state of rooms over time: \<open>save_state\<close> of \<open>src/service/rooms/state_compressor/mod.rs\<close>,
  \<open>set_event_state\<close>, \<open>append_to_state\<close>, \<open>set_room_state\<close> and the forward extremities of
  \<open>src/service/rooms/state/mod.rs\<close>, over the short ids, the layered differences and the cache.
  The digest of the crate \<open>sha2\<close> is the parameter \<open>sha\<close>; a load that never ends is \<^const>\<open>None\<close>;
  a state that was changed before an error is kept, as in the code.
\<close>

section \<open>The store\<close>

record room_store =
  rs_short :: short_state
  rs_statediffs :: statediff_column
  rs_cache :: stateinfo_cache
  roomid_shortstatehash :: "string \<rightharpoonup> u64"
  shorteventid_shortstatehash :: "u64 \<rightharpoonup> u64"
  roomid_pduleaves :: "(string \<times> string) set"

definition get_room_shortstatehash :: "room_store \<Rightarrow> string \<Rightarrow> u64 option" where
  "get_room_shortstatehash s room_id = roomid_shortstatehash s room_id"

definition set_room_state :: "room_store \<Rightarrow> string \<Rightarrow> u64 \<Rightarrow> room_store" where
  "set_room_state s room_id shortstatehash =
     s\<lparr>roomid_shortstatehash := (roomid_shortstatehash s)(room_id \<mapsto> shortstatehash)\<rparr>"

definition get_forward_extremities :: "room_store \<Rightarrow> string \<Rightarrow> string set" where
  "get_forward_extremities s room_id = snd ` Set.filter (\<lambda>(r, e). r = room_id) (roomid_pduleaves s)"

definition set_forward_extremities :: "room_store \<Rightarrow> string \<Rightarrow> string list \<Rightarrow> room_store" where
  "set_forward_extremities s room_id event_ids =
     s\<lparr>roomid_pduleaves :=
         foldl (\<lambda>leaves event_id. insert (room_id, event_id) leaves)
           (Set.filter (\<lambda>(r, e). r \<noteq> room_id) (roomid_pduleaves s)) event_ids\<rparr>"

section \<open>The hash of a state\<close>

definition delimited :: "byte list list \<Rightarrow> byte list" where
  "delimited inputs =
     (case inputs of [] \<Rightarrow> [] | input # inputs \<Rightarrow> foldl (\<lambda>ctx input. ctx @ [255] @ input) input inputs)"

definition calculate_hash :: "(byte list \<Rightarrow> byte list) \<Rightarrow> compressed_state \<Rightarrow> byte list" where
  "calculate_hash sha s = sha (delimited (sorted_list_of_set s))"

section \<open>Saving states\<close>

type_synonym 'a outcome = "(room_store \<times> (compressor_error + 'a)) option"

definition load_info :: "lru_insert \<Rightarrow> room_store \<Rightarrow> u64 \<Rightarrow> short_state_info list outcome" where
  "load_info lru s shortstatehash =
     map_option (\<lambda>(cache, r). (s\<lparr>rs_cache := cache\<rparr>, r))
       (load_shortstatehash_info lru (rs_statediffs s) (rs_cache s, shortstatehash))"

definition load_parents :: "lru_insert \<Rightarrow> room_store \<Rightarrow> u64 option \<Rightarrow> short_state_info list outcome" where
  "load_parents lru s previous =
     (case previous of None \<Rightarrow> Some (s, Inr []) | Some p \<Rightarrow> load_info lru s p)"

definition diff_to_parents ::
    "compressed_state \<Rightarrow> short_state_info list \<Rightarrow> compressed_state \<times> compressed_state" where
  "diff_to_parents new states_parents =
     (if states_parents = [] then (new, {})
      else (new - si_full_state (last states_parents), si_full_state (last states_parents) - new))"

definition save_from_diff ::
    "room_store \<Rightarrow> u64 \<Rightarrow> compressed_state \<Rightarrow> compressed_state \<Rightarrow> nat \<Rightarrow> short_state_info list \<Rightarrow>
     room_store \<times> (compressor_error + unit)" where
  "save_from_diff s shortstatehash new removed diff_to_sibling parents =
     (case save_state_from_diff (rs_statediffs s) shortstatehash new removed diff_to_sibling parents of
        Inl e \<Rightarrow> (s, Inl e)
      | Inr db \<Rightarrow> (s\<lparr>rs_statediffs := db\<rparr>, Inr ()))"

definition save_state ::
    "lru_insert \<Rightarrow> (byte list \<Rightarrow> byte list) \<Rightarrow> room_store \<Rightarrow> string \<Rightarrow> compressed_state \<Rightarrow>
     (u64 \<times> compressed_state \<times> compressed_state) outcome" where
  "save_state lru sha s room_id new_state_ids_compressed =
     (let previous_shortstatehash = get_room_shortstatehash s room_id;
          state_hash = calculate_hash sha new_state_ids_compressed;
          ((new_shortstatehash, already_existed), short) = get_or_create_shortstatehash (rs_short s) state_hash;
          s = s\<lparr>rs_short := short\<rparr>
      in if Some new_shortstatehash = previous_shortstatehash then Some (s, Inr (new_shortstatehash, {}, {}))
      else
        Option.bind (load_parents lru s previous_shortstatehash) (\<lambda>(s, r).
          let states_parents = (case r of Inl _ \<Rightarrow> [] | Inr stack \<Rightarrow> stack);
              (statediffnew, statediffremoved) = diff_to_parents new_state_ids_compressed states_parents
          in if already_existed then Some (s, Inr (new_shortstatehash, statediffnew, statediffremoved))
             else
               (case save_from_diff s new_shortstatehash statediffnew statediffremoved 2 states_parents of
                  (s, r) \<Rightarrow> Some (s, res_bind r (\<lambda>_. Inr (new_shortstatehash, statediffnew, statediffremoved))))))"

definition put_event_state :: "room_store \<Rightarrow> u64 \<Rightarrow> u64 \<Rightarrow> room_store" where
  "put_event_state s shorteventid shortstatehash =
     s\<lparr>shorteventid_shortstatehash := (shorteventid_shortstatehash s)(shorteventid \<mapsto> shortstatehash)\<rparr>"

definition set_event_state ::
    "lru_insert \<Rightarrow> (byte list \<Rightarrow> byte list) \<Rightarrow> room_store \<Rightarrow> string \<Rightarrow> string \<Rightarrow> compressed_state \<Rightarrow> u64 outcome" where
  "set_event_state lru sha s event_id room_id state_ids_compressed =
     (let (shorteventid, short) = get_or_create_shorteventid (rs_short s) event_id;
          s = s\<lparr>rs_short := short\<rparr>;
          previous_shortstatehash = get_room_shortstatehash s room_id;
          state_hash = calculate_hash sha state_ids_compressed;
          ((shortstatehash, already_existed), short) = get_or_create_shortstatehash (rs_short s) state_hash;
          s = s\<lparr>rs_short := short\<rparr>
      in if already_existed then Some (put_event_state s shorteventid shortstatehash, Inr shortstatehash)
      else
        Option.bind (load_parents lru s previous_shortstatehash) (\<lambda>(s, r).
          (case r of
             Inl e \<Rightarrow> Some (s, Inl e)
           | Inr states_parents \<Rightarrow>
               (let (statediffnew, statediffremoved) = diff_to_parents state_ids_compressed states_parents in
                (case save_from_diff s shortstatehash statediffnew statediffremoved 1000000 states_parents of
                   (s, Inl e) \<Rightarrow> Some (s, Inl e)
                 | (s, Inr _) \<Rightarrow> Some (put_event_state s shorteventid shortstatehash, Inr shortstatehash))))))"

text \<open>The entry of the previous state with the same short state key.\<close>

definition replaced_entry :: "short_state_info list \<Rightarrow> u64 \<Rightarrow> compressed_state_event option" where
  "replaced_entry states_parents shortstatekey =
     (if states_parents = [] then None
      else find (\<lambda>bytes. take 8 bytes = to_be_bytes shortstatekey)
             (sorted_list_of_set (si_full_state (last states_parents))))"

text \<open>The end of \<open>append_to_state\<close> for a state event: unless the entry is already there, a new state.\<close>

definition append_entry ::
    "room_store \<Rightarrow> u64 option \<Rightarrow> short_state_info list \<Rightarrow> u64 \<Rightarrow> compressed_state_event \<Rightarrow>
     room_store \<times> (compressor_error + u64)" where
  "append_entry s previous_shortstatehash states_parents shortstatekey new =
     (let replaces = replaced_entry states_parents shortstatekey in
      if Some new = replaces then
        (case previous_shortstatehash of Some p \<Rightarrow> (s, Inr p) | None \<Rightarrow> (s, Inl CompressorPanic))
      else
        (let (shortstatehash, short) = next_count (rs_short s);
             s = s\<lparr>rs_short := short\<rparr>;
             removed = (case replaces of Some e \<Rightarrow> {e} | None \<Rightarrow> {})
         in case save_from_diff s shortstatehash {new} removed 2 states_parents of
              (s, r) \<Rightarrow> (s, res_bind r (\<lambda>_. Inr shortstatehash))))"

definition append_to_state ::
    "lru_insert \<Rightarrow> room_store \<Rightarrow> string \<Rightarrow> string \<Rightarrow> string option \<Rightarrow> string \<Rightarrow> u64 outcome" where
  "append_to_state lru s event_id kind state_key_opt room_id =
     (let (shorteventid, short) = get_or_create_shorteventid (rs_short s) event_id;
          s = s\<lparr>rs_short := short\<rparr>;
          previous_shortstatehash = get_room_shortstatehash s room_id;
          s = (case previous_shortstatehash of Some p \<Rightarrow> put_event_state s shorteventid p | None \<Rightarrow> s)
      in case state_key_opt of
           None \<Rightarrow>
             (case previous_shortstatehash of
                Some p \<Rightarrow> Some (s, Inr p) | None \<Rightarrow> Some (s, Inl CompressorPanic))
         | Some state_key \<Rightarrow>
             Option.bind (load_parents lru s previous_shortstatehash) (\<lambda>(s, r).
               (case r of
                  Inl e \<Rightarrow> Some (s, Inl e)
                | Inr states_parents \<Rightarrow>
                    (let (shortstatekey, short) = get_or_create_shortstatekey (rs_short s) (kind, state_key);
                         (shorteventid, short) = get_or_create_shorteventid short event_id;
                         s = s\<lparr>rs_short := short\<rparr>;
                         new = compress_state_event shortstatekey shorteventid
                     in Some (append_entry s previous_shortstatehash states_parents shortstatekey new)))))"

section \<open>Spare short ids\<close>

text \<open>At least \<open>k\<close> more ids can be drawn from the counter.\<close>

definition spare :: "short_state \<Rightarrow> nat \<Rightarrow> bool" where
  "spare s k \<longleftrightarrow> unat (counter s) + k \<le> u64_max"

lemma spare_less: "spare s (Suc k) \<Longrightarrow> counter s < - 1"
proof -
  assume "spare s (Suc k)"
  then have "unat (counter s) < unat (- 1 :: u64)" 
    by (simp add: spare_def unsigned_minus_1_eq_mask mask_eq_exp_minus_1)
  then show ?thesis by (simp only: word_less_nat_alt)
qed

lemma spare_step: "spare s (Suc k) \<Longrightarrow> counter s' = counter s + 1 \<Longrightarrow> spare s' k"
  using spare_less [of s k] unat_counter_step by (auto simp: spare_def)

lemma spare_mono: "spare s k \<Longrightarrow> j \<le> k \<Longrightarrow> spare s j"
  by (simp add: spare_def)

text \<open>What creating ids keeps: the state is well formed, the counter only grows, the table of state
  hashes stays.\<close>

definition short_step :: "short_state \<Rightarrow> short_state \<Rightarrow> bool" where
  "short_step s s' \<longleftrightarrow> short_wf s' \<and> counter s \<le> counter s' \<and> (\<forall>k. spare s (Suc k) \<longrightarrow> spare s' k) \<and>
     statehash_shortstatehash s' = statehash_shortstatehash s"

lemma get_or_create_shorteventid_step:
  assumes "short_wf s" "spare s (Suc k)" "get_or_create_shorteventid s a = (n, s')"
  shows "short_step s s'" "0 < n" "get_shorteventid s' a = Some n"
proof -
  note f = assms(3) [unfolded get_or_create_fetch(1)]
  note sp = eid.fetch_or_create_spec [OF assms(1) spare_less [OF assms(2)] f]
  have "counter s' = counter s \<or> counter s' = counter s + 1" "statehash_shortstatehash s' = statehash_shortstatehash s"
    using assms(3) next_count_value [OF spare_less [OF assms(2)]]
    by (auto simp: get_or_create_shorteventid_def create_shorteventid_def split: option.splits)
  then have "spare s (Suc j) \<Longrightarrow> spare s' j" for j
    using spare_step spare_mono [of s "Suc j" j] by (auto simp: spare_def)
  with sp(1,8) \<open>statehash_shortstatehash s' = _\<close> show "short_step s s'" by (simp add: short_step_def)
  show "0 < n" "get_shorteventid s' a = Some n" by (rule sp)+
qed

lemma get_or_create_shortstatekey_step:
  assumes "short_wf s" "spare s (Suc k)" "get_or_create_shortstatekey s a = (n, s')"
  shows "short_step s s'" "0 < n" "get_shortstatekey s' a = Some n"
    "get_shorteventid s' = get_shorteventid s"
proof -
  note f = assms(3) [unfolded get_or_create_fetch(2)]
  note sp = skey.fetch_or_create_spec [OF assms(1) spare_less [OF assms(2)] f]
  have "counter s' = counter s \<or> counter s' = counter s + 1" and t: "statehash_shortstatehash s' = statehash_shortstatehash s"
    and e: "get_shorteventid s' = get_shorteventid s"
    using assms(3) next_count_value [OF spare_less [OF assms(2)]]
    by (auto simp: get_or_create_shortstatekey_def create_shortstatekey_def look_defs fun_eq_iff split: option.splits)
  then have "spare s (Suc j) \<Longrightarrow> spare s' j" for j
    using spare_step spare_mono [of s "Suc j" j] by (auto simp: spare_def)
  with sp(1,8) t show "short_step s s'" by (simp add: short_step_def)
  show "0 < n" "get_shortstatekey s' a = Some n" by (rule sp)+
  show "get_shorteventid s' = get_shorteventid s" by (rule e)
qed

lemma next_count_step:
  assumes "short_wf s" "spare s (Suc k)" "next_count s = (n, s')"
  shows "short_step s s'" "counter s < n" "n = counter s'"
proof -
  note less = spare_less [OF assms(2)]
  have s': "n = counter s + 1" "s' = s\<lparr>counter := counter s + 1, global_count := Some (to_be_bytes (counter s + 1))\<rparr>"
    using assms(3) next_count_value [OF less] by auto
  have "short_wf s'" using assms(1) less by (auto simp: s' short_wf_defs intro!: wf_rules)
  moreover have "spare s (Suc j) \<Longrightarrow> spare s' j" for j by (rule spare_step) (simp_all add: s')
  ultimately show "short_step s s'" "counter s < n" "n = counter s'"
    using counter_step [OF less] by (auto simp: short_step_def s')
qed

lemma get_or_create_shortstatehash_step:
  assumes "short_wf s" "spare s (Suc k)" "get_or_create_shortstatehash s h = ((n, existed), s')"
  shows "short_wf s'" "counter s \<le> counter s'" "spare s' k" "statehash_shortstatehash s' = (statehash_shortstatehash s)(h \<mapsto> n)"
    "existed \<longleftrightarrow> statehash_shortstatehash s h = Some n" "\<not> existed \<Longrightarrow> counter s < n \<and> n \<le> counter s'"
    "get_shorteventid s' = get_shorteventid s"
proof -
  note less = spare_less [OF assms(2)]
  have "short_wf s' \<and> counter s \<le> counter s' \<and> spare s' k \<and> statehash_shortstatehash s' = (statehash_shortstatehash s)(h \<mapsto> n) \<and>
    (existed \<longleftrightarrow> statehash_shortstatehash s h = Some n) \<and> (\<not> existed \<longrightarrow> counter s < n \<and> n \<le> counter s') \<and>
    get_shorteventid s' = get_shorteventid s"
  proof (cases "statehash_shortstatehash s h")
    case None
    then have c: "create_shortstatehash s h = (n, s')" "\<not> existed"
      using assms(3) by (auto simp: get_or_create_shortstatehash_def split: prod.splits)
    note v = create_counts(4) [OF less c(1)]
    show ?thesis
      using c None short_wf_create_shortstatehash [OF assms(1) less c(1)] v counter_step [OF less]
        spare_step [OF assms(2), of s'] create_looks(4) [OF c(1)]
      by (auto simp: look_defs create_shortstatehash_def next_count_value [OF less] fun_eq_iff)
  next
    case (Some m)
    then show ?thesis using assms spare_mono [OF assms(2), of k]
      by (auto simp: get_or_create_shortstatehash_def)
  qed
  then show "short_wf s'" "counter s \<le> counter s'" "spare s' k" "statehash_shortstatehash s' = (statehash_shortstatehash s)(h \<mapsto> n)"
    "existed \<longleftrightarrow> statehash_shortstatehash s h = Some n" "\<not> existed \<Longrightarrow> counter s < n \<and> n \<le> counter s'"
    "get_shorteventid s' = get_shorteventid s" by blast+
qed

section \<open>What a state hash stands for\<close>

text \<open>The state a cold load returns, that is, with a cache that keeps nothing.\<close>

definition state_at :: "statediff_column \<Rightarrow> u64 \<Rightarrow> compressed_state option" where
  "state_at db h =
     (case load_shortstatehash_info (\<lambda>_ _ cache. cache) db (Map.empty, h) of
        Some (_, Inr st) \<Rightarrow> Some (full_of {} st) | _ \<Rightarrow> None)"

definition previous_state :: "statediff_column \<Rightarrow> u64 option \<Rightarrow> compressed_state" where
  "previous_state db previous =
     (case previous of None \<Rightarrow> {} | Some p \<Rightarrow> (case state_at db p of Some s \<Rightarrow> s | None \<Rightarrow> {}))"

lemma state_at_stored: "stored db h st \<Longrightarrow> state_at db h = Some (full_of {} st)"
  using load_stored [of db h st "\<lambda>_ _ cache. cache" Map.empty] by (auto simp: state_at_def lru_law_def cache_ok_def)

lemma state_at_absent: "h \<notin> dom db \<Longrightarrow> state_at db h = None"
  by (simp add: state_at_def load_shortstatehash_info.simps get_statediff_def domIff)

text \<open>A column in which every state can be loaded.\<close>

definition diffs_ok :: "statediff_column \<Rightarrow> bool" where
  "diffs_ok db \<longleftrightarrow> 0 \<notin> dom db \<and> (\<forall>h \<in> dom db. \<exists>st. stored db h st \<and> layers_ok {} st \<and> length st \<le> 4)"

lemma diffs_ok_stored:
  assumes "diffs_ok db" "h \<in> dom db"
  obtains st where "stored db h st" "layers_ok {} st" "length st \<le> 4"
  using assms unfolding diffs_ok_def by blast

lemma diffs_ok_layers: "diffs_ok db \<Longrightarrow> stored db h st \<Longrightarrow> layers_ok {} st"
  using diffs_ok_stored [of db h] stored_unique [of db h st] stored_dom [of db h st] by metis

lemma saved_diffs_ok:
  assumes "diffs_ok db" "saved_as db h S n db'" "h \<notin> dom db" "h \<noteq> 0"
  shows "diffs_ok db'" "state_at db' h = Some S" "\<And>x. x \<noteq> h \<Longrightarrow> state_at db' x = state_at db x"
    "dom db' = insert h (dom db)" "\<forall>x \<in> dom db. db' x = db x"
proof -
  obtain st where st: "stored db' h st" "layers_ok {} st" "full_of {} st = S" "length st \<le> 4"
    using assms(2) unfolding saved_as_def by blast
  have same: "db' x = db x" if "x \<noteq> h" for x using assms(2) that unfolding saved_as_def by blast
  show keep: "\<forall>x \<in> dom db. db' x = db x" using same assms(3) by metis
  show dom: "dom db' = insert h (dom db)"
  proof (rule set_eqI)
    show "x \<in> dom db' \<longleftrightarrow> x \<in> insert h (dom db)" for x
      using same [of x] stored_dom [OF st(1)] by (cases "x = h") (auto simp: domIff)
  qed
  have old: "\<exists>sx. stored db x sx \<and> stored db' x sx \<and> layers_ok {} sx \<and> length sx \<le> 4" if "x \<in> dom db" for x
    using diffs_ok_stored [OF assms(1) that] stored_extend [OF _ keep] by metis
  show "diffs_ok db'"
    using assms(1,4) dom old st unfolding diffs_ok_def by (metis insert_iff)
  show "state_at db' h = Some S" using state_at_stored [OF st(1)] st(3) by simp
  show "state_at db' x = state_at db x" if "x \<noteq> h" for x
  proof (cases "x \<in> dom db")
    case True
    then show ?thesis using old [OF True] state_at_stored by metis
  next
    case False
    then show ?thesis using that dom by (simp add: state_at_absent)
  qed
qed

section \<open>The invariant of the store\<close>

definition store_ok :: "room_store \<Rightarrow> bool" where
  "store_ok s \<longleftrightarrow>
     short_wf (rs_short s) \<and> diffs_ok (rs_statediffs s) \<and> cache_ok (rs_statediffs s) (rs_cache s) \<and>
     (\<forall>h \<in> dom (rs_statediffs s). h \<le> counter (rs_short s)) \<and>
     ran (roomid_shortstatehash s) \<subseteq> dom (rs_statediffs s) \<and>
     ran (shorteventid_shortstatehash s) \<subseteq> dom (rs_statediffs s)"

text \<open>Every hash in the table of state hashes is the hash of the state that is saved for it.\<close>

definition hashes_saved :: "(byte list \<Rightarrow> byte list) \<Rightarrow> room_store \<Rightarrow> bool" where
  "hashes_saved sha s \<longleftrightarrow> (\<forall>x h. statehash_shortstatehash (rs_short s) x = Some h \<longrightarrow>
     (\<exists>T. state_at (rs_statediffs s) h = Some T \<and> state_ok T \<and> x = calculate_hash sha T))"

text \<open>The digest does not confuse the input for \<open>S\<close> with that for a state that is saved.\<close>

definition no_collision :: "(byte list \<Rightarrow> byte list) \<Rightarrow> room_store \<Rightarrow> compressed_state \<Rightarrow> bool" where
  "no_collision sha s S \<longleftrightarrow> (\<forall>h T. state_at (rs_statediffs s) h = Some T \<longrightarrow>
     calculate_hash sha T = calculate_hash sha S \<longrightarrow>
     delimited (sorted_list_of_set T) = delimited (sorted_list_of_set S))"

lemma delimited_eq: "delimited xs = tl (concat (map (\<lambda>x. 255 # x) xs))"
proof (cases xs)
  case (Cons x xs')
  have "foldl (\<lambda>ctx input. ctx @ [255] @ input) y ys = y @ concat (map (\<lambda>x. 255 # x) ys)" for y ys
    by (induction ys arbitrary: y) simp_all
  then show ?thesis by (simp add: delimited_def Cons)
qed (simp add: delimited_def)

text \<open>Lists of sixteen-byte entries have different inputs.\<close>

lemma delimited_inj:
  assumes "\<forall>e \<in> set xs. length e = 16" "\<forall>e \<in> set ys. length e = 16" "delimited xs = delimited ys"
  shows "xs = ys"
proof -
  let ?g = "\<lambda>xs. concat (map (\<lambda>x. 255 # x) xs) :: byte list"
  have inj: "xs = ys" if "?g xs = ?g ys" "\<forall>e \<in> set xs. length e = 16" "\<forall>e \<in> set ys. length e = 16" for xs ys
    using that
  proof (induction xs arbitrary: ys)
    case Nil
    then show ?case by (cases ys) auto
  next
    case (Cons x xs)
    then obtain y ys' where "ys = y # ys'" by (cases ys) auto
    then show ?case using Cons by auto
  qed
  have ne: "tl (?g zs) \<noteq> []" if "zs \<noteq> []" "\<forall>e \<in> set zs. length e = 16" for zs
    using that by (cases zs) auto
  have "?g xs = ?g ys"
  proof (cases "xs = [] \<or> ys = []")
    case True
    then have "xs = [] \<and> ys = []" using assms ne [of xs] ne [of ys] unfolding delimited_eq by (metis concat.simps(1) list.map(1) list.sel(2))
    then show ?thesis by simp
  next
    case False
    then show ?thesis using assms(3) by (auto simp: delimited_eq neq_Nil_conv)
  qed
  then show ?thesis using inj assms(1,2) by blast
qed

lemma no_collision_eq:
  assumes "no_collision sha s S" "state_at (rs_statediffs s) h = Some T" "state_ok T" "state_ok S"
    and "calculate_hash sha T = calculate_hash sha S"
  shows "T = S"
proof -
  have "delimited (sorted_list_of_set T) = delimited (sorted_list_of_set S)"
    using assms(1,2,5) unfolding no_collision_def by blast
  then have "sorted_list_of_set T = sorted_list_of_set S"
    using assms(3,4) by (intro delimited_inj) (auto simp: state_ok_def entry_ok_def)
  then show ?thesis using assms(3,4) sorted_list_of_set.sorted_key_list_of_set_inject unfolding state_ok_def by blast
qed

text \<open>The sizes stay within the checked arithmetic.\<close>

definition fits :: "statediff_column \<Rightarrow> u64 option \<Rightarrow> nat \<Rightarrow> bool" where
  "fits db previous m \<longleftrightarrow> m \<le> size_limit \<and>
     (\<forall>p st. previous = Some p \<longrightarrow> stored db p st \<longrightarrow> stack_size st + m \<le> size_limit)"

lemma load_parents_ok:
  assumes "diffs_ok (rs_statediffs s)" "cache_ok (rs_statediffs s) (rs_cache s)" "lru_law lru"
    and "\<And>p. previous = Some p \<Longrightarrow> p \<in> dom (rs_statediffs s)"
  obtains cache st where "load_parents lru s previous = Some (s\<lparr>rs_cache := cache\<rparr>, Inr st)"
    "cache_ok (rs_statediffs s) cache" "layers_ok {} st" "chain_ok (rs_statediffs s) st"
    "full_of {} st = previous_state (rs_statediffs s) previous"
    "\<And>m. fits (rs_statediffs s) previous m \<Longrightarrow> stack_size st + m \<le> size_limit"
proof (cases previous)
  case None
  show ?thesis
    by (rule that [of "rs_cache s" "[]"])
      (simp_all add: None load_parents_def assms(2) chain_ok_def previous_state_def fits_def stack_size_def)
next
  case (Some p)
  obtain st where st: "stored (rs_statediffs s) p st" "layers_ok {} st"
    using diffs_ok_stored [OF assms(1) assms(4) [OF Some]] by metis
  obtain cache where c: "load_shortstatehash_info lru (rs_statediffs s) (rs_cache s, p) = Some (cache, Inr st)"
    "cache_ok (rs_statediffs s) cache" using load_stored [OF st(1) assms(3,2)] by blast
  show ?thesis
  proof (rule that [of cache st])
    show "load_parents lru s previous = Some (s\<lparr>rs_cache := cache\<rparr>, Inr st)"
      by (simp add: Some load_parents_def load_info_def c)
    show "chain_ok (rs_statediffs s) st" using st(1) stored_last [OF st(1)] by (simp add: chain_ok_def)
    show "full_of {} st = previous_state (rs_statediffs s) previous"
      by (simp add: Some previous_state_def state_at_stored [OF st(1)])
    show "stack_size st + m \<le> size_limit" if "fits (rs_statediffs s) previous m" for m
      using that st(1) by (simp add: fits_def Some)
  qed (use c st in auto)
qed

lemma diff_to_parents_eq: "diff_to_parents S st = (S - full_of {} st, full_of {} st - S)"
  by (simp add: diff_to_parents_def full_of_def)

text \<open>A save of a difference to the loaded parents.\<close>

lemma save_from_diff_ok:
  assumes "diffs_ok (rs_statediffs s)" "layers_ok {} st" "chain_ok (rs_statediffs s) st"
    and "h \<notin> dom (rs_statediffs s)" "h \<noteq> 0"
    and "state_ok N" "state_ok D" "N \<inter> full_of {} st = {}" "D \<subseteq> full_of {} st"
    and "stack_size st + (card N + card D) \<le> size_limit" "dts \<le> size_limit"
  obtains db' where "save_from_diff s h N D dts st = (s\<lparr>rs_statediffs := db'\<rparr>, Inr ())"
    "diffs_ok db'" "state_at db' h = Some ((full_of {} st \<union> N) - D)"
    "\<forall>x. x \<noteq> h \<longrightarrow> state_at db' x = state_at (rs_statediffs s) x"
    "dom db' = insert h (dom (rs_statediffs s))" "\<forall>x \<in> dom (rs_statediffs s). db' x = rs_statediffs s x"
proof -
  have "0 \<notin> dom (rs_statediffs s)" using assms(1) by (simp add: diffs_ok_def)
  then obtain db' where db': "save_state_from_diff (rs_statediffs s) h N D dts st = Inr db'"
    "saved_as (rs_statediffs s) h ((full_of {} st \<union> N) - D) (stack_size st + (card N + card D)) db'"
    using save_state_from_diff_spec [OF assms(2,3,4) _ assms(6-11)] by blast
  note ok = saved_diffs_ok [OF assms(1) db'(2) assms(4,5)]
  show ?thesis by (rule that [of db']) (simp_all add: save_from_diff_def db'(1) ok)
qed

section \<open>How the operations keep the invariant\<close>

lemma store_okD:
  assumes "store_ok s"
  shows "short_wf (rs_short s)" "diffs_ok (rs_statediffs s)" "cache_ok (rs_statediffs s) (rs_cache s)"
    "h \<in> dom (rs_statediffs s) \<Longrightarrow> h \<le> counter (rs_short s)"
    "get_room_shortstatehash s room = Some h \<Longrightarrow> h \<in> dom (rs_statediffs s)"
  using assms by (auto simp: store_ok_def get_room_shortstatehash_def intro: ranI)

lemma store_ok_short:
  "store_ok s \<Longrightarrow> short_wf short \<Longrightarrow> counter (rs_short s) \<le> counter short \<Longrightarrow> store_ok (s\<lparr>rs_short := short\<rparr>)"
  unfolding store_ok_def by (simp, meson order_trans)

lemma store_ok_cache: "store_ok s \<Longrightarrow> cache_ok (rs_statediffs s) cache \<Longrightarrow> store_ok (s\<lparr>rs_cache := cache\<rparr>)"
  by (simp add: store_ok_def)

lemma store_ok_save:
  assumes "store_ok s" "diffs_ok db'" "dom db' = insert h (dom (rs_statediffs s))"
    "\<forall>x \<in> dom (rs_statediffs s). db' x = rs_statediffs s x" "h \<le> counter (rs_short s)"
  shows "store_ok (s\<lparr>rs_statediffs := db'\<rparr>)"
  using assms cache_ok_extend [of "rs_statediffs s" "rs_cache s" db'] by (auto simp: store_ok_def)

lemma store_ok_put: "store_ok s \<Longrightarrow> h \<in> dom (rs_statediffs s) \<Longrightarrow> store_ok (put_event_state s e h)"
  unfolding store_ok_def put_event_state_def ran_def by auto

lemma store_ok_fresh: "store_ok s \<Longrightarrow> counter (rs_short s) < h \<Longrightarrow> h \<notin> dom (rs_statediffs s) \<and> h \<noteq> 0"
  using store_okD(4) [of s h] by (metis leD word_not_simps(1))

text \<open>States that were saved before are kept.\<close>

definition states_kept :: "room_store \<Rightarrow> room_store \<Rightarrow> bool" where
  "states_kept s s' \<longleftrightarrow> (\<forall>h S. state_at (rs_statediffs s) h = Some S \<longrightarrow> state_at (rs_statediffs s') h = Some S)"

lemma states_kept_save:
  "(\<And>x. x \<noteq> h \<Longrightarrow> state_at db' x = state_at db x) \<Longrightarrow> h \<notin> dom db \<Longrightarrow> state_at db x = Some S \<Longrightarrow> state_at db' x = Some S"
  by (metis option.distinct(1) state_at_absent)

text \<open>The part that \<open>save_state\<close> and \<open>set_event_state\<close> have in common: a fresh hash, the parents, the
  difference, the save.\<close>

lemma save_new_state:
  assumes "store_ok s" "lru_law lru" "previous = get_room_shortstatehash s room"
    and "h \<notin> dom (rs_statediffs s)" "h \<noteq> 0" "h \<le> counter (rs_short s)" "state_ok S" "dts \<le> size_limit"
    and "fits (rs_statediffs s) previous (card S + card (previous_state (rs_statediffs s) previous))"
  obtains cache db' st where
    "load_parents lru s previous = Some (s\<lparr>rs_cache := cache\<rparr>, Inr st)"
    "diff_to_parents S st = (S - previous_state (rs_statediffs s) previous, previous_state (rs_statediffs s) previous - S)"
    "save_from_diff (s\<lparr>rs_cache := cache\<rparr>) h (S - previous_state (rs_statediffs s) previous)
       (previous_state (rs_statediffs s) previous - S) dts st
       = (s\<lparr>rs_cache := cache, rs_statediffs := db'\<rparr>, Inr ())"
    "store_ok (s\<lparr>rs_cache := cache, rs_statediffs := db'\<rparr>)" "state_at db' h = Some S"
    "dom db' = insert h (dom (rs_statediffs s))"
    "\<forall>x T. state_at (rs_statediffs s) x = Some T \<longrightarrow> state_at db' x = Some T"
proof -
  note ok = store_okD [OF assms(1)]
  obtain cache st where l: "load_parents lru s previous = Some (s\<lparr>rs_cache := cache\<rparr>, Inr st)"
    "cache_ok (rs_statediffs s) cache" "layers_ok {} st" "chain_ok (rs_statediffs s) st"
    "full_of {} st = previous_state (rs_statediffs s) previous"
    "\<And>m. fits (rs_statediffs s) previous m \<Longrightarrow> stack_size st + m \<le> size_limit"
    using load_parents_ok [OF ok(2,3) assms(2), of previous] ok(5) assms(3) by metis
  let ?F = "previous_state (rs_statediffs s) previous" and ?s = "s\<lparr>rs_cache := cache\<rparr>"
  have F: "state_ok ?F" using layers_ok_full [OF l(3)] l(5) by simp
  then have "card (S - ?F) + card (?F - S) \<le> card S + card ?F"
    using assms(7) by (intro add_mono card_mono) (auto simp: state_ok_def)
  then have size: "stack_size st + (card (S - ?F) + card (?F - S)) \<le> size_limit" using l(6) [OF assms(9)] by linarith
  have chain: "chain_ok (rs_statediffs ?s) st" using l(4) by simp
  have s: "diffs_ok (rs_statediffs ?s)" "h \<notin> dom (rs_statediffs ?s)" using ok(2) assms(4) by simp_all
  have d: "state_ok (S - ?F)" "state_ok (?F - S)" "(S - ?F) \<inter> full_of {} st = {}" "?F - S \<subseteq> full_of {} st"
    using F assms(7) l(5) by auto
  obtain db' where db': "save_from_diff ?s h (S - ?F) (?F - S) dts st = (?s\<lparr>rs_statediffs := db'\<rparr>, Inr ())"
    "diffs_ok db'" "state_at db' h = Some ((full_of {} st \<union> (S - ?F)) - (?F - S))"
    "\<forall>x. x \<noteq> h \<longrightarrow> state_at db' x = state_at (rs_statediffs ?s) x"
    "dom db' = insert h (dom (rs_statediffs ?s))" "\<forall>x \<in> dom (rs_statediffs ?s). db' x = rs_statediffs ?s x"
    using save_from_diff_ok [OF s(1) l(3) chain s(2) assms(5) d size assms(8)] .
  show ?thesis
  proof (rule that [OF l(1)])
    show "diff_to_parents S st = (S - ?F, ?F - S)" by (simp add: diff_to_parents_eq l(5))
    show "save_from_diff ?s h (S - ?F) (?F - S) dts st = (s\<lparr>rs_cache := cache, rs_statediffs := db'\<rparr>, Inr ())"
      using db'(1) by simp
    show "store_ok (s\<lparr>rs_cache := cache, rs_statediffs := db'\<rparr>)"
      using store_ok_save [OF store_ok_cache [OF assms(1) l(2)] db'(2,5,6)] assms(6) by simp
    have "(full_of {} st \<union> (S - ?F)) - (?F - S) = S" using l(5) by auto
    then show "state_at db' h = Some S" using db'(3) by simp
    show "dom db' = insert h (dom (rs_statediffs s))" using db'(5) by simp
    show "\<forall>x T. state_at (rs_statediffs s) x = Some T \<longrightarrow> state_at db' x = Some T"
      using states_kept_save [of h db' "rs_statediffs s"] db'(4) assms(4) by simp
  qed
qed

text \<open>The stage in which the hash of a state gets its short id.\<close>

lemma hashes_saved_mono:
  "hashes_saved sha s \<Longrightarrow> states_kept s s' \<Longrightarrow>
   statehash_shortstatehash (rs_short s') = statehash_shortstatehash (rs_short s) \<Longrightarrow> hashes_saved sha s'"
  unfolding hashes_saved_def states_kept_def by metis

lemma hashes_saved_insert:
  assumes "hashes_saved sha s" "states_kept s s'" "state_at (rs_statediffs s') h = Some S" "state_ok S"
    and "statehash_shortstatehash (rs_short s') = (statehash_shortstatehash (rs_short s))(calculate_hash sha S \<mapsto> h)"
  shows "hashes_saved sha s'"
  using assms unfolding hashes_saved_def states_kept_def by (metis fun_upd_apply option.inject)

lemma statehash_stage:
  assumes "store_ok s" "hashes_saved sha s" "spare (rs_short s) (Suc k)" "state_ok S" "no_collision sha s S"
    and "get_or_create_shortstatehash (rs_short s) (calculate_hash sha S) = ((h, existed), short)"
  shows "store_ok (s\<lparr>rs_short := short\<rparr>)" "get_shorteventid short = get_shorteventid (rs_short s)"
    "existed \<Longrightarrow> state_at (rs_statediffs s) h = Some S \<and> h \<in> dom (rs_statediffs s)"
    "\<not> existed \<Longrightarrow> h \<notin> dom (rs_statediffs s) \<and> h \<noteq> 0 \<and> h \<le> counter short"
    "rs_short s' = short \<Longrightarrow> states_kept s s' \<Longrightarrow> state_at (rs_statediffs s') h = Some S \<Longrightarrow> hashes_saved sha s'"
proof -
  note st = get_or_create_shortstatehash_step [OF store_okD(1) [OF assms(1)] assms(3,6)]
  show "store_ok (s\<lparr>rs_short := short\<rparr>)" by (rule store_ok_short [OF assms(1) st(1,2)])
  show "get_shorteventid short = get_shorteventid (rs_short s)" by (rule st(7))
  show "state_at (rs_statediffs s) h = Some S \<and> h \<in> dom (rs_statediffs s)" if ex: existed
  proof -
    obtain T where T: "state_at (rs_statediffs s) h = Some T" "state_ok T" "calculate_hash sha S = calculate_hash sha T"
      using st(5) assms(2) ex unfolding hashes_saved_def by metis
    then have "T = S" using no_collision_eq [OF assms(5) T(1,2) assms(4)] by simp
    then show ?thesis using T(1) state_at_absent by (metis option.distinct(1))
  qed
  show "\<not> existed \<Longrightarrow> h \<notin> dom (rs_statediffs s) \<and> h \<noteq> 0 \<and> h \<le> counter short"
    using st(6) store_ok_fresh [OF assms(1)] by blast
  show "rs_short s' = short \<Longrightarrow> states_kept s s' \<Longrightarrow> state_at (rs_statediffs s') h = Some S \<Longrightarrow> hashes_saved sha s'"
    using hashes_saved_insert [OF assms(2)] assms(4) st(4) by blast
qed

lemma shorteventid_stage:
  assumes "store_ok s" "spare (rs_short s) (Suc k)" "get_or_create_shorteventid (rs_short s) a = (e, short)"
  shows "store_ok (s\<lparr>rs_short := short\<rparr>)" "spare short k" "get_shorteventid short a = Some e"
    "statehash_shortstatehash short = statehash_shortstatehash (rs_short s)" "0 < e"
  using get_or_create_shorteventid_step [OF store_okD(1) [OF assms(1)] assms(2,3)] assms(1,2) store_ok_short [OF assms(1)]
  by (auto simp: short_step_def)

text \<open>A state has one entry per short state key.\<close>

definition keyed :: "compressed_state \<Rightarrow> bool" where
  "keyed S \<longleftrightarrow> inj_on (take 8) S"

definition with_entry :: "compressed_state \<Rightarrow> u64 \<Rightarrow> u64 \<Rightarrow> compressed_state" where
  "with_entry S k e = insert (compress_state_event k e) {x \<in> S. take 8 x \<noteq> to_be_bytes k}"

lemma take_compress [simp]: "take 8 (compress_state_event k e) = to_be_bytes k"
  by (simp add: compress_state_event_def)

lemma keyed_with_entry: "keyed S \<Longrightarrow> keyed (with_entry S k e)"
  by (auto simp: keyed_def with_entry_def inj_on_def)

lemma replaced_entry_spec:
  assumes "finite (full_of {} st)" "keyed (full_of {} st)"
  shows "replaced_entry st k = None \<Longrightarrow> \<forall>x \<in> full_of {} st. take 8 x \<noteq> to_be_bytes k"
    "replaced_entry st k = Some x \<Longrightarrow> x \<in> full_of {} st \<and> take 8 x = to_be_bytes k"
    "x \<in> full_of {} st \<Longrightarrow> take 8 x = to_be_bytes k \<Longrightarrow> replaced_entry st k = Some x"
proof -
  let ?xs = "sorted_list_of_set (full_of {} st)"
  have r: "replaced_entry st k = find (\<lambda>bytes. take 8 bytes = to_be_bytes k) ?xs"
    by (simp add: replaced_entry_def full_of_def)
  have set: "set ?xs = full_of {} st" using assms(1) by simp
  show none: "replaced_entry st k = None \<Longrightarrow> \<forall>x \<in> full_of {} st. take 8 x \<noteq> to_be_bytes k"
    using set by (auto simp: r find_None_iff)
  show some: "replaced_entry st k = Some x \<Longrightarrow> x \<in> full_of {} st \<and> take 8 x = to_be_bytes k" for x
    using set unfolding r find_Some_iff by (metis nth_mem)
  show "x \<in> full_of {} st \<Longrightarrow> take 8 x = to_be_bytes k \<Longrightarrow> replaced_entry st k = Some x"
    using none some assms(2) unfolding keyed_def inj_on_def by (metis not_None_eq)
qed

text \<open>The difference that \<open>append_to_state\<close> saves.\<close>

lemma append_diff:
  assumes "state_ok (full_of {} st)" "keyed (full_of {} st)" "k \<noteq> 0"
    and "r = replaced_entry st k" "Some (compress_state_event k e) \<noteq> r"
  defines "N \<equiv> {compress_state_event k e}" and "D \<equiv> case r of Some x \<Rightarrow> {x} | None \<Rightarrow> {}"
  shows "state_ok N" "state_ok D" "N \<inter> full_of {} st = {}" "D \<subseteq> full_of {} st" "card N + card D \<le> 2"
    "(full_of {} st \<union> N) - D = with_entry (full_of {} st) k e"
proof -
  let ?F = "full_of {} st"
  have fin: "finite ?F" using assms(1) by (simp add: state_ok_def)
  have none: "\<forall>x \<in> ?F. take 8 x \<noteq> to_be_bytes k" if "r = None"
    using replaced_entry_spec(1) [OF fin assms(2), where k = k] that assms(4) by simp
  have some: "x \<in> ?F \<and> take 8 x = to_be_bytes k" if "r = Some x" for x
    using replaced_entry_spec(2) [OF fin assms(2), where k = k and x = x] that assms(4) by simp
  show "state_ok N" by (simp add: N_def compress_state_event_ok assms(3))
  show sub: "D \<subseteq> ?F" using some by (cases r) (simp_all add: D_def)
  then show "state_ok D" using assms(1) state_ok_subset by blast
  show "card N + card D \<le> 2" by (cases r) (simp_all add: N_def D_def)
  have out: "compress_state_event k e \<notin> ?F"
    using replaced_entry_spec(3) [OF fin assms(2)] assms(4,5) take_compress by metis
  then show "N \<inter> ?F = {}" by (simp add: N_def)
  show "(?F \<union> N) - D = with_entry ?F k e"
  proof (cases r)
    case None
    then show ?thesis using none by (auto simp: N_def D_def with_entry_def)
  next
    case (Some x)
    have "y = x" if "y \<in> ?F" "take 8 y = to_be_bytes k" for y
      using that some [OF Some] assms(2) unfolding keyed_def inj_on_def by metis
    then have "?F - {x} = {y \<in> ?F. take 8 y \<noteq> to_be_bytes k}" using some [OF Some] by auto
    moreover have "compress_state_event k e \<noteq> x" using Some assms(5) by blast
    ultimately show ?thesis by (simp add: N_def D_def with_entry_def Some insert_Diff_if)
  qed
qed

lemma append_entry_ok:
  assumes "store_ok s" "spare (rs_short s) 1" "layers_ok {} st" "chain_ok (rs_statediffs s) st"
    and "full_of {} st = previous_state (rs_statediffs s) previous" "\<And>p. previous = Some p \<Longrightarrow> p \<in> dom (rs_statediffs s)"
    and "keyed (full_of {} st)" "k \<noteq> 0" "stack_size st + 2 \<le> size_limit"
  shows "\<exists>s' h. append_entry s previous st k (compress_state_event k e) = (s', Inr h) \<and> store_ok s' \<and>
    state_at (rs_statediffs s') h = Some (with_entry (full_of {} st) k e) \<and> states_kept s s' \<and>
    get_shortstatekey (rs_short s') = get_shortstatekey (rs_short s) \<and>
    get_shorteventid (rs_short s') = get_shorteventid (rs_short s) \<and>
    shorteventid_shortstatehash s' = shorteventid_shortstatehash s \<and> (hashes_saved sha s \<longrightarrow> hashes_saved sha s')"
proof (cases "Some (compress_state_event k e) = replaced_entry st k")
  case True
  let ?F = "full_of {} st"
  have ok: "state_ok ?F" using layers_ok_full [OF assms(3)] by simp
  then have new: "compress_state_event k e \<in> ?F"
    using replaced_entry_spec(2) [of st k "compress_state_event k e"] True assms(7) by (simp add: state_ok_def)
  then have same: "with_entry ?F k e = ?F"
    using assms(7) by (auto simp: with_entry_def keyed_def inj_on_def)
  obtain p where p: "previous = Some p" using new assms(5) by (auto simp: previous_state_def split: option.splits)
  obtain sp where "stored (rs_statediffs s) p sp"
    using diffs_ok_stored [OF store_okD(2) [OF assms(1)] assms(6) [OF p]] by metis
  then have "state_at (rs_statediffs s) p = Some ?F" using state_at_stored assms(5) p by (simp add: previous_state_def)
  then show ?thesis using True p same assms(1) by (simp add: append_entry_def states_kept_def)
next
  case False
  obtain h short where g: "next_count (rs_short s) = (h, short)" by fastforce
  have sp: "spare (rs_short s) (Suc 0)" using assms(2) by simp
  note c = next_count_step [OF store_okD(1) [OF assms(1)] sp g]
  define s1 where "s1 = s\<lparr>rs_short := short\<rparr>"
  have ok: "store_ok s1" unfolding s1_def
    by (rule store_ok_short [OF assms(1)]) (use c(1) in \<open>simp_all add: short_step_def\<close>)
  have fresh: "h \<notin> dom (rs_statediffs s1)" "h \<noteq> 0" "h \<le> counter (rs_short s1)"
    using store_ok_fresh [OF assms(1), of h] c(2,3) by (simp_all add: s1_def)
  have full: "state_ok (full_of {} st)" using layers_ok_full [OF assms(3)] by simp
  note d = append_diff [OF full assms(7,8) refl False]
  have chain: "chain_ok (rs_statediffs s1) st" using assms(4) by (simp add: s1_def)
  let ?D = "case replaced_entry st k of None \<Rightarrow> {} | Some x \<Rightarrow> {x}"
  have size: "stack_size st + (card {compress_state_event k e} + card ?D) \<le> size_limit" using d(5) assms(9) by linarith
  obtain db' where db': "save_from_diff s1 h {compress_state_event k e} ?D 2 st = (s1\<lparr>rs_statediffs := db'\<rparr>, Inr ())"
    "diffs_ok db'" "state_at db' h = Some ((full_of {} st \<union> {compress_state_event k e}) - ?D)"
    "\<forall>x. x \<noteq> h \<longrightarrow> state_at db' x = state_at (rs_statediffs s1) x"
    "dom db' = insert h (dom (rs_statediffs s1))" "\<forall>x \<in> dom (rs_statediffs s1). db' x = rs_statediffs s1 x"
    by (rule save_from_diff_ok [OF store_okD(2) [OF ok] assms(3) chain fresh(1,2) d(1-4) size, of 2]) (simp, rule that)
  have "append_entry s previous st k (compress_state_event k e) = (s1\<lparr>rs_statediffs := db'\<rparr>, Inr h)"
    using False g db'(1) by (simp add: append_entry_def Let_def flip: s1_def)
  moreover have "store_ok (s1\<lparr>rs_statediffs := db'\<rparr>)" by (rule store_ok_save [OF ok db'(2,5,6) fresh(3)])
  moreover have kept: "states_kept s (s1\<lparr>rs_statediffs := db'\<rparr>)"
    using states_kept_save [of h db' "rs_statediffs s"] db'(4) fresh(1) by (simp add: states_kept_def s1_def)
  moreover have "short = rs_short s\<lparr>counter := counter short, global_count := global_count short\<rparr>"
    using g next_count_value [OF spare_less [OF sp]] by auto
  then have "get_shortstatekey short = get_shortstatekey (rs_short s)" "get_shorteventid short = get_shorteventid (rs_short s)"
    by (metis (no_types, lifting) fun_eq_iff look_defs short_state.select_convs short_state.surjective short_state.update_convs)+
  moreover have "hashes_saved sha (s1\<lparr>rs_statediffs := db'\<rparr>)" if "hashes_saved sha s"
    using hashes_saved_mono [OF that kept] c(1) by (simp add: s1_def short_step_def)
  ultimately show ?thesis using db'(3) d(6) by (simp add: s1_def)
qed

lemma set_event_state_ok:
  assumes "store_ok s" "hashes_saved sha s" "lru_law lru" "spare (rs_short s) 2" "state_ok S"
    and "previous = get_room_shortstatehash s room"
    and "fits (rs_statediffs s) previous (card S + card (previous_state (rs_statediffs s) previous))"
    and "no_collision sha s S"
  shows "\<exists>s' h e. set_event_state lru sha s event_id room S = Some (s', Inr h) \<and> store_ok s' \<and> hashes_saved sha s' \<and>
    state_at (rs_statediffs s') h = Some S \<and> get_shorteventid (rs_short s') event_id = Some e \<and>
    shorteventid_shortstatehash s' e = Some h \<and> states_kept s s'"
proof -
  obtain e short1 where g1: "get_or_create_shorteventid (rs_short s) event_id = (e, short1)" by fastforce
  have sp: "spare (rs_short s) (Suc (Suc 0))" using assms(4) by (simp add: numeral_2_eq_2)
  define s1 where "s1 = s\<lparr>rs_short := short1\<rparr>"
  note e1 = shorteventid_stage [OF assms(1) sp g1, folded s1_def]
  obtain h existed short2 where g2: "get_or_create_shortstatehash (rs_short s1) (calculate_hash sha S) = ((h, existed), short2)"
    by (metis surj_pair)
  have s1: "hashes_saved sha s1" "no_collision sha s1 S" "spare (rs_short s1) (Suc 0)" using assms(2,8) e1(2,4)
    by (simp_all add: s1_def hashes_saved_def no_collision_def)
  define s2 where "s2 = s1\<lparr>rs_short := short2\<rparr>"
  note h2 = statehash_stage [OF e1(1) s1(1,3) assms(5) s1(2) g2, folded s2_def]
  have eq: "rs_statediffs s2 = rs_statediffs s" "get_room_shortstatehash s1 room = previous"
    "get_room_shortstatehash s2 room = previous" "rs_statediffs s1 = rs_statediffs s" "rs_short s2 = short2"
    by (simp_all add: s1_def s2_def assms(6) get_room_shortstatehash_def)
  have e2: "get_shorteventid short2 event_id = Some e" using h2(2) e1(3) by (simp add: s1_def)
  let ?put = "\<lambda>s. put_event_state s e h"
  show ?thesis
  proof (cases existed)
    case True
    note h = h2(3) [OF True]
    have "set_event_state lru sha s event_id room S = Some (?put s2, Inr h)"
      using g1 g2 True by (simp add: set_event_state_def s1_def s2_def Let_def)
    moreover have "state_at (rs_statediffs s) h = Some S" using h eq by simp
    moreover have "store_ok (?put s2)" using store_ok_put [OF h2(1)] h eq by simp
    moreover have "hashes_saved sha (?put s2)" using h2(5) [of "?put s2"] h eq by (simp add: put_event_state_def states_kept_def)
    ultimately show ?thesis
      using e2 eq by (intro exI [of _ "?put s2"] exI [of _ h] exI [of _ e]) (simp add: put_event_state_def states_kept_def)
  next
    case False
    note h = h2(4) [OF False]
    have fresh: "h \<notin> dom (rs_statediffs s2)" "h \<noteq> 0" "h \<le> counter (rs_short s2)" using h eq by simp_all
    have fit: "fits (rs_statediffs s2) previous (card S + card (previous_state (rs_statediffs s2) previous))"
      using assms(7) eq(1) by simp
    obtain cache db' st where n: "load_parents lru s2 previous = Some (s2\<lparr>rs_cache := cache\<rparr>, Inr st)"
      "diff_to_parents S st = (S - previous_state (rs_statediffs s2) previous, previous_state (rs_statediffs s2) previous - S)"
      "save_from_diff (s2\<lparr>rs_cache := cache\<rparr>) h (S - previous_state (rs_statediffs s2) previous)
         (previous_state (rs_statediffs s2) previous - S) 1000000 st = (s2\<lparr>rs_cache := cache, rs_statediffs := db'\<rparr>, Inr ())"
      "store_ok (s2\<lparr>rs_cache := cache, rs_statediffs := db'\<rparr>)" "state_at db' h = Some S"
      "dom db' = insert h (dom (rs_statediffs s2))"
      "\<forall>x T. state_at (rs_statediffs s2) x = Some T \<longrightarrow> state_at db' x = Some T"
      by (rule save_new_state [OF h2(1) assms(3) eq(3) [symmetric] fresh assms(5) _ fit, of 1000000]) (simp, rule that)
    define s3 where "s3 = s2\<lparr>rs_cache := cache, rs_statediffs := db'\<rparr>"
    have "set_event_state lru sha s event_id room S = Some (?put s3, Inr h)"
      using g1 g2 False n(1,2,3) eq(2,3) by (simp add: set_event_state_def s1_def s2_def s3_def Let_def)
    moreover have "hashes_saved sha (?put s3)" using h2(5) [of "?put s3"] n(5,7) eq
      by (simp add: put_event_state_def s3_def states_kept_def)
    moreover have "store_ok (?put s3)" using store_ok_put [OF n(4)] n(6) by (simp add: s3_def)
    ultimately show ?thesis
      using n(5,7) e2 eq by (intro exI [of _ "?put s3"] exI [of _ h] exI [of _ e])
        (simp add: put_event_state_def s3_def states_kept_def)
  qed
qed

lemma save_state_ok:
  assumes "store_ok s" "hashes_saved sha s" "lru_law lru" "spare (rs_short s) 1" "state_ok S"
    and "previous = get_room_shortstatehash s room" "F = previous_state (rs_statediffs s) previous"
    and "fits (rs_statediffs s) previous (card S + card F)"
    and "no_collision sha s S"
  shows "\<exists>s' h. save_state lru sha s room S = Some (s', Inr (h, S - F, F - S)) \<and> store_ok s' \<and> hashes_saved sha s' \<and>
    state_at (rs_statediffs s') h = Some S \<and> states_kept s s'"
proof -
  obtain h existed short where g: "get_or_create_shortstatehash (rs_short s) (calculate_hash sha S) = ((h, existed), short)"
    by (metis surj_pair)
  have sp: "spare (rs_short s) (Suc 0)" using assms(4) by simp
  define s1 where "s1 = s\<lparr>rs_short := short\<rparr>"
  note h = statehash_stage [OF assms(1,2) sp assms(5,9) g, folded s1_def]
  have eq: "rs_statediffs s1 = rs_statediffs s" "get_room_shortstatehash s1 room = previous" "rs_short s1 = short"
    by (simp_all add: s1_def assms(6) get_room_shortstatehash_def)
  note ok = store_okD [OF h(1)]
  have known: "state_at (rs_statediffs s) h = Some S" "hashes_saved sha s2"
    if existed "rs_short s2 = short" "rs_statediffs s2 = rs_statediffs s" for s2
    using h(3) [OF that(1)] h(5) [OF that(2)] that(3) by (auto simp: states_kept_def)
  show ?thesis
  proof (cases "Some h = previous")
    case True
    then have "h \<in> dom (rs_statediffs s1)" using ok(5) [of room h] eq(2) by simp
    then have existed using h(4) eq(1) by auto
    with True have "F = S" using known [of s1] eq(1,3) assms(7) by (auto simp: previous_state_def)
    moreover have "save_state lru sha s room S = Some (s1, Inr (h, {}, {}))"
      using g True assms(6) by (simp add: save_state_def s1_def Let_def)
    ultimately show ?thesis
      using h(1) known [OF \<open>existed\<close> eq(3,1)] eq(1) by (intro exI [of _ s1] exI [of _ h]) (simp add: states_kept_def)
  next
    case new: False
    show ?thesis
    proof (cases existed)
      case True
      obtain cache st where l: "load_parents lru s1 previous = Some (s1\<lparr>rs_cache := cache\<rparr>, Inr st)"
        "cache_ok (rs_statediffs s1) cache" "full_of {} st = previous_state (rs_statediffs s1) previous"
        using load_parents_ok [OF ok(2,3) assms(3), of previous] ok(5) eq(2) by metis
      define s2 where "s2 = s1\<lparr>rs_cache := cache\<rparr>"
      have "save_state lru sha s room S = Some (s2, Inr (h, S - F, F - S))"
        using g True new assms(6) l(1,3) eq(1,2) assms(7)
        by (simp add: save_state_def Let_def diff_to_parents_eq flip: s1_def s2_def)
      moreover have "store_ok s2" unfolding s2_def by (rule store_ok_cache [OF h(1) l(2)])
      moreover have "rs_short s2 = short" "rs_statediffs s2 = rs_statediffs s" by (simp_all add: s2_def s1_def)
      ultimately show ?thesis
        using known [OF True] by (intro exI [of _ s2] exI [of _ h]) (simp add: states_kept_def)
    next
      case False
      have fresh: "h \<notin> dom (rs_statediffs s1)" "h \<noteq> 0" "h \<le> counter (rs_short s1)" using h(4) [OF False] eq by simp_all
      have fit: "fits (rs_statediffs s1) previous (card S + card (previous_state (rs_statediffs s1) previous))"
        using assms(7,8) eq(1) by simp
      obtain cache db' st where n: "load_parents lru s1 previous = Some (s1\<lparr>rs_cache := cache\<rparr>, Inr st)"
        "diff_to_parents S st = (S - previous_state (rs_statediffs s1) previous, previous_state (rs_statediffs s1) previous - S)"
        "save_from_diff (s1\<lparr>rs_cache := cache\<rparr>) h (S - previous_state (rs_statediffs s1) previous)
           (previous_state (rs_statediffs s1) previous - S) 2 st = (s1\<lparr>rs_cache := cache, rs_statediffs := db'\<rparr>, Inr ())"
        "store_ok (s1\<lparr>rs_cache := cache, rs_statediffs := db'\<rparr>)" "state_at db' h = Some S"
        "dom db' = insert h (dom (rs_statediffs s1))"
        "\<forall>x T. state_at (rs_statediffs s1) x = Some T \<longrightarrow> state_at db' x = Some T"
        by (rule save_new_state [OF h(1) assms(3) eq(2) [symmetric] fresh assms(5) _ fit, of 2]) (simp, rule that)
      define s2 where "s2 = s1\<lparr>rs_cache := cache, rs_statediffs := db'\<rparr>"
      have "save_state lru sha s room S = Some (s2, Inr (h, S - F, F - S))"
        using g False new n(1-3) eq(1,2) assms(6,7) by (simp add: save_state_def Let_def flip: s1_def s2_def)
      moreover have "hashes_saved sha s2" using h(5) [of s2] n(5,7) eq by (simp add: s2_def states_kept_def)
      ultimately show ?thesis
        using n(4,5,7) eq(1) by (intro exI [of _ s2] exI [of _ h]) (simp add: s2_def states_kept_def)
    qed
  qed
qed

lemma append_to_state_ok:
  assumes "store_ok s" "lru_law lru" "spare (rs_short s) 3"
    and "previous = get_room_shortstatehash s room" "F = previous_state (rs_statediffs s) previous"
    and "keyed F" "fits (rs_statediffs s) previous 2"
  shows "\<exists>s' h k e. append_to_state lru s event_id kind (Some state_key) room = Some (s', Inr h) \<and> store_ok s' \<and>
    get_shortstatekey (rs_short s') (kind, state_key) = Some k \<and> get_shorteventid (rs_short s') event_id = Some e \<and>
    state_at (rs_statediffs s') h = Some (with_entry F k e) \<and> keyed (with_entry F k e) \<and>
    (\<forall>p. previous = Some p \<longrightarrow> shorteventid_shortstatehash s' e = Some p) \<and> states_kept s s' \<and>
    (hashes_saved sha s \<longrightarrow> hashes_saved sha s')"
proof -
  obtain e short1 where g1: "get_or_create_shorteventid (rs_short s) event_id = (e, short1)" by fastforce
  have sp: "spare (rs_short s) (Suc 2)" using assms(3) by (simp add: numeral_3_eq_3)
  define s1 where "s1 = s\<lparr>rs_short := short1\<rparr>"
  note e1 = shorteventid_stage [OF assms(1) sp g1, folded s1_def]
  define s2 where "s2 = (case previous of Some p \<Rightarrow> put_event_state s1 e p | None \<Rightarrow> s1)"
  have s2: "rs_short s2 = short1" "rs_statediffs s2 = rs_statediffs s"
    "\<forall>p. previous = Some p \<longrightarrow> shorteventid_shortstatehash s2 e = Some p" "get_room_shortstatehash s1 room = previous"
    by (simp_all add: s2_def s1_def put_event_state_def get_room_shortstatehash_def assms(4) split: option.split)
  have dom: "p \<in> dom (rs_statediffs s)" if "previous = Some p" for p
    using store_okD(5) [OF assms(1)] assms(4) that by metis
  have ok2: "store_ok s2"
    using e1(1) store_ok_put [OF e1(1)] dom by (auto simp: s2_def s1_def split: option.split)
  obtain cache st where l: "load_parents lru s2 previous = Some (s2\<lparr>rs_cache := cache\<rparr>, Inr st)"
    "cache_ok (rs_statediffs s2) cache" "layers_ok {} st" "chain_ok (rs_statediffs s2) st"
    "full_of {} st = previous_state (rs_statediffs s2) previous"
    "\<And>m. fits (rs_statediffs s2) previous m \<Longrightarrow> stack_size st + m \<le> size_limit"
    using load_parents_ok [OF store_okD(2,3) [OF ok2] assms(2), of previous] dom s2(2) by metis
  have F: "full_of {} st = F" using l(5) assms(5) s2(2) by simp
  obtain k short2 where g2: "get_or_create_shortstatekey short1 (kind, state_key) = (k, short2)" by fastforce
  have sp1: "spare short1 (Suc 1)" using e1(2) by (simp add: numeral_2_eq_2)
  have wf1: "short_wf short1" using store_okD(1) [OF ok2] s2(1) by simp
  note k2 = get_or_create_shortstatekey_step [OF wf1 sp1 g2]
  have g3: "get_or_create_shorteventid short2 event_id = (e, short2)"
    using k2(4) e1(3) by (simp add: get_or_create_shorteventid_def)
  define s3 where "s3 = s2\<lparr>rs_cache := cache, rs_short := short2\<rparr>"
  have s3: "store_ok s3" "spare (rs_short s3) 1" "rs_statediffs s3 = rs_statediffs s"
    using store_ok_short [OF store_ok_cache [OF ok2 l(2)], of short2] k2(1) s2(1,2) sp1
    by (simp_all add: s3_def short_step_def)
  have pre: "chain_ok (rs_statediffs s3) st" "full_of {} st = previous_state (rs_statediffs s3) previous"
    "keyed (full_of {} st)" "k \<noteq> 0" "stack_size st + 2 \<le> size_limit"
    using l(4,5) l(6) [of 2] assms(6,7) F k2(2) s2(2) s3(3) by simp_all
  obtain s' h where a: "append_entry s3 previous st k (compress_state_event k e) = (s', Inr h)" "store_ok s'"
    "state_at (rs_statediffs s') h = Some (with_entry F k e)" "states_kept s3 s'"
    "get_shortstatekey (rs_short s') = get_shortstatekey (rs_short s3)"
    "get_shorteventid (rs_short s') = get_shorteventid (rs_short s3)"
    "shorteventid_shortstatehash s' = shorteventid_shortstatehash s3" "hashes_saved sha s3 \<longrightarrow> hashes_saved sha s'"
    using append_entry_ok [OF s3(1,2) l(3) pre(1,2) _ pre(3-5), of e sha] dom s3(3) F by auto
  have "append_to_state lru s event_id kind (Some state_key) room = Some (s', Inr h)"
    using g1 g2 g3 l(1) a(1) [unfolded s3_def] s2(1,4) [unfolded s1_def]
    by (simp add: append_to_state_def Let_def flip: s2_def [unfolded s1_def])
  moreover have "states_kept s s'" using a(4) s3(3) by (simp add: states_kept_def)
  moreover have "hashes_saved sha s3" if "hashes_saved sha s"
    using that e1(4) k2(1) s3(3) by (simp add: hashes_saved_def s3_def short_step_def)
  ultimately show ?thesis
    using a(2,3,5-8) k2(3,4) e1(3) s2(3) keyed_with_entry [OF assms(6)] by (auto simp: s3_def)
qed

section \<open>The store over time\<close>

text \<open>The operations on the store, with states of realistic size, enough short ids and no collision of
  the digest: saving a state for an event or a room, appending a state event, pointing a room at a
  saved state, changing the forward extremities, loading a state, and clearing the cache.\<close>

inductive room_step :: "lru_insert \<Rightarrow> (byte list \<Rightarrow> byte list) \<Rightarrow> room_store \<Rightarrow> room_store \<Rightarrow> bool" for lru sha where
  set_event: "\<lbrakk>spare (rs_short s) 2; state_ok S; no_collision sha s S; previous = get_room_shortstatehash s room;
     fits (rs_statediffs s) previous (card S + card (previous_state (rs_statediffs s) previous));
     set_event_state lru sha s event_id room S = Some (s', r)\<rbrakk> \<Longrightarrow> room_step lru sha s s'"
| save: "\<lbrakk>spare (rs_short s) 1; state_ok S; no_collision sha s S; previous = get_room_shortstatehash s room;
     fits (rs_statediffs s) previous (card S + card (previous_state (rs_statediffs s) previous));
     save_state lru sha s room S = Some (s', q)\<rbrakk> \<Longrightarrow> room_step lru sha s s'"
| append: "\<lbrakk>spare (rs_short s) 3; previous = get_room_shortstatehash s room;
     keyed (previous_state (rs_statediffs s) previous); fits (rs_statediffs s) previous 2;
     append_to_state lru s event_id kind (Some state_key) room = Some (s', r)\<rbrakk> \<Longrightarrow> room_step lru sha s s'"
| set_room: "h \<in> dom (rs_statediffs s) \<Longrightarrow> room_step lru sha s (set_room_state s room h)"
| extremities: "room_step lru sha s (set_forward_extremities s room event_ids)"
| load: "load_info lru s h = Some (s', q') \<Longrightarrow> h \<in> dom (rs_statediffs s) \<Longrightarrow> room_step lru sha s s'"
| clear_cache: "room_step lru sha s (s\<lparr>rs_cache := Map.empty\<rparr>)"

definition store_inv :: "(byte list \<Rightarrow> byte list) \<Rightarrow> room_store \<Rightarrow> bool" where
  "store_inv sha s \<longleftrightarrow> store_ok s \<and> hashes_saved sha s"

lemma store_inv_same:
  assumes "store_inv sha s" "rs_short s' = rs_short s" "rs_statediffs s' = rs_statediffs s" "store_ok s'"
  shows "store_inv sha s' \<and> states_kept s s'"
  using assms by (simp add: store_inv_def hashes_saved_def states_kept_def)

lemma room_step_keeps:
  assumes "room_step lru sha s s'" "lru_law lru" "store_inv sha s"
  shows "store_inv sha s' \<and> states_kept s s'"
  using assms(1)
proof cases
  case (set_event S previous room event_id r)
  then show ?thesis
    using set_event_state_ok [of s sha lru S previous room event_id] assms(2,3) by (auto simp: store_inv_def)
next
  case (save S previous room q)
  then show ?thesis
    using save_state_ok [of s sha lru S previous room "previous_state (rs_statediffs s) previous"] assms(2,3)
    by (auto simp: store_inv_def)
next
  case (append previous room event_id kind state_key r)
  then show ?thesis
    using append_to_state_ok [of s lru previous room "previous_state (rs_statediffs s) previous" event_id kind state_key sha]
      assms(2,3) by (auto simp: store_inv_def)
next
  case (set_room h room)
  then show ?thesis using assms(3)
    by (intro store_inv_same) (auto simp: store_inv_def set_room_state_def store_ok_def ran_def)
next
  case (extremities room event_ids)
  then show ?thesis using assms(3)
    by (intro store_inv_same) (auto simp: store_inv_def set_forward_extremities_def store_ok_def)
next
  case (load h q')
  note ok = store_okD [of s]
  obtain st where "stored (rs_statediffs s) h st"
    using diffs_ok_stored load(2) ok(2) assms(3) unfolding store_inv_def by metis
  then obtain cache where "s' = s\<lparr>rs_cache := cache\<rparr>" "cache_ok (rs_statediffs s) cache"
    using load_stored [of "rs_statediffs s" h st lru "rs_cache s"] load(1) ok(3) assms(2,3) by (auto simp: load_info_def store_inv_def)
  then show ?thesis using assms(3) store_ok_cache by (intro store_inv_same) (auto simp: store_inv_def)
next
  case clear_cache
  then show ?thesis using assms(3)
    by (intro store_inv_same) (auto simp: store_inv_def store_ok_def cache_ok_def)
qed

definition store_init :: room_store where
  "store_init = \<lparr>rs_short = short_init, rs_statediffs = Map.empty, rs_cache = Map.empty,
     roomid_shortstatehash = Map.empty, shorteventid_shortstatehash = Map.empty, roomid_pduleaves = {}\<rparr>"

lemma store_init_simps [simp]: "rs_short store_init = short_init" "rs_statediffs store_init = Map.empty"
  "rs_cache store_init = Map.empty" "get_room_shortstatehash store_init room = None"
  "previous_state Map.empty None = {}" "spare short_init 2" "spare short_init (Suc 0)" "spare short_init 3"
  by (simp_all add: store_init_def get_room_shortstatehash_def previous_state_def spare_def)

lemma store_init_ok: "store_ok store_init" "hashes_saved sha store_init" "no_collision sha store_init S" "store_inv sha store_init"
  by (auto simp: store_inv_def store_ok_def diffs_ok_def cache_ok_def store_init_def hashes_saved_def no_collision_def
      short_init_def state_at_absent short_wf_init [unfolded short_init_def])

lemma unbounded_lru: "lru_law (\<lambda>k v c. c(k \<mapsto> v))"
  by (simp add: lru_law_def)

section \<open>Properties\<close>

text \<open>The state before an event. For a state of realistic size whose hash collides with no other saved
  state, \<open>set_event_state\<close> succeeds; the hash it returns and records for the event loads as exactly
  that state, every state saved before still loads the same, and the store stays consistent.\<close>

lemma set_event_state_correct:
  assumes "store_ok s" "hashes_saved sha s" "lru_law lru" "spare (rs_short s) 2" "state_ok S"
    and "previous = get_room_shortstatehash s room"
    and "fits (rs_statediffs s) previous (card S + card (previous_state (rs_statediffs s) previous))"
    and "no_collision sha s S"
  shows "\<exists>s' h e. set_event_state lru sha s event_id room S = Some (s', Inr h) \<and> store_ok s' \<and> hashes_saved sha s' \<and>
    state_at (rs_statediffs s') h = Some S \<and> get_shorteventid (rs_short s') event_id = Some e \<and>
    shorteventid_shortstatehash s' e = Some h \<and> states_kept s s'"
  by (rule set_event_state_ok [OF assms])

text \<open>C32: saving the state of a room. Under the same conditions \<open>save_state\<close> succeeds; the hash it
  returns loads as the new state, and the two sets it returns are what was added to and removed from
  the previous state of the room.\<close>

theorem save_state_correct:
  assumes "store_ok s" "hashes_saved sha s" "lru_law lru" "spare (rs_short s) 1" "state_ok S"
    and "previous = get_room_shortstatehash s room" "F = previous_state (rs_statediffs s) previous"
    and "fits (rs_statediffs s) previous (card S + card F)"
    and "no_collision sha s S"
  shows "\<exists>s' h. save_state lru sha s room S = Some (s', Inr (h, S - F, F - S)) \<and> store_ok s' \<and> hashes_saved sha s' \<and>
    state_at (rs_statediffs s') h = Some S \<and> states_kept s s'"
  by (rule save_state_ok [OF assms])

theorem save_state_correct_witness:
  "\<exists>s' h. save_state (\<lambda>k v c. c(k \<mapsto> v)) id store_init ''!r'' {compress_state_event 1 2} =
       Some (s', Inr (h, {compress_state_event 1 2}, {})) \<and>
     state_at (rs_statediffs s') h = Some {compress_state_event 1 2}"
proof -
  have ok: "state_ok {compress_state_event 1 2}" by (simp add: compress_state_event_ok)
  have fit: "fits Map.empty None 1" by (simp add: fits_def)
  show ?thesis
    using save_state_correct [OF store_init_ok(1) store_init_ok(2) unbounded_lru, of "{compress_state_event 1 2}" None "''!r''"
        "{}" id] ok fit store_init_ok(3) by auto
qed


text \<open>C3: appending a state event. On a consistent store whose current room state has one entry per key,
  \<open>append_to_state\<close> succeeds; the hash it returns loads as the room state with the entry of the event's
  type and state key replaced by (or extended with) the event, and again has one entry per key. The
  state recorded for the event itself is the state before it, states saved before are kept, and the
  store stays consistent.\<close>

theorem append_to_state_correct:
  assumes "store_ok s" "lru_law lru" "spare (rs_short s) 3"
    and "previous = get_room_shortstatehash s room" "F = previous_state (rs_statediffs s) previous"
    and "keyed F" "fits (rs_statediffs s) previous 2"
  shows "\<exists>s' h k e. append_to_state lru s event_id kind (Some state_key) room = Some (s', Inr h) \<and> store_ok s' \<and>
    get_shortstatekey (rs_short s') (kind, state_key) = Some k \<and> get_shorteventid (rs_short s') event_id = Some e \<and>
    state_at (rs_statediffs s') h = Some (with_entry F k e) \<and> keyed (with_entry F k e) \<and>
    (\<forall>p. previous = Some p \<longrightarrow> shorteventid_shortstatehash s' e = Some p) \<and> states_kept s s' \<and>
    (hashes_saved sha s \<longrightarrow> hashes_saved sha s')"
  by (rule append_to_state_ok [OF assms])

theorem append_to_state_correct_witness:
  "\<exists>s' h k e. append_to_state (\<lambda>k v c. c(k \<mapsto> v)) store_init ''$c'' ''m.room.create'' (Some '''') ''!r'' = Some (s', Inr h) \<and>
     state_at (rs_statediffs s') h = Some {compress_state_event k e}"
proof -
  have fit: "fits Map.empty None 2" by (simp add: fits_def)
  have "keyed {}" by (simp add: keyed_def)
  then show ?thesis
    using append_to_state_correct [OF store_init_ok(1) unbounded_lru, of None "''!r''" "{}" "''$c''" "''m.room.create''" "''''" id] fit
    by (auto simp: with_entry_def)
qed




text \<open>Setting the forward extremities of a room replaces them and leaves those of other rooms.\<close>

lemma forward_extremities_replaced:
  "get_forward_extremities (set_forward_extremities s room event_ids) room' =
     (if room' = room then set event_ids else get_forward_extremities s room')"
proof -
  have ins: "foldl (\<lambda>leaves event_id. insert (room, event_id) leaves) leaves ids = leaves \<union> Pair room ` set ids" for leaves ids
    by (induction ids arbitrary: leaves) auto
  have "e \<in> get_forward_extremities (set_forward_extremities s room event_ids) room' \<longleftrightarrow>
      e \<in> (if room' = room then set event_ids else get_forward_extremities s room')" for e
    by (auto simp: get_forward_extremities_def set_forward_extremities_def ins image_iff)
  then show ?thesis by blast
qed

end
