(* ===== verification/Records.thy ===== *)
theory Records
  imports Kv_Map
begin

text \<open>
  The records of the database: the serializer of \<open>src/database/ser.rs\<close> and the deserializer of
  \<open>src/database/de.rs\<close>, which turn tuples of ids and numbers into keys and back. Records are
  joined by the byte 255, which no UTF-8 text contains. Their state (\<open>Serializer\<close>,
  \<open>Deserializer\<close>) is passed explicitly; \<open>depth\<close> and \<open>fin\<close> of the serializer change only under
  debug assertions and are left out, as are the assertions. Text that \<open>serde_json\<close> or
  \<open>minicbor\<close> produces is given as bytes. \<open>unhandled!\<close> is \<open>unimplemented!\<close>: a panic.
\<close>

section \<open>Values and types\<close>

abbreviation SEP :: byte where "SEP \<equiv> 255"

datatype record_value =
    VStr "byte list" | VBytes "byte list" | VU64 u64 | VI64 i64 | VU32 "32 word" | VU8 byte | VBool bool
  | VNone | VSome record_value | VUnit
  | VTuple "record_value list" | VSeq "record_value list"
  | VInterfix | VSeparator | VJson "byte list" | VCbor "byte list" | VUnhandled

datatype record_type =
    TStr | TBytes | TU64 | TI64 | TBool | TOption record_type | TIgnore | TIgnoreAll
  | TTuple "record_type list" | TSeq record_type | TUnhandled

datatype record_error = Unhandled | SlicePanic | Underflow | InvalidUtf8 | InvalidLength nat | OutOfFuel

section \<open>UTF-8\<close>

text \<open>Well-formed UTF-8, as \<open>std::str::from_utf8\<close> decides it.\<close>

definition byte_in :: "nat \<Rightarrow> nat \<Rightarrow> byte \<Rightarrow> bool" where
  "byte_in lo hi b \<longleftrightarrow> lo \<le> unat b \<and> unat b \<le> hi"

fun utf8_valid :: "byte list \<Rightarrow> bool" where
  "utf8_valid [] = True"
| "utf8_valid [a] = byte_in 0 127 a"
| "utf8_valid [a, b] =
     (if byte_in 0 127 a then utf8_valid [b]
      else byte_in 194 223 a \<and> byte_in 128 191 b)"
| "utf8_valid [a, b, c] =
     (if byte_in 0 127 a then utf8_valid [b, c]
      else if byte_in 194 223 a then byte_in 128 191 b \<and> utf8_valid [c]
      else
        (byte_in 224 224 a \<and> byte_in 160 191 b \<or> byte_in 225 236 a \<and> byte_in 128 191 b \<or>
         byte_in 237 237 a \<and> byte_in 128 159 b \<or> byte_in 238 239 a \<and> byte_in 128 191 b) \<and>
        byte_in 128 191 c)"
| "utf8_valid (a # b # c # d # r) =
     (if byte_in 0 127 a then utf8_valid (b # c # d # r)
      else if byte_in 194 223 a then byte_in 128 191 b \<and> utf8_valid (c # d # r)
      else if byte_in 224 239 a then
        (byte_in 224 224 a \<and> byte_in 160 191 b \<or> byte_in 225 236 a \<and> byte_in 128 191 b \<or>
         byte_in 237 237 a \<and> byte_in 128 159 b \<or> byte_in 238 239 a \<and> byte_in 128 191 b) \<and>
        byte_in 128 191 c \<and> utf8_valid (d # r)
      else
        (byte_in 240 240 a \<and> byte_in 144 191 b \<or> byte_in 241 243 a \<and> byte_in 128 191 b \<or>
         byte_in 244 244 a \<and> byte_in 128 143 b) \<and>
        byte_in 128 191 c \<and> byte_in 128 191 d \<and> utf8_valid r)"

section \<open>The serializer\<close>

record ser_state =
  ser_out :: "byte list"
  ser_sep :: bool

definition ser_write :: "byte list \<Rightarrow> ser_state \<Rightarrow> ser_state" where
  "ser_write buf s = s\<lparr>ser_out := ser_out s @ buf\<rparr>"

definition separator :: "ser_state \<Rightarrow> ser_state" where
  "separator s = ser_write [SEP] s"

definition ser_record_start :: "ser_state \<Rightarrow> ser_state" where
  "ser_record_start s = (if ser_sep s then separator s else s\<lparr>ser_sep := True\<rparr>)"

fun serialize :: "record_value \<Rightarrow> ser_state \<Rightarrow> record_error + ser_state"
  and serialize_tuple :: "record_value list \<Rightarrow> ser_state \<Rightarrow> record_error + ser_state"
  and serialize_seq :: "record_value list \<Rightarrow> ser_state \<Rightarrow> record_error + ser_state" where
  "serialize (VStr v) s = Inr (ser_write v s)"
| "serialize (VBytes v) s = Inr (ser_write v s)"
| "serialize (VU64 v) s = Inr (ser_write (to_be_bytes v) s)"
| "serialize (VI64 v) s = Inr (ser_write (to_be_bytes v) s)"
| "serialize (VU32 v) s = Inr (ser_write (be_bytes 4 (unat v)) s)"
| "serialize (VU8 v) s = Inr (ser_write [v] s)"
| "serialize (VBool v) s = Inr (ser_write (if v then [1] else [0]) s)"
| "serialize VNone s = Inr s"
| "serialize (VSome v) s = serialize v s"
| "serialize VUnit s = Inl Unhandled"
| "serialize (VTuple vs) s = serialize_tuple vs s"
| "serialize (VSeq vs) s = serialize_seq vs s"
| "serialize VInterfix s = Inr s"
| "serialize VSeparator s = Inr (separator s)"
| "serialize (VJson v) s = Inr (ser_write v s)"
| "serialize (VCbor v) s = Inr (ser_write v s)"
| "serialize VUnhandled s = Inl Unhandled"
| "serialize_tuple [] s = Inr s"
| "serialize_tuple (v # vs) s = res_bind (serialize v (ser_record_start s)) (serialize_tuple vs)"
| "serialize_seq [] s = Inr s"
| "serialize_seq (v # vs) s = res_bind (serialize v s) (serialize_seq vs)"

definition serialize_to_vec :: "record_value \<Rightarrow> record_error + byte list" where
  "serialize_to_vec v =
     res_bind (serialize v \<lparr>ser_out = [], ser_sep = False\<rparr>) (\<lambda>s. Inr (ser_out s))"

section \<open>The deserializer\<close>

record de_state =
  de_pos :: nat
  de_rec :: nat
  de_seq :: bool

definition inc_pos :: "nat \<Rightarrow> de_state \<Rightarrow> de_state" where
  "inc_pos n st = st\<lparr>de_pos := de_pos st + n\<rparr>"

definition inc_rec :: "nat \<Rightarrow> de_state \<Rightarrow> de_state" where
  "inc_rec n st = st\<lparr>de_rec := de_rec st + n\<rparr>"

definition sequence_start :: "de_state \<Rightarrow> de_state" where
  "sequence_start st = st\<lparr>de_seq := True\<rparr>"

text \<open>\<open>buf[a..b]\<close>, which panics out of range.\<close>

definition slice :: "byte list \<Rightarrow> nat \<Rightarrow> nat \<Rightarrow> record_error + byte list" where
  "slice buf a b = (if a \<le> b \<and> b \<le> length buf then Inr (take (b - a) (drop a buf)) else Inl SlicePanic)"

definition record_next :: "byte list \<Rightarrow> de_state \<Rightarrow> record_error + byte list \<times> de_state" where
  "record_next buf st =
     res_bind (slice buf (de_pos st) (length buf)) (\<lambda>tail.
       let input = takeWhile (\<lambda>b. b \<noteq> SEP) tail in Inr (input, inc_pos (length input) st))"

definition record_trail :: "byte list \<Rightarrow> de_state \<Rightarrow> record_error + byte list \<times> de_state" where
  "record_trail buf st =
     res_bind (slice buf (de_pos st) (length buf)) (\<lambda>input. Inr (input, inc_pos (length input) st))"

definition record_ignore :: "byte list \<Rightarrow> de_state \<Rightarrow> record_error + byte list \<times> de_state" where
  "record_ignore buf st = (if de_seq st then record_next buf st else record_trail buf st)"

definition record_start :: "de_state \<Rightarrow> de_state" where
  "record_start st = inc_rec 1 (inc_pos (if de_pos st \<noteq> 0 \<or> de_rec st > 0 then 1 else 0) st)"

definition take_u64 :: "byte list \<Rightarrow> de_state \<Rightarrow> record_error + u64 \<times> de_state" where
  "take_u64 buf st =
     res_bind (slice buf (de_pos st) (min (de_pos st + 8) (length buf))) (\<lambda>bytes.
       if length bytes < 8 then Inl Underflow else Inr (from_be_bytes bytes, inc_pos 8 st))"

text \<open>\<open>next_element\<close> of a sequence, and the loop of the visitor of \<open>Vec\<close> over it.\<close>

type_synonym 'a reader = "byte list \<Rightarrow> de_state \<Rightarrow> record_error + 'a \<times> de_state"

definition next_element :: "'a reader \<Rightarrow> 'a option reader" where
  "next_element read buf st =
     (if length buf \<le> de_pos st then Inr (None, st)
      else res_bind (read buf (record_start st)) (\<lambda>(v, st). Inr (Some v, st)))"

fun read_elements :: "'a reader \<Rightarrow> nat \<Rightarrow> 'a list reader" where
  "read_elements read 0 buf st = Inl OutOfFuel"
| "read_elements read (Suc n) buf st =
     res_bind (next_element read buf st) (\<lambda>(v, st).
       case v of
         None \<Rightarrow> Inr ([], st)
       | Some v \<Rightarrow> res_bind (read_elements read n buf st) (\<lambda>(vs, st). Inr (v # vs, st)))"

fun deserialize :: "record_type \<Rightarrow> record_value reader"
  and deserialize_elements :: "record_type list \<Rightarrow> nat \<Rightarrow> record_value list reader" where
  "deserialize TStr buf st =
     res_bind (record_next buf st) (\<lambda>(input, st).
       if utf8_valid input then Inr (VStr input, st) else Inl InvalidUtf8)"
| "deserialize TBytes buf st = res_bind (record_trail buf st) (\<lambda>(input, st). Inr (VBytes input, st))"
| "deserialize TU64 buf st = res_bind (take_u64 buf st) (\<lambda>(v, st). Inr (VU64 v, st))"
| "deserialize TI64 buf st = res_bind (take_u64 buf st) (\<lambda>(v, st). Inr (VI64 v, st))"
| "deserialize TBool buf st =
     (if de_pos st < length buf then Inr (VBool (buf ! de_pos st \<noteq> 0), inc_pos 1 st) else Inl Underflow)"
| "deserialize (TOption t) buf st =
     (if de_pos st < length buf \<and> buf ! de_pos st \<noteq> SEP
      then res_bind (deserialize t buf st) (\<lambda>(v, st). Inr (VSome v, st))
      else Inr (VNone, st))"
| "deserialize TIgnore buf st = res_bind (record_ignore buf st) (\<lambda>(_, st). Inr (VUnit, st))"
| "deserialize TIgnoreAll buf st = res_bind (record_trail buf st) (\<lambda>(_, st). Inr (VUnit, st))"
| "deserialize (TTuple ts) buf st =
     res_bind (deserialize_elements ts 0 buf (sequence_start st)) (\<lambda>(vs, st). Inr (VTuple vs, st))"
| "deserialize (TSeq t) buf st =
     res_bind (read_elements (\<lambda>buf st. deserialize t buf st) (length buf + 2) buf (sequence_start st))
       (\<lambda>(vs, st). Inr (VSeq vs, st))"
| "deserialize TUnhandled buf st = Inl Unhandled"
| "deserialize_elements [] i buf st = Inr ([], st)"
| "deserialize_elements (t # ts) i buf st =
     res_bind (next_element (\<lambda>buf st. deserialize t buf st) buf st) (\<lambda>(v, st).
       case v of
         None \<Rightarrow> Inl (InvalidLength i)
       | Some v \<Rightarrow> res_bind (deserialize_elements ts (Suc i) buf st) (\<lambda>(vs, st). Inr (v # vs, st)))"

definition from_slice :: "record_type \<Rightarrow> byte list \<Rightarrow> record_error + record_value" where
  "from_slice t buf =
     res_bind (deserialize t buf \<lparr>de_pos = 0, de_rec = 0, de_seq = False\<rparr>) (\<lambda>(v, _). Inr v)"

section \<open>No text contains the separator\<close>

lemma byte_in_not_sep: "byte_in lo hi b \<Longrightarrow> hi < 255 \<Longrightarrow> b \<noteq> SEP"
  by (auto simp: byte_in_def)

lemma utf8_no_sep: "utf8_valid bs \<Longrightarrow> SEP \<notin> set bs"
  by (induction bs rule: utf8_valid.induct) (auto split: if_splits dest: byte_in_not_sep)

lemma utf8_ascii: "\<forall>b \<in> set bs. byte_in 0 127 b \<Longrightarrow> utf8_valid bs"
  by (induction bs rule: utf8_valid.induct) auto

section \<open>Reading stays inside the buffer and gives a value of the type\<close>

fun supported :: "record_type \<Rightarrow> bool" where
  "supported (TOption t) = supported t"
| "supported (TTuple ts) = list_all supported ts"
| "supported (TSeq t) = supported t"
| "supported TUnhandled = False"
| "supported _ = True"

fun has_type :: "record_type \<Rightarrow> record_value \<Rightarrow> bool" where
  "has_type TStr v = (\<exists>bs. v = VStr bs \<and> utf8_valid bs)"
| "has_type TBytes v = (\<exists>bs. v = VBytes bs)"
| "has_type TU64 v = (\<exists>w. v = VU64 w)"
| "has_type TI64 v = (\<exists>w. v = VI64 w)"
| "has_type TBool v = (\<exists>b. v = VBool b)"
| "has_type (TOption t) v = (v = VNone \<or> (\<exists>w. v = VSome w \<and> has_type t w))"
| "has_type TIgnore v = (v = VUnit)"
| "has_type TIgnoreAll v = (v = VUnit)"
| "has_type (TTuple ts) v = (\<exists>vs. v = VTuple vs \<and> list_all2 has_type ts vs)"
| "has_type (TSeq t) v = (\<exists>vs. v = VSeq vs \<and> list_all (has_type t) vs)"
| "has_type TUnhandled v = False"

text \<open>What a reader keeps: the position moves forward inside the buffer, the record count does not
  fall, and the only errors are about the data.\<close>

definition data_error :: "record_error \<Rightarrow> bool" where
  "data_error e \<longleftrightarrow> e \<noteq> Unhandled \<and> e \<noteq> SlicePanic \<and> e \<noteq> OutOfFuel"

definition moves :: "byte list \<Rightarrow> de_state \<Rightarrow> de_state \<Rightarrow> bool" where
  "moves buf st st' \<longleftrightarrow> de_pos st \<le> de_pos st' \<and> de_pos st' \<le> length buf \<and> de_rec st \<le> de_rec st'"

definition reads :: "('a \<Rightarrow> bool) \<Rightarrow> byte list \<Rightarrow> de_state \<Rightarrow> record_error + 'a \<times> de_state \<Rightarrow> bool" where
  "reads P buf st r = (case r of Inl e \<Rightarrow> data_error e | Inr (v, st') \<Rightarrow> P v \<and> moves buf st st')"

lemma data_errors [simp]:
  "data_error Underflow" "data_error InvalidUtf8" "data_error (InvalidLength n)"
  by (simp_all add: data_error_def)

lemma moves_refl [simp]: "moves buf st st \<longleftrightarrow> de_pos st \<le> length buf"
  by (simp add: moves_def)

lemma moves_trans: "moves buf st st' \<Longrightarrow> moves buf st' st'' \<Longrightarrow> moves buf st st''"
  by (simp add: moves_def)

lemma moves_pos: "moves buf st st' \<Longrightarrow> de_pos st' \<le> length buf"
  by (simp add: moves_def)

lemma reads_Inr [simp]: "reads P buf st (Inr (v, st')) \<longleftrightarrow> P v \<and> moves buf st st'"
  by (simp add: reads_def)

lemma reads_Inl [simp]: "reads P buf st (Inl e) \<longleftrightarrow> data_error e"
  by (simp add: reads_def)

lemma reads_bind:
  assumes "reads P buf st r"
    and "\<And>v st'. r = Inr (v, st') \<Longrightarrow> P v \<Longrightarrow> moves buf st st' \<Longrightarrow> reads Q buf st' (f (v, st'))"
  shows "reads Q buf st (res_bind r f)"
proof (cases r)
  case (Inr vs)
  obtain v st' where vs: "vs = (v, st')" by (cases vs)
  with Inr assms(1) have st': "P v" "moves buf st st'" by simp_all
  have "reads Q buf st' (f (v, st'))" using assms(2) [OF _ st'] Inr vs by simp
  then show ?thesis using Inr vs moves_trans [OF st'(2)] by (auto simp: reads_def split: sum.splits)
qed (use assms in \<open>auto simp: reads_def\<close>)

lemma reads_mono: "reads P buf st r \<Longrightarrow> (\<And>v. P v \<Longrightarrow> Q v) \<Longrightarrow> reads Q buf st r"
  by (auto simp: reads_def split: sum.splits)

lemma slice_tail: "de_pos st \<le> length buf \<Longrightarrow> slice buf (de_pos st) (length buf) = Inr (drop (de_pos st) buf)"
  by (simp add: slice_def)

lemma record_reads:
  assumes "de_pos st \<le> length buf"
  shows "reads (\<lambda>_. True) buf st (record_next buf st)" "reads (\<lambda>_. True) buf st (record_trail buf st)"
    "reads (\<lambda>_. True) buf st (record_ignore buf st)"
proof -
  have "length (takeWhile (\<lambda>b. b \<noteq> SEP) (drop (de_pos st) buf)) \<le> length buf - de_pos st"
    using length_takeWhile_le [of _ "drop (de_pos st) buf"] by simp
  then show next_reads: "reads (\<lambda>_. True) buf st (record_next buf st)"
    using assms by (simp add: record_next_def slice_tail Let_def moves_def inc_pos_def)
  show trail_reads: "reads (\<lambda>_. True) buf st (record_trail buf st)"
    using assms by (simp add: record_trail_def slice_tail moves_def inc_pos_def)
  show "reads (\<lambda>_. True) buf st (record_ignore buf st)"
    using next_reads trail_reads by (simp add: record_ignore_def)
qed

lemma record_ignore_ends: "de_pos st \<le> length buf \<Longrightarrow> \<exists>v st'. record_ignore buf st = Inr (v, st')"
  by (simp add: record_ignore_def record_next_def record_trail_def slice_tail Let_def)

lemma take_u64_reads:
  assumes "de_pos st \<le> length buf"
  shows "reads (\<lambda>_. True) buf st (take_u64 buf st)"
  using assms by (auto simp: take_u64_def slice_def moves_def inc_pos_def min_def)

lemma sequence_start_simps [simp]:
  "de_pos (sequence_start st) = de_pos st" "de_rec (sequence_start st) = de_rec st"
  "moves buf (sequence_start st) st' = moves buf st st'"
  "reads P buf (sequence_start st) r = reads P buf st r"
  by (auto simp: sequence_start_def moves_def reads_def split: sum.splits)

lemma record_start_simps [simp]:
  "de_rec (record_start st) = Suc (de_rec st)"
  "de_pos (record_start st) = (if de_pos st \<noteq> 0 \<or> de_rec st > 0 then Suc (de_pos st) else 0)"
  by (auto simp: record_start_def inc_rec_def inc_pos_def)

lemma record_start_moves: "de_pos st < length buf \<Longrightarrow> moves buf st (record_start st)"
  by (simp add: moves_def)

text \<open>Every element but the first of a sequence takes at least its separator, so the loop has at most
  one round more than there are bytes left.\<close>

definition rounds :: "byte list \<Rightarrow> de_state \<Rightarrow> nat" where
  "rounds buf st = (length buf - de_pos st) + (if de_pos st = 0 \<and> de_rec st = 0 then 1 else 0)"

lemma next_element_reads:
  assumes "\<And>st. de_pos st \<le> length buf \<Longrightarrow> reads P buf st (f buf st)" "de_pos st \<le> length buf"
  shows "reads (pred_option P) buf st (next_element f buf st)"
proof (cases "length buf \<le> de_pos st")
  case False
  then have start: "moves buf st (record_start st)" by (intro record_start_moves) simp
  have "reads P buf (record_start st) (f buf (record_start st))" using assms(1) moves_pos [OF start] by blast
  then have "reads (pred_option P) buf (record_start st)
      (res_bind (f buf (record_start st)) (\<lambda>(v, st). Inr (Some v, st)))"
    by (rule reads_bind) (auto simp: moves_def)
  with False start show ?thesis
    by (auto simp: next_element_def reads_def split: sum.splits intro: moves_trans)
qed (use assms in \<open>simp add: next_element_def\<close>)

lemma read_elements_reads:
  assumes "\<And>st. de_pos st \<le> length buf \<Longrightarrow> reads P buf st (f buf st)"
    and "de_pos st \<le> length buf" "rounds buf st < n"
  shows "reads (list_all P) buf st (read_elements f n buf st)"
  using assms(2,3)
proof (induction n arbitrary: st)
  case (Suc n)
  show ?case
  proof (cases "length buf \<le> de_pos st")
    case True
    then show ?thesis using Suc.prems by (simp add: next_element_def)
  next
    case False
    then have start: "moves buf st (record_start st)" by (intro record_start_moves) simp
    have less: "rounds buf st' < rounds buf st" if "moves buf (record_start st) st'" for st'
      using that False by (auto simp: rounds_def moves_def split: if_splits)
    have first: "reads P buf (record_start st) (f buf (record_start st))" using assms(1) moves_pos [OF start] by blast
    have "reads (list_all P) buf (record_start st) (res_bind (f buf (record_start st)) (\<lambda>(v, st').
        res_bind (read_elements f n buf st') (\<lambda>(vs, st). Inr (v # vs, st))))"
    proof (rule reads_bind [OF first])
      fix v st' assume v: "P v" and st': "moves buf (record_start st) st'"
      have "reads (list_all P) buf st' (read_elements f n buf st')"
        using Suc.IH [OF moves_pos [OF st']] less [OF st'] Suc.prems(2) by simp
      then show "reads (list_all P) buf st' (case (v, st') of (v, st') \<Rightarrow>
          res_bind (read_elements f n buf st') (\<lambda>(vs, st). Inr (v # vs, st)))"
        using v by (auto elim!: reads_bind simp: moves_def)
    qed
    moreover have "read_elements f (Suc n) buf st = res_bind (f buf (record_start st)) (\<lambda>(v, st').
        res_bind (read_elements f n buf st') (\<lambda>(vs, st). Inr (v # vs, st)))"
      using False by (cases "f buf (record_start st)") (auto simp: next_element_def)
    ultimately show ?thesis using start
      by (auto simp: reads_def split: sum.splits intro: moves_trans)
  qed
qed simp

lemma deserialize_reads:
  "supported t \<Longrightarrow> de_pos st \<le> length buf \<Longrightarrow> reads (has_type t) buf st (deserialize t buf st)"
  "list_all supported ts \<Longrightarrow> de_pos st \<le> length buf \<Longrightarrow>
     reads (list_all2 has_type ts) buf st (deserialize_elements ts i buf st)"
proof (induction t buf st and ts i buf st rule: deserialize_deserialize_elements.induct)
  case (6 t buf st)
  then show ?case by (auto intro!: reads_bind [where P = "has_type t"] dest: moves_pos)
next
  case (9 ts buf st)
  then have "reads (list_all2 has_type ts) buf st (deserialize_elements ts 0 buf (sequence_start st))" by simp
  then show ?case by (auto elim!: reads_bind simp: moves_def)
next
  case (10 t buf st)
  have "reads (list_all (has_type t)) buf (sequence_start st)
      (read_elements (\<lambda>buf st. deserialize t buf st) (length buf + 2) buf (sequence_start st))"
    by (rule read_elements_reads) (use 10 in \<open>auto simp: rounds_def\<close>)
  then show ?case by (auto elim!: reads_bind simp: moves_def)
next
  case (13 t ts i buf st)
  have "reads (pred_option (has_type t)) buf st (next_element (\<lambda>buf st. deserialize t buf st) buf st)"
    by (rule next_element_reads) (use 13 in auto)
  then show ?case unfolding deserialize_elements.simps
    by (rule reads_bind) (use 13 in \<open>auto split: option.splits intro!: reads_bind [where P = "list_all2 has_type ts"] simp: moves_def\<close>)
qed (auto intro!: reads_bind [OF record_reads(1)] reads_bind [OF record_reads(2)] reads_bind [OF record_reads(3)]
       reads_bind [OF take_u64_reads] simp: moves_def inc_pos_def)

section \<open>What is written is read back\<close>

text \<open>The bytes of a single record, and the values a record of a given type can hold so that they are
  told apart: text is UTF-8, and an optional record that is present does not begin with nothing or
  with the separator.\<close>

fun enc :: "record_value \<Rightarrow> byte list" where
  "enc (VStr v) = v"
| "enc (VU64 v) = to_be_bytes v"
| "enc (VI64 v) = to_be_bytes v"
| "enc (VBool v) = (if v then [1] else [0])"
| "enc (VSome v) = enc v"
| "enc _ = []"

fun storable :: "record_type \<Rightarrow> record_value \<Rightarrow> bool" where
  "storable TStr (VStr v) = utf8_valid v"
| "storable TU64 (VU64 v) = True"
| "storable TI64 (VI64 v) = True"
| "storable TBool (VBool v) = True"
| "storable (TOption t) VNone = True"
| "storable (TOption t) (VSome v) = (storable t v \<and> enc v \<noteq> [] \<and> hd (enc v) \<noteq> SEP)"
| "storable _ _ = False"

lemma serialize_storable: "storable t v \<Longrightarrow> serialize v s = Inr (ser_write (enc v) s)"
  by (induction t v rule: storable.induct) (auto simp: ser_write_def)

lemma serialize_rest:
  "list_all2 storable ts vs \<Longrightarrow> ser_sep s \<Longrightarrow>
     serialize_tuple vs s = Inr (ser_write (concat (map (\<lambda>v. SEP # enc v) vs)) s)"
proof (induction vs arbitrary: ts s)
  case (Cons v vs)
  then obtain t ts' where "ts = t # ts'" "storable t v" "list_all2 storable ts' vs" by (auto simp: list_all2_Cons2)
  with Cons show ?case
    by (simp add: serialize_storable ser_record_start_def separator_def ser_write_def)
qed (simp add: ser_write_def)

lemma serialize_records:
  assumes "list_all2 storable (t # ts) (v # vs)"
  shows "serialize_to_vec (VTuple (v # vs)) = Inr (enc v @ concat (map (\<lambda>v. SEP # enc v) vs))"
proof -
  have "storable t v" "list_all2 storable ts vs" using assms by simp_all
  then show ?thesis
    by (simp add: serialize_to_vec_def ser_record_start_def serialize_storable serialize_rest ser_write_def)
qed

lemma takeWhile_record:
  "SEP \<notin> set v \<Longrightarrow> rest = [] \<or> hd rest = SEP \<Longrightarrow> takeWhile (\<lambda>b. b \<noteq> SEP) (v @ rest) = v"
  by (induction v) (auto simp: takeWhile_eq_Nil_iff)

lemma deserialize_storable:
  assumes "storable t v" "de_pos st \<le> length buf" "drop (de_pos st) buf = enc v @ rest" "rest = [] \<or> hd rest = SEP"
  shows "deserialize t buf st = Inr (v, inc_pos (length (enc v)) st)"
  using assms
proof (induction t v arbitrary: st rule: storable.induct)
  case (1 v)
  then show ?case
    by (simp add: record_next_def slice_tail takeWhile_record utf8_no_sep)
next
  case (2 v)
  then have "length buf - de_pos st = 8 + length rest" by (metis length_append length_drop length_to_be_bytes enc.simps(2))
  with 2 show ?case by (simp add: take_u64_def slice_def)
next
  case (3 v)
  then have "length buf - de_pos st = 8 + length rest" by (metis length_append length_drop length_to_be_bytes enc.simps(3))
  with 3 show ?case by (simp add: take_u64_def slice_def)
next
  case (4 v)
  then have "de_pos st < length buf" by (metis append_is_Nil_conv drop_eq_Nil enc.simps(4) leI not_Cons_self2)
  moreover from this have "buf ! de_pos st = hd (drop (de_pos st) buf)" by (simp add: hd_drop_conv_nth)
  ultimately show ?case using 4 by simp
next
  case (5 t)
  show ?case
  proof (cases "de_pos st < length buf")
    case True
    then have "buf ! de_pos st = hd (drop (de_pos st) buf)" by (simp add: hd_drop_conv_nth)
    moreover have "drop (de_pos st) buf \<noteq> []" using True by simp
    ultimately have "buf ! de_pos st = SEP" using 5 by auto
    then show ?thesis by (simp add: inc_pos_def)
  qed (simp add: inc_pos_def)
next
  case (6 t v)
  then have "de_pos st < length buf" by (metis append_is_Nil_conv drop_eq_Nil enc.simps(5) leI storable.simps(6))
  moreover from this have "buf ! de_pos st = hd (drop (de_pos st) buf)" by (simp add: hd_drop_conv_nth)
  ultimately show ?case using 6 by simp
qed simp_all

lemma deserialize_rest:
  assumes "list_all2 storable ts vs" "de_pos st \<le> length buf" "de_pos st \<noteq> 0 \<or> de_rec st > 0"
    and "drop (de_pos st) buf = concat (map (\<lambda>v. SEP # enc v) vs)"
  shows "\<exists>st'. deserialize_elements ts i buf st = Inr (vs, st')"
  using assms
proof (induction ts vs arbitrary: st i rule: list_all2_induct)
  case (Cons t ts v vs)
  let ?st = "record_start st" and ?rest = "concat (map (\<lambda>v. SEP # enc v) vs)"
  have pos: "de_pos st < length buf" 
  proof (rule ccontr)
    assume "\<not> de_pos st < length buf"
    then have "drop (de_pos st) buf = []" by simp
    with Cons.prems(3) show False by simp
  qed
  have st: "de_pos ?st = Suc (de_pos st)" using Cons.prems by simp
  have drop: "drop (de_pos ?st) buf = enc v @ ?rest"
    unfolding st drop_Suc tl_drop [symmetric] using Cons.prems(3) by simp
  have "?rest = [] \<or> hd ?rest = SEP" by (cases vs) auto
  then have step: "deserialize t buf ?st = Inr (v, inc_pos (length (enc v)) ?st)"
    by (intro deserialize_storable [OF Cons.hyps(1) _ drop]) (use pos st in simp_all)
  have "de_pos ?st + length (enc v) \<le> length buf"
    using arg_cong [OF drop, of length] pos st by simp
  moreover have "drop (de_pos ?st + length (enc v)) buf = ?rest"
    using arg_cong [OF drop, of "drop (length (enc v))"] by (simp add: add.commute)
  ultimately obtain st' where "deserialize_elements ts (Suc i) buf (inc_pos (length (enc v)) ?st) = Inr (vs, st')"
    using Cons.IH [of "inc_pos (length (enc v)) ?st" "Suc i"] by (auto simp: inc_pos_def)
  then show ?case using pos step by (simp add: next_element_def)
qed simp

lemma records_roundtrip_aux:
  assumes "list_all2 storable (t # ts) (v # vs)" "vs \<noteq> [] \<or> enc v \<noteq> []"
  shows "res_bind (serialize_to_vec (VTuple (v # vs))) (from_slice (TTuple (t # ts))) = Inr (VTuple (v # vs))"
proof -
  let ?rest = "concat (map (\<lambda>v. SEP # enc v) vs)" and ?buf = "enc v @ concat (map (\<lambda>v. SEP # enc v) vs)"
  let ?st = "record_start (sequence_start \<lparr>de_pos = 0, de_rec = 0, de_seq = False\<rparr>)"
  have "?buf \<noteq> []" using assms(2) by (cases vs) auto
  moreover have "?rest = [] \<or> hd ?rest = SEP" by (cases vs) auto
  then have "deserialize t ?buf ?st = Inr (v, inc_pos (length (enc v)) ?st)"
    by (intro deserialize_storable [where rest = ?rest]) (use assms(1) in simp_all)
  moreover obtain st' where "deserialize_elements ts 1 ?buf (inc_pos (length (enc v)) ?st) = Inr (vs, st')"
    using deserialize_rest [of ts vs "inc_pos (length (enc v)) ?st" ?buf 1] assms(1) by (auto simp: inc_pos_def)
  ultimately have "from_slice (TTuple (t # ts)) ?buf = Inr (VTuple (v # vs))"
    by (simp add: from_slice_def next_element_def)
  then show ?thesis using serialize_records [OF assms(1)] by simp
qed

section \<open>Keys\<close>

text \<open>The key of a tuple, as \<open>serialize_key\<close> with its \<open>expect\<close> gives it: the tuples of the services
  never fail to serialize.\<close>

definition key_of :: "record_value \<Rightarrow> key" where
  "key_of v = (case serialize_to_vec v of Inr k \<Rightarrow> k | Inl _ \<Rightarrow> [])"

definition opt_str :: "byte list option \<Rightarrow> record_value" where
  "opt_str r = (case r of None \<Rightarrow> VNone | Some s \<Rightarrow> VSome (VStr s))"

definition sep_free :: "byte list \<Rightarrow> bool" where
  "sep_free a \<longleftrightarrow> SEP \<notin> set a"

lemma sep_split:
  assumes "sep_free a" "sep_free a'"
  shows "a @ SEP # x = a' @ SEP # y \<longleftrightarrow> a = a' \<and> x = y"
  using assms unfolding sep_free_def
proof (induction a arbitrary: a')
  case Nil
  then show ?case by (cases a') auto
next
  case (Cons b a)
  then show ?case by (cases a') auto
qed

lemma sep_split_prefix:
  assumes "sep_free a" "sep_free a'"
  shows "starts_with (a @ SEP # x) (a' @ SEP # y) \<longleftrightarrow> a = a' \<and> starts_with x y"
  using sep_split [OF assms(1,2)] by (auto simp: starts_with_iff)

lemma utf8_sep_free [simp]: "utf8_valid a \<Longrightarrow> sep_free a"
  by (simp add: sep_free_def utf8_no_sep)

lemma enc_opt_str: "enc (opt_str r) = (case r of None \<Rightarrow> [] | Some s \<Rightarrow> s)"
  by (simp add: opt_str_def split: option.splits)

section \<open>Properties\<close>

text \<open>C37: a key made of a tuple of records is read back as it was written: texts, numbers, flags and
  optional records, in any number and order, when texts are UTF-8, a present optional record does not
  begin with the separator byte or nothing, and the tuple is not a single empty record.\<close>

theorem records_roundtrip:
  assumes "list_all2 storable (t # ts) (v # vs)" "vs \<noteq> [] \<or> enc v \<noteq> []"
  shows "\<exists>key. serialize_to_vec (VTuple (v # vs)) = Inr key \<and> from_slice (TTuple (t # ts)) key = Inr (VTuple (v # vs))"
  using records_roundtrip_aux [OF assms] serialize_records [OF assms(1)] by auto

theorem records_roundtrip_witness:
  "\<exists>key. serialize_to_vec (VTuple [VNone, VStr [64, 97], VU64 (2 ^ 64 - 1), VStr []]) = Inr key \<and>
     from_slice (TTuple [TOption TStr, TStr, TU64, TStr]) key =
       Inr (VTuple [VNone, VStr [64, 97], VU64 (2 ^ 64 - 1), VStr []])"
  by (rule records_roundtrip) (simp_all add: byte_in_def)



end
