(* ===== verification/Account_Data.thy ===== *)
theory Account_Data
  imports Records Short_Ids
begin

text \<open>
  Account data, \<open>src/service/account_data/mod.rs\<close>: per user, and per user and room, the last event of
  each type, with a second column that is ordered by a counter so that a sync can ask for what
  changed. The columns are keyed by the records of \<^theory_text>\<open>Records\<close>; ids and event types are byte
  strings. JSON is the crate \<open>serde_json\<close>'s: whether a value has a member and its text are
  parameters, as is the validity of ids, which the crate \<open>ruma\<close> decides. Waking a waiting sync
  (\<open>sync.wake\<close>) has no effect on the columns and is left out.
\<close>

section \<open>State and operations\<close>

type_synonym ident = "byte list"

record ruma_ids =
  user_valid :: "ident \<Rightarrow> bool"
  room_valid :: "ident \<Rightarrow> bool"
  server_valid :: "ident \<Rightarrow> bool"
  server_of :: "ident \<Rightarrow> ident"

record account_db =
  roomuserdataid_accountdata :: "byte list column"
  roomusertype_roomuserdataid :: "byte list column"

datatype account_error = InvalidParam string

record 'j json_ops =
  json_get :: "'j \<Rightarrow> string \<Rightarrow> 'j option"
  json_text :: "'j \<Rightarrow> byte list"

definition data_key :: "ident option \<Rightarrow> ident \<Rightarrow> u64 \<Rightarrow> byte list \<Rightarrow> key" where
  "data_key room_id user_id n event_type =
     key_of (VTuple [opt_str room_id, VStr user_id, VU64 n, VStr event_type])"

definition index_key :: "ident option \<Rightarrow> ident \<Rightarrow> byte list \<Rightarrow> key" where
  "index_key room_id user_id event_type = key_of (VTuple [opt_str room_id, VStr user_id, VStr event_type])"

definition account_update ::
    "'j json_ops \<Rightarrow> short_state \<times> account_db \<Rightarrow> ident option \<Rightarrow> ident \<Rightarrow> byte list \<Rightarrow> 'j \<Rightarrow>
     (short_state \<times> account_db) \<times> (account_error + unit)" where
  "account_update js s room_id user_id event_type data =
     (case s of (globals, db) \<Rightarrow>
       if json_get js data ''type'' = None \<or> json_get js data ''content'' = None
       then ((globals, db), Inl (InvalidParam ''Account data doesn't have all required fields.''))
       else
         (let (n, globals) = next_count globals;
              roomuserdataid = data_key room_id user_id n event_type;
              db = db\<lparr>roomuserdataid_accountdata :=
                        kv_insert roomuserdataid (json_text js data) (roomuserdataid_accountdata db)\<rparr>;
              key = index_key room_id user_id event_type;
              prev = kv_get (roomusertype_roomuserdataid db) key;
              db = db\<lparr>roomusertype_roomuserdataid := kv_insert key roomuserdataid (roomusertype_roomuserdataid db)\<rparr>;
              db = (case prev of
                      None \<Rightarrow> db
                    | Some prev \<Rightarrow> db\<lparr>roomuserdataid_accountdata := kv_remove prev (roomuserdataid_accountdata db)\<rparr>)
          in ((globals, db), Inr ())))"

definition get_raw :: "account_db \<Rightarrow> ident option \<Rightarrow> ident \<Rightarrow> byte list \<Rightarrow> byte list option" where
  "get_raw db room_id user_id kind =
     Option.bind (kv_get (roomusertype_roomuserdataid db) (index_key room_id user_id kind))
       (kv_get (roomuserdataid_accountdata db))"

definition get_global :: "(byte list \<Rightarrow> 'a option) \<Rightarrow> account_db \<Rightarrow> ident \<Rightarrow> byte list \<Rightarrow> 'a option" where
  "get_global parse db user_id kind = Option.bind (get_raw db None user_id kind) parse"

definition get_room :: "(byte list \<Rightarrow> 'a option) \<Rightarrow> account_db \<Rightarrow> ident \<Rightarrow> ident \<Rightarrow> byte list \<Rightarrow> 'a option" where
  "get_room parse db room_id user_id kind = Option.bind (get_raw db (Some room_id) user_id kind) parse"

text \<open>The type \<open>Key\<close> of \<open>changes_since\<close>: an optional room, the user, the count, and the rest ignored.\<close>

definition decode_data_key :: "ruma_ids \<Rightarrow> key \<Rightarrow> (ident option \<times> ident \<times> u64) option" where
  "decode_data_key ids k =
     (case from_slice (TTuple [TOption TStr, TStr, TU64, TIgnore]) k of
        Inr (VTuple [VNone, VStr u, VU64 n, VUnit]) \<Rightarrow>
          if user_valid ids u then Some (None, u, n) else None
      | Inr (VTuple [VSome (VStr r), VStr u, VU64 n, VUnit]) \<Rightarrow>
          if room_valid ids r \<and> user_valid ids u then Some (Some r, u, n) else None
      | _ \<Rightarrow> None)"

definition first_possible :: "ident option \<Rightarrow> ident \<Rightarrow> u64 option \<Rightarrow> key" where
  "first_possible room_id user_id since =
     key_of (VTuple [opt_str room_id, VStr user_id,
       VU64 (case since of None \<Rightarrow> 0 | Some since \<Rightarrow> saturating_add_u64 since 1)])"

definition changes_since ::
    "ruma_ids \<Rightarrow> (ident option \<Rightarrow> byte list \<Rightarrow> 'e option) \<Rightarrow> account_db \<Rightarrow> ident option \<Rightarrow> ident \<Rightarrow>
     u64 option \<Rightarrow> u64 option \<Rightarrow> 'e list" where
  "changes_since ids parse db room_id user_id since to =
     List.map_filter (\<lambda>(_, v). parse room_id v)
       (takeWhile (\<lambda>((room_id', user_id', n), _).
            room_id = room_id' \<and> user_id = user_id' \<and> (case to of None \<Rightarrow> True | Some to \<Rightarrow> n \<le> to))
         (List.map_filter (\<lambda>(k, v). map_option (\<lambda>d. (d, v)) (decode_data_key ids k))
           (kv_stream_from (roomuserdataid_accountdata db) (first_possible room_id user_id since))))"

section \<open>The shape of the keys\<close>

definition room_bytes :: "ident option \<Rightarrow> byte list" where
  "room_bytes r = (case r of None \<Rightarrow> [] | Some r \<Rightarrow> r)"

definition target_ok :: "ident option \<Rightarrow> ident \<Rightarrow> byte list \<Rightarrow> bool" where
  "target_ok r u t \<longleftrightarrow> r \<noteq> Some [] \<and> utf8_valid (room_bytes r) \<and> utf8_valid u \<and> utf8_valid t"

lemma room_bytes_inj: "r \<noteq> Some [] \<Longrightarrow> r' \<noteq> Some [] \<Longrightarrow> room_bytes r = room_bytes r' \<longleftrightarrow> r = r'"
  by (auto simp: room_bytes_def split: option.splits)

lemma key_bytes:
  "data_key r u n t = room_bytes r @ SEP # u @ SEP # to_be_bytes n @ SEP # t"
  "index_key r u t = room_bytes r @ SEP # u @ SEP # t"
  by (simp_all add: data_key_def index_key_def key_of_def serialize_to_vec_def opt_str_def room_bytes_def
      ser_record_start_def separator_def ser_write_def split: option.splits)

lemma first_possible_bytes:
  "first_possible r u since = room_bytes r @ SEP # u @ SEP #
     to_be_bytes (case since of None \<Rightarrow> 0 | Some since \<Rightarrow> saturating_add_u64 since 1)"
  by (simp add: first_possible_def key_of_def serialize_to_vec_def opt_str_def room_bytes_def
      ser_record_start_def separator_def ser_write_def split: option.splits)

lemma target_parts:
  assumes "target_ok r u t" "target_ok r' u' t'"
  shows "room_bytes r @ SEP # u @ SEP # x = room_bytes r' @ SEP # u' @ SEP # y \<longleftrightarrow> r = r' \<and> u = u' \<and> x = y"
  using assms room_bytes_inj [of r r'] by (auto simp: target_ok_def sep_split)

lemma index_key_inj:
  assumes "target_ok r u t" "target_ok r' u' t'"
  shows "index_key r u t = index_key r' u' t' \<longleftrightarrow> r = r' \<and> u = u' \<and> t = t'"
  using target_parts [OF assms] by (simp add: key_bytes)

lemma data_key_inj:
  assumes "target_ok r u t" "target_ok r' u' t'"
  shows "data_key r u n t = data_key r' u' n' t' \<longleftrightarrow> r = r' \<and> u = u' \<and> n = n' \<and> t = t'"
  using target_parts [OF assms] by (auto simp: key_bytes)

section \<open>The two columns agree\<close>

definition account_wf :: "short_state \<Rightarrow> account_db \<Rightarrow> bool" where
  "account_wf g db \<longleftrightarrow>
     kv_sorted (roomuserdataid_accountdata db) \<and> kv_sorted (roomusertype_roomuserdataid db) \<and>
     (\<forall>k v. kv_get (roomusertype_roomuserdataid db) k = Some v \<longrightarrow>
        (\<exists>r u t n. target_ok r u t \<and> k = index_key r u t \<and> v = data_key r u n t \<and> n \<le> counter g \<and>
                   kv_get (roomuserdataid_accountdata db) v \<noteq> None)) \<and>
     (\<forall>k. kv_get (roomuserdataid_accountdata db) k \<noteq> None \<longrightarrow>
        (\<exists>r u t n. target_ok r u t \<and> k = data_key r u n t \<and>
                   kv_get (roomusertype_roomuserdataid db) (index_key r u t) = Some k))"

lemma account_wfD:
  assumes "account_wf g db"
  shows "kv_sorted (roomuserdataid_accountdata db)" "kv_sorted (roomusertype_roomuserdataid db)"
  using assms by (simp_all add: account_wf_def)

lemma account_wf_index:
  assumes "account_wf g db" "target_ok r u t" "kv_get (roomusertype_roomuserdataid db) (index_key r u t) = Some v"
  obtains n where "v = data_key r u n t" "n \<le> counter g" "kv_get (roomuserdataid_accountdata db) v \<noteq> None"
proof -
  from assms(1,3) obtain r' u' t' n where *: "target_ok r' u' t'" "index_key r u t = index_key r' u' t'"
    "v = data_key r' u' n t'" "n \<le> counter g" "kv_get (roomuserdataid_accountdata db) v \<noteq> None"
    unfolding account_wf_def by meson
  with index_key_inj [OF assms(2) *(1)] show ?thesis using that by simp
qed

lemma account_wf_data:
  assumes "account_wf g db" "kv_get (roomuserdataid_accountdata db) k \<noteq> None"
  obtains r u t n where "target_ok r u t" "k = data_key r u n t" "n \<le> counter g"
    "kv_get (roomusertype_roomuserdataid db) (index_key r u t) = Some k"
proof -
  from assms obtain r u t n where *: "target_ok r u t" "k = data_key r u n t"
    "kv_get (roomusertype_roomuserdataid db) (index_key r u t) = Some k"
    unfolding account_wf_def by meson
  moreover obtain n' where "k = data_key r u n' t" "n' \<le> counter g"
    using account_wf_index [OF assms(1) *(1,3)] by blast
  ultimately show ?thesis using that data_key_inj [OF *(1,1)] by blast
qed

text \<open>The columns after an update, as maps.\<close>

lemma account_update_columns:
  assumes "account_wf g db" "counter g < - 1"
    and "json_get js data ''type'' \<noteq> None" "json_get js data ''content'' \<noteq> None"
  obtains g' db' where "account_update js (g, db) r u t data = ((g', db'), Inr ())" "counter g' = counter g + 1"
    "kv_sorted (roomuserdataid_accountdata db')" "kv_sorted (roomusertype_roomuserdataid db')"
    "kv_get (roomusertype_roomuserdataid db') =
       (kv_get (roomusertype_roomuserdataid db))(index_key r u t \<mapsto> data_key r u (counter g + 1) t)"
    "kv_get (roomuserdataid_accountdata db') =
       (\<lambda>k. if kv_get (roomusertype_roomuserdataid db) (index_key r u t) = Some k then None
            else if k = data_key r u (counter g + 1) t then Some (json_text js data)
            else kv_get (roomuserdataid_accountdata db) k)"
proof -
  obtain g' db' where *: "account_update js (g, db) r u t data = ((g', db'), Inr ())"
    using assms(2-4) by (auto simp: account_update_def next_count_value Let_def)
  show ?thesis
  proof (rule that [OF *])
    note defs = account_update_def next_count_value [OF assms(2)] Let_def
    show "counter g' = counter g + 1" using * assms(3,4) by (auto simp: defs)
    show "kv_sorted (roomuserdataid_accountdata db')" "kv_sorted (roomusertype_roomuserdataid db')"
      using * assms(3,4) account_wfD [OF assms(1)]
      by (auto simp: defs kv_sorted_insert kv_sorted_remove split: option.splits)
    show "kv_get (roomusertype_roomuserdataid db') =
       (kv_get (roomusertype_roomuserdataid db))(index_key r u t \<mapsto> data_key r u (counter g + 1) t)"
      using * assms(3,4) account_wfD [OF assms(1)] by (auto simp: defs kv_get_insert split: option.splits)
    show "kv_get (roomuserdataid_accountdata db') =
       (\<lambda>k. if kv_get (roomusertype_roomuserdataid db) (index_key r u t) = Some k then None
            else if k = data_key r u (counter g + 1) t then Some (json_text js data)
            else kv_get (roomuserdataid_accountdata db) k)"
      using * assms(3,4) account_wfD [OF assms(1)]
      by (auto simp: defs kv_get_insert kv_get_remove fun_eq_iff split: option.splits)
  qed
qed

lemma counter_fresh: "c < (- 1 :: u64) \<Longrightarrow> n \<le> c \<Longrightarrow> n < c + 1"
  using unat_counter_step [of c] by (simp add: word_less_nat_alt word_le_nat_alt)

lemma account_update_wf:
  assumes "account_wf g db" "counter g < - 1" "target_ok r u t"
    and "json_get js data ''type'' \<noteq> None" "json_get js data ''content'' \<noteq> None"
  obtains g' db' where "account_update js (g, db) r u t data = ((g', db'), Inr ())" "account_wf g' db'"
    "get_raw db' r u t = Some (json_text js data)"
    "\<forall>r' u' t'. target_ok r' u' t' \<and> (r', u', t') \<noteq> (r, u, t) \<longrightarrow> get_raw db' r' u' t' = get_raw db r' u' t'"
proof -
  obtain g' db' where u: "account_update js (g, db) r u t data = ((g', db'), Inr ())" "counter g' = counter g + 1"
    and sorted: "kv_sorted (roomuserdataid_accountdata db')" "kv_sorted (roomusertype_roomuserdataid db')"
    and index: "kv_get (roomusertype_roomuserdataid db') =
       (kv_get (roomusertype_roomuserdataid db))(index_key r u t \<mapsto> data_key r u (counter g + 1) t)"
    and data: "kv_get (roomuserdataid_accountdata db') =
       (\<lambda>k. if kv_get (roomusertype_roomuserdataid db) (index_key r u t) = Some k then None
            else if k = data_key r u (counter g + 1) t then Some (json_text js data)
            else kv_get (roomuserdataid_accountdata db) k)"
    using account_update_columns [OF assms(1,2,4,5)] by blast
  have fresh: "n \<noteq> counter g + 1" if "n \<le> counter g" for n using counter_fresh [OF assms(2) that] by blast
  have new: "kv_get (roomusertype_roomuserdataid db) (index_key r u t) \<noteq> Some (data_key r u (counter g + 1) t)"
    using account_wf_index [OF assms(1,3)] fresh data_key_inj [OF assms(3,3)] by metis
  have other: "kv_get (roomusertype_roomuserdataid db) (index_key r u t) \<noteq> Some (data_key r' u' n t')"
    "data_key r' u' n t' \<noteq> data_key r u (counter g + 1) t" "index_key r' u' t' \<noteq> index_key r u t"
    if "target_ok r' u' t'" "(r', u', t') \<noteq> (r, u, t)" for r' u' t' n
    using account_wf_index [OF assms(1,3)] data_key_inj [OF that(1) assms(3)] index_key_inj [OF that(1) assms(3)] that(2)
    by auto
  show ?thesis
  proof (rule that [OF u(1)])
    show "get_raw db' r u t = Some (json_text js data)" using new by (simp add: get_raw_def index data)
    have same: "get_raw db' r' u' t' = get_raw db r' u' t'" if t': "target_ok r' u' t'" "(r', u', t') \<noteq> (r, u, t)" for r' u' t'
    proof (cases "kv_get (roomusertype_roomuserdataid db) (index_key r' u' t')")
      case (Some v)
      then obtain n where "v = data_key r' u' n t'" using account_wf_index [OF assms(1) t'(1)] by blast
      with Some other [OF t'] show ?thesis by (simp add: get_raw_def index data)
    qed (use other(3) [OF t'] in \<open>simp add: get_raw_def index\<close>)
    then show "\<forall>r' u' t'. target_ok r' u' t' \<and> (r', u', t') \<noteq> (r, u, t) \<longrightarrow> get_raw db' r' u' t' = get_raw db r' u' t'"
      by blast
    have le: "n \<le> counter g'" if "n \<le> counter g" for n
      using counter_fresh [OF assms(2) that] u(2) by simp
    show "account_wf g' db'"
      unfolding account_wf_def
    proof (intro conjI allI impI sorted)
      fix k v assume kv: "kv_get (roomusertype_roomuserdataid db') k = Some v"
      show "\<exists>r u t n. target_ok r u t \<and> k = index_key r u t \<and> v = data_key r u n t \<and> n \<le> counter g' \<and>
          kv_get (roomuserdataid_accountdata db') v \<noteq> None"
      proof (cases "k = index_key r u t")
        case True
        then have "v = data_key r u (counter g + 1) t" using kv index by simp
        then show ?thesis using True assms(3) new u(2) data by (metis option.distinct(1) order_refl)
      next
        case False
        then have "kv_get (roomusertype_roomuserdataid db) k = Some v" using kv index by simp
        then obtain r' u' t' n where *: "target_ok r' u' t'" "k = index_key r' u' t'" "v = data_key r' u' n t'"
          "n \<le> counter g" "kv_get (roomuserdataid_accountdata db) v \<noteq> None"
          using assms(1) unfolding account_wf_def by meson
        have "(r', u', t') \<noteq> (r, u, t)" using False *(2) by auto
        then have "kv_get (roomuserdataid_accountdata db') v \<noteq> None"
          using other(1,2) [OF *(1), of n] *(3,5) data by auto
        then show ?thesis using * le by blast
      qed
    next
      fix k assume k: "kv_get (roomuserdataid_accountdata db') k \<noteq> None"
      show "\<exists>r u t n. target_ok r u t \<and> k = data_key r u n t \<and>
          kv_get (roomusertype_roomuserdataid db') (index_key r u t) = Some k"
      proof (cases "k = data_key r u (counter g + 1) t")
        case True
        then show ?thesis using assms(3) index by auto
      next
        case False
        then have "kv_get (roomuserdataid_accountdata db) k \<noteq> None"
          "kv_get (roomusertype_roomuserdataid db) (index_key r u t) \<noteq> Some k"
          using k data by (auto split: if_splits)
        then obtain r' u' t' n where *: "target_ok r' u' t'" "k = data_key r' u' n t'"
          "kv_get (roomusertype_roomuserdataid db) (index_key r' u' t') = Some k" "(r', u', t') \<noteq> (r, u, t)"
          using account_wf_data [OF assms(1)] by (metis prod.inject)
        then show ?thesis using other(3) [OF *(1,4)] index by auto
      qed
    qed
  qed
qed

section \<open>What changed since a count\<close>

lemma takeWhile_map_filter:
  assumes "sorted_wrt R xs" "\<And>a b. a \<in> set xs \<Longrightarrow> b \<in> set xs \<Longrightarrow> R a b \<Longrightarrow> Q b \<Longrightarrow> Q a"
    and "\<And>x. x \<in> set xs \<Longrightarrow> Q x \<longleftrightarrow> (\<exists>d. f x = Some d \<and> P d)"
  shows "takeWhile P (List.map_filter f xs) = List.map_filter f (filter Q xs)"
  using assms
proof (induction xs)
  case (Cons x xs)
  have IH: "takeWhile P (List.map_filter f xs) = List.map_filter f (filter Q xs)"
  proof (rule Cons.IH)
    show "sorted_wrt R xs" using Cons.prems(1) by simp
    show "Q a" if "a \<in> set xs" "b \<in> set xs" "R a b" "Q b" for a b using Cons.prems(2) that by (meson list.set_intros(2))
    show "Q y \<longleftrightarrow> (\<exists>d. f y = Some d \<and> P d)" if "y \<in> set xs" for y using Cons.prems(3) that by (meson list.set_intros(2))
  qed
  have x: "Q x \<longleftrightarrow> (\<exists>d. f x = Some d \<and> P d)" using Cons.prems(3) by simp
  show ?case
  proof (cases "Q x")
    case True
    then obtain d where "f x = Some d" "P d" using x by blast
    with True IH show ?thesis by (simp add: map_filter_simps)
  next
    case False
    have "\<not> Q y" if "y \<in> set xs" for y
      using Cons.prems(2) [of x y] Cons.prems(1) False that by auto
    then have "filter Q xs = []" by (simp add: filter_empty_conv)
    moreover have "\<not> P d" if "f x = Some d" for d using False that x by blast
    ultimately show ?thesis using False IH by (simp add: map_filter_simps split: option.splits)
  qed
qed (simp add: map_filter_simps)

lemma decode_data_key:
  assumes "target_ok r u t"
  shows "decode_data_key ids (data_key r u n t) =
    (if (\<forall>x. r = Some x \<longrightarrow> room_valid ids x) \<and> user_valid ids u then Some (r, u, n) else None)"
proof -
  let ?st = "record_start (sequence_start \<lparr>de_pos = 0, de_rec = 0, de_seq = False\<rparr>)"
  let ?buf = "data_key r u n t" and ?st1 = "inc_pos (length (room_bytes r)) (record_start (sequence_start \<lparr>de_pos = 0, de_rec = 0, de_seq = False\<rparr>))"
  let ?st2 = "inc_pos (length u) (record_start ?st1)" and ?st3 = "inc_pos 8 (record_start (inc_pos (length u) (record_start ?st1)))"
  have buf: "?buf = room_bytes r @ SEP # u @ SEP # to_be_bytes n @ SEP # t" by (rule key_bytes)
  have pos: "de_pos ?st = 0" "de_pos ?st1 = length (room_bytes r)" "de_pos (record_start ?st1) = length (room_bytes r) + 1"
    "de_pos ?st2 = length (room_bytes r) + 1 + length u" "de_pos (record_start ?st2) = length (room_bytes r) + 2 + length u"
    "de_pos ?st3 = length (room_bytes r) + 10 + length u" "de_pos (record_start ?st3) = length (room_bytes r) + 11 + length u"
    by (simp_all add: inc_pos_def)
  have len: "length ?buf = length (room_bytes r) + 11 + length u + length t" using buf by simp
  have hd_opt: "room_bytes r \<noteq> [] \<Longrightarrow> hd (room_bytes r) \<noteq> SEP"
    using assms hd_in_set utf8_no_sep unfolding target_ok_def by metis
  have "storable (TOption TStr) (opt_str r)" "enc (opt_str r) = room_bytes r"
    using assms hd_opt by (auto simp: opt_str_def room_bytes_def target_ok_def split: option.splits)
  then have 1: "deserialize (TOption TStr) ?buf ?st = Inr (opt_str r, ?st1)"
    using deserialize_storable [of "TOption TStr" "opt_str r" ?st ?buf "SEP # u @ SEP # to_be_bytes n @ SEP # t"]
    by (simp add: pos buf del: deserialize.simps)
  have 2: "deserialize TStr ?buf (record_start ?st1) = Inr (VStr u, ?st2)"
    using deserialize_storable [of TStr "VStr u" "record_start ?st1" ?buf "SEP # to_be_bytes n @ SEP # t"] assms
    by (simp only: pos len) (simp add: buf target_ok_def)
  have 3: "deserialize TU64 ?buf (record_start ?st2) = Inr (VU64 n, ?st3)"
    using deserialize_storable [of TU64 "VU64 n" "record_start ?st2" ?buf "SEP # t"]
    by (simp only: pos len) (simp add: buf)
  have 4: "\<exists>st. deserialize TIgnore ?buf (record_start ?st3) = Inr (VUnit, st)"
    using record_ignore_ends [of "record_start ?st3" ?buf] pos(7) len by auto
  then obtain st4 where 4: "deserialize TIgnore ?buf (record_start ?st3) = Inr (VUnit, st4)" ..
  have "from_slice (TTuple [TOption TStr, TStr, TU64, TIgnore]) ?buf = Inr (VTuple [opt_str r, VStr u, VU64 n, VUnit])"
    unfolding from_slice_def deserialize.simps(9) deserialize_elements.simps next_element_def
    by (simp only: 1 2 3 4 pos len res_bind.simps) (simp add: 1 2 3 4 pos len del: deserialize.simps)
  then show ?thesis by (auto simp: decode_data_key_def opt_str_def split: option.splits)
qed

definition start_count :: "u64 option \<Rightarrow> u64" where
  "start_count since = (case since of None \<Rightarrow> 0 | Some since \<Rightarrow> saturating_add_u64 since 1)"

definition up_to :: "u64 option \<Rightarrow> u64 \<Rightarrow> bool" where
  "up_to to n = (case to of None \<Rightarrow> True | Some to \<Rightarrow> n \<le> to)"

lemma start_count_le: "since \<noteq> Some (- 1) \<Longrightarrow> start_count since \<le> n \<longleftrightarrow> (\<forall>m. since = Some m \<longrightarrow> m < n)"
proof (cases since)
  case (Some m)
  moreover assume "since \<noteq> Some (- 1)"
  ultimately have "m < - 1" by (simp add: word_order.not_eq_extremum)
  then have "unat (m + 1) = unat m + 1" by (rule unat_counter_step)
  moreover have "saturating_add_u64 m 1 = m + 1"
    using calculation unat_u64_less [of "m + 1"] by (simp add: saturating_add_u64_def)
  ultimately show ?thesis using Some by (simp add: start_count_def word_le_nat_alt word_less_nat_alt Suc_le_eq)
qed (simp add: start_count_def)

text \<open>The count and the type of a key, given the length of the room and the user before them.\<close>

definition key_entry :: "ident option \<Rightarrow> ident \<Rightarrow> key \<times> byte list \<Rightarrow> u64 \<times> byte list \<times> byte list" where
  "key_entry r u kv =
     (let rest = drop (length (room_bytes r) + length u + 2) (fst kv)
      in (from_be_bytes (take 8 rest), drop 9 rest, snd kv))"

lemma key_entry: "key_entry r u (data_key r u n t, v) = (n, t, v)"
  by (simp add: key_entry_def key_bytes)

lemma data_key_less:
  "data_key r u n t < data_key r u m t' \<Longrightarrow> n \<le> m"
  by (auto simp: key_bytes key_order)

lemma data_key_ge_first:
  "first_possible r u since \<le> data_key r u n t \<longleftrightarrow> start_count since \<le> n"
  by (auto simp: key_bytes first_possible_bytes start_count_def key_order)

lemma data_key_between:
  assumes "target_ok r u t" "target_ok r' u' t'" "first_possible r u since \<le> data_key r' u' n' t'"
    "data_key r' u' n' t' \<le> data_key r u n t"
  shows "r' = r \<and> u' = u \<and> n' \<le> n"
proof -
  let ?p = "room_bytes r @ SEP # u @ [SEP]"
  have "?p @ to_be_bytes (start_count since) \<le> data_key r' u' n' t'" "data_key r' u' n' t' \<le> ?p @ (to_be_bytes n @ SEP # t)"
    using assms(3,4) by (simp_all add: key_bytes first_possible_bytes start_count_def)
  then obtain z where "data_key r' u' n' t' = ?p @ z" using sandwich_prefix by blast
  then have "r' = r \<and> u' = u" using target_parts [OF assms(2,1)] by (simp add: key_bytes)
  moreover have "n' \<le> n" if "r' = r" "u' = u"
    using assms(4) that data_key_less [of r u n' t' n t] data_key_inj [OF assms(2,1)] by (auto simp: le_less)
  ultimately show ?thesis by blast
qed

lemma map_filter_values:
  assumes "\<And>e. e \<in> set es \<Longrightarrow> \<exists>d. f e = Some (d, snd e)"
  shows "List.map_filter (\<lambda>(_, v). parse v) (List.map_filter f es) =
    List.map_filter (\<lambda>(_, _, v). parse v) (map (key_entry r u) es)"
  using assms
proof (induction es)
  case (Cons e es)
  then obtain d where "f e = Some (d, snd e)" by (metis list.set_intros(1))
  with Cons show ?case by (simp add: map_filter_simps key_entry_def Let_def split: option.split)
qed (simp add: map_filter_simps)

lemma changes_since_entries:
  assumes "account_wf g db" "target_ok r u []" "user_valid ids u" "\<forall>x. r = Some x \<longrightarrow> room_valid ids x"
  shows "\<exists>entries. distinct entries \<and> sorted (map fst entries) \<and>
    set entries = {(n, t, v). utf8_valid t \<and> kv_get (roomuserdataid_accountdata db) (data_key r u n t) = Some v \<and>
      start_count since \<le> n \<and> up_to to n} \<and>
    changes_since ids parse db r u since to = List.map_filter (\<lambda>(_, _, v). parse r v) entries"
proof -
  let ?c = "roomuserdataid_accountdata db"
  define S where "S = kv_stream_from ?c (first_possible r u since)"
  define Q where "Q = (\<lambda>e :: key \<times> byte list. \<exists>n t v. e = (data_key r u n t, v) \<and> utf8_valid t \<and> up_to to n)"
  define f where "f = (\<lambda>(k, v :: byte list). map_option (\<lambda>d. (d, v)) (decode_data_key ids k))"
  define P where "P = (\<lambda>((r', u', n), _ :: byte list). r = r' \<and> u = u' \<and> up_to to n)"
  have ok: "target_ok r u t" if "utf8_valid t" for t using assms(2) that by (simp add: target_ok_def)
  have S: "set S = {(k, v). first_possible r u since \<le> k \<and> kv_get ?c k = Some v}"
    unfolding S_def by (rule kv.set_stream_from [OF account_wfD(1) [OF assms(1)]])
  have sorted_S: "sorted_wrt (\<lambda>a b. fst a < fst b) S"
    using kv.sorted_stream_from [OF account_wfD(1) [OF assms(1)]] by (simp add: S_def sorted_wrt_map)
  have shape: "\<exists>r' u' t' n'. target_ok r' u' t' \<and> fst e = data_key r' u' n' t'" if "e \<in> set S" for e
  proof -
    have "kv_get ?c (fst e) \<noteq> None" using that S by (cases e rule: prod.exhaust) auto
    then show ?thesis using account_wf_data [OF assms(1), of "fst e"] by metis
  qed
  have QP: "Q e \<longleftrightarrow> (\<exists>d. f e = Some d \<and> P d)" if e: "e \<in> set S" for e
  proof -
    obtain r' u' t' n' where t': "target_ok r' u' t'" "fst e = data_key r' u' n' t'" using shape [OF e] by blast
    have "utf8_valid t'" using t'(1) by (simp add: target_ok_def)
    have "Q e \<longleftrightarrow> r' = r \<and> u' = u \<and> up_to to n'"
      unfolding Q_def using t' data_key_inj [OF t'(1) ok] \<open>utf8_valid t'\<close> by (cases e rule: prod.exhaust) auto
    then show ?thesis
      unfolding f_def P_def using t' decode_data_key [OF t'(1), of ids n'] assms(3,4) by (cases e rule: prod.exhaust) auto
  qed
  have down: "Q a" if a: "a \<in> set S" and b: "Q b" and less: "fst a < fst b" for a b
  proof -
    obtain n t v where b': "b = (data_key r u n t, v)" "utf8_valid t" "up_to to n" using b by (auto simp: Q_def)
    obtain r' u' t' n' where t': "target_ok r' u' t'" "fst a = data_key r' u' n' t'" using shape [OF a] by blast
    have "r' = r \<and> u' = u \<and> n' \<le> n"
      using data_key_between [OF ok [OF b'(2)] t'(1), of since n' n] a S t'(2) less b'(1) by (cases a rule: prod.exhaust) auto
    moreover have "utf8_valid t'" using t'(1) by (simp add: target_ok_def)
    moreover from calculation have "up_to to n'" using b'(3) by (auto simp: up_to_def split: option.splits)
    ultimately show ?thesis using t'(2) unfolding Q_def by (metis prod.collapse)
  qed
  have cut: "takeWhile P (List.map_filter f S) = List.map_filter f (filter Q S)"
  proof (rule takeWhile_map_filter [OF sorted_S])
    show "Q a" if "a \<in> set S" "fst a < fst b" "Q b" for a b by (rule down [OF that(1,3,2)])
  qed (rule QP)
  let ?entries = "map (key_entry r u) (filter Q S)"
  have inj: "inj_on (key_entry r u) (Collect Q)"
    by (auto simp: inj_on_def Q_def key_entry)
  have "distinct S" using sorted_S by (induction S) auto
  then have "distinct ?entries"
    using inj_on_subset [OF inj, of "set (filter Q S)"] by (auto simp: distinct_map)
  moreover have "sorted (map fst ?entries)"
  proof -
    have "sorted_wrt (\<lambda>a b. fst a < fst b) (filter Q S)" using sorted_S by (simp add: sorted_wrt_filter)
    then have "sorted_wrt (\<lambda>a b. fst (key_entry r u a) \<le> fst (key_entry r u b)) (filter Q S)"
      by (rule sorted_wrt_mono_rel [rotated]) (auto simp: Q_def key_entry dest: data_key_less)
    then show ?thesis by (simp add: sorted_map sorted_wrt_map)
  qed
  moreover have "set ?entries = {(n, t, v). utf8_valid t \<and> kv_get ?c (data_key r u n t) = Some v \<and>
      start_count since \<le> n \<and> up_to to n}"
  proof -
    have "x \<in> set ?entries \<longleftrightarrow>
        (\<exists>n t v. x = (n, t, v) \<and> utf8_valid t \<and> up_to to n \<and> (data_key r u n t, v) \<in> set S)" for x
    proof
      assume "x \<in> set ?entries"
      then obtain e where "e \<in> set S" "Q e" "x = key_entry r u e" by auto
      then show "\<exists>n t v. x = (n, t, v) \<and> utf8_valid t \<and> up_to to n \<and> (data_key r u n t, v) \<in> set S"
        by (auto simp: Q_def key_entry)
    next
      assume "\<exists>n t v. x = (n, t, v) \<and> utf8_valid t \<and> up_to to n \<and> (data_key r u n t, v) \<in> set S"
      then obtain n t v where x: "x = (n, t, v)" "utf8_valid t" "up_to to n" "(data_key r u n t, v) \<in> set S" by blast
      then have "(data_key r u n t, v) \<in> set (filter Q S)" unfolding set_filter Q_def by blast
      moreover have "x = key_entry r u (data_key r u n t, v)" using x(1) by (simp add: key_entry)
      ultimately show "x \<in> set ?entries" by (metis image_eqI set_map)
    qed
    moreover have "(data_key r u n t, v) \<in> set S \<longleftrightarrow> start_count since \<le> n \<and> kv_get ?c (data_key r u n t) = Some v" for n t v
      unfolding S by (simp add: data_key_ge_first)
    ultimately show ?thesis by blast
  qed
  moreover have "changes_since ids parse db r u since to = List.map_filter (\<lambda>(_, _, v). parse r v) ?entries"
  proof -
    have "changes_since ids parse db r u since to =
        List.map_filter (\<lambda>(_, v). parse r v) (takeWhile P (List.map_filter f S))"
      by (simp add: changes_since_def S_def f_def P_def up_to_def)
    also have "\<dots> = List.map_filter (\<lambda>(_, v). parse r v) (List.map_filter f (filter Q S))" by (simp add: cut)
    also have "\<dots> = List.map_filter (\<lambda>(_, _, v). parse r v) (map (key_entry r u) (filter Q S))"
    proof (rule map_filter_values)
      fix e assume e: "e \<in> set (filter Q S)"
      then obtain d where "f e = Some d" using QP [of e] by (metis filter_is_subset mem_Collect_eq set_filter subsetD)
      then show "\<exists>d. f e = Some (d, snd e)" by (cases e) (auto simp: f_def)
    qed
    finally show ?thesis .
  qed
  ultimately show ?thesis by blast
qed

section \<open>Properties\<close>

text \<open>C35: storing account data. On columns that agree, with the counter not at its end, an update with
  the two required members succeeds; reading the same room, user and type gives the new text, every
  other entry is kept, and the columns still agree: one entry in the ordered column per room, user
  and type.\<close>

theorem account_update_correct:
  assumes "account_wf g db" "counter g < - 1" "target_ok r u t"
    and "json_get js data ''type'' \<noteq> None" "json_get js data ''content'' \<noteq> None"
  shows "\<exists>g' db'. account_update js (g, db) r u t data = ((g', db'), Inr ()) \<and> account_wf g' db' \<and>
    get_raw db' r u t = Some (json_text js data) \<and>
    (\<forall>r' u' t'. target_ok r' u' t' \<and> (r', u', t') \<noteq> (r, u, t) \<longrightarrow> get_raw db' r' u' t' = get_raw db r' u' t')"
  using account_update_wf [OF assms] by metis

definition demo_json :: "(string \<times> byte list) list json_ops" where
  "demo_json = \<lparr>json_get = (\<lambda>j k. map_option (\<lambda>v. [([], v)]) (map_of j k)), json_text = concat \<circ> map snd\<rparr>"

lemma account_wf_empty: "account_wf g \<lparr>roomuserdataid_accountdata = [], roomusertype_roomuserdataid = []\<rparr>"
  by (simp add: account_wf_def kv_get_def kv_sorted_def)

theorem account_update_correct_witness:
  "\<exists>g' db'. account_update demo_json (short_init, \<lparr>roomuserdataid_accountdata = [], roomusertype_roomuserdataid = []\<rparr>)
       None [64, 97] [109] [(''type'', [1]), (''content'', [2])] = ((g', db'), Inr ()) \<and>
     get_raw db' None [64, 97] [109] = Some [1, 2]"
proof -
  have "counter short_init < - 1" by (simp add: short_init_def word_neq_0_conv [symmetric])
  moreover have "target_ok None [64, 97] [109]" by (simp add: target_ok_def room_bytes_def byte_in_def)
  moreover have "json_get demo_json [(''type'', [1]), (''content'', [2])] ''type'' \<noteq> None"
    "json_get demo_json [(''type'', [1]), (''content'', [2])] ''content'' \<noteq> None"
    "json_text demo_json [(''type'', [1]), (''content'', [2])] = [1, 2]"
    by (simp_all add: demo_json_def)
  ultimately show ?thesis
    using account_update_correct [OF account_wf_empty, of short_init None "[64, 97]" "[109]" demo_json
        "[(''type'', [1]), (''content'', [2])]"] by metis
qed

text \<open>C36: what changed since a count. The answer is exactly the entries of this room and user whose count
  is above \<open>since\<close> and at most \<open>to\<close>, each once, in the order of their counts, without those whose text
  does not parse; entries of other rooms and users never end the scan early or slip in.\<close>

theorem changes_since_exact:
  assumes "account_wf g db" "target_ok r u []" "user_valid ids u" "\<forall>x. r = Some x \<longrightarrow> room_valid ids x"
    and "since \<noteq> Some (- 1)"
  shows "\<exists>entries. distinct entries \<and> sorted (map fst entries) \<and>
    set entries = {(n, t, v). utf8_valid t \<and> kv_get (roomuserdataid_accountdata db) (data_key r u n t) = Some v \<and>
      (\<forall>m. since = Some m \<longrightarrow> m < n) \<and> (\<forall>m. to = Some m \<longrightarrow> n \<le> m)} \<and>
    changes_since ids parse db r u since to = List.map_filter (\<lambda>(_, _, v). parse r v) entries"
proof -
  have "up_to to n \<longleftrightarrow> (\<forall>m. to = Some m \<longrightarrow> n \<le> m)" for n by (simp add: up_to_def split: option.split)
  then show ?thesis
    using changes_since_entries [OF assms(1-4), of since to parse] unfolding start_count_le [OF assms(5)] by simp
qed

lemma account_wf_single:
  assumes "target_ok r u t" "n \<le> counter g"
  shows "account_wf g \<lparr>roomuserdataid_accountdata = [(data_key r u n t, v)],
    roomusertype_roomuserdataid = [(index_key r u t, data_key r u n t)]\<rparr>"
  using assms by (auto simp: account_wf_def kv_get_def kv_sorted_def)

lemma distinct_set_single: "distinct xs \<Longrightarrow> set xs = {x} \<Longrightarrow> xs = [x]"
proof (cases xs)
  case (Cons y ys)
  moreover assume "distinct xs" "set xs = {x}"
  ultimately have "y = x" "set ys = {}" by (auto simp: subset_singleton_iff)
  with Cons show ?thesis by simp
qed simp

theorem changes_since_exact_witness:
  "changes_since \<lparr>user_valid = \<lambda>_. True, room_valid = \<lambda>_. True, server_valid = \<lambda>_. True, server_of = id\<rparr>
     (\<lambda>_. Some) \<lparr>roomuserdataid_accountdata = [(data_key (Some [33]) [64] 5 [109], [7])],
       roomusertype_roomuserdataid = [(index_key (Some [33]) [64] [109], data_key (Some [33]) [64] 5 [109])]\<rparr>
     (Some [33]) [64] (Some 3) None = [[7]]"
proof -
  let ?ids = "\<lparr>user_valid = \<lambda>_. True, room_valid = \<lambda>_. True, server_valid = \<lambda>_. True, server_of = id\<rparr>"
  let ?db = "\<lparr>roomuserdataid_accountdata = [(data_key (Some [33]) [64] 5 [109], [7 :: byte])],
       roomusertype_roomuserdataid = [(index_key (Some [33]) [64] [109], data_key (Some [33]) [64] 5 [109])]\<rparr>"
  have ok: "target_ok (Some [33]) [64] t \<longleftrightarrow> utf8_valid t" for t by (simp add: target_ok_def room_bytes_def byte_in_def)
  have m: "utf8_valid [109]" by (simp add: byte_in_def)
  have wf: "account_wf (short_init\<lparr>counter := 5\<rparr>) ?db" by (rule account_wf_single) (use ok [of "[109]"] m in simp_all)
  obtain entries where e: "distinct entries" "changes_since ?ids (\<lambda>_. Some) ?db (Some [33]) [64] (Some 3) None =
      List.map_filter (\<lambda>(_, _, v). Some v) entries"
    and set: "set entries = {(n, t, v). utf8_valid t \<and>
      kv_get [(data_key (Some [33]) [64] 5 [109], [7])] (data_key (Some [33]) [64] n t) = Some v \<and> 3 < n}"
    using changes_since_exact [OF wf, of "Some [33]" "[64]" ?ids "Some 3" None "\<lambda>_. Some"] ok by auto
  have "set entries = {(5, [109], [7])}"
    unfolding set using data_key_inj [of "Some [33]" "[64]"] ok m by (auto simp: kv_get_def split: if_splits)
  with e(1) have "entries = [(5, [109], [7])]"
    by (rule distinct_set_single)
  with e(2) show ?thesis by (simp add: map_filter_simps)
qed

end
