(* ===== verification/Set_Ops.thy ===== *)
theory Set_Ops
  imports Prelude
begin

text \<open>
  The set intersections of \<open>src/core/utils/set.rs\<close>. An iterator or stream is the list of what it still
  yields; iterators that are advanced inside a closure (\<open>iter_mut\<close>, the shared peekable stream) are
  threaded as state.
\<close>

section \<open>Unsorted inputs\<close>

definition intersection :: "'a list list \<Rightarrow> 'a list" where
  "intersection input =
     (case input of
        [] \<Rightarrow> []
      | first # others \<Rightarrow> filter (\<lambda>targ. list_all (\<lambda>other. targ \<in> set other) others) first)"

section \<open>Sorted iterators\<close>

text \<open>\<open>by_ref().skip_while(..).peekable().peek()\<close>: the element that is peeked has been taken from the
  iterator, whether or not it is the one looked for.\<close>

definition advance_to :: "'a :: linorder \<Rightarrow> 'a list \<Rightarrow> 'a list \<times> bool" where
  "advance_to targ it =
     (case dropWhile (\<lambda>x. x < targ) it of [] \<Rightarrow> ([], False) | x # rest \<Rightarrow> (rest, x = targ))"

fun all_advance :: "'a :: linorder \<Rightarrow> 'a list list \<Rightarrow> 'a list list \<times> bool" where
  "all_advance targ [] = ([], True)"
| "all_advance targ (it # its) =
     (case advance_to targ it of
        (it, False) \<Rightarrow> (it # its, False)
      | (it, True) \<Rightarrow> (case all_advance targ its of (its, r) \<Rightarrow> (it # its, r)))"

fun filter_sorted :: "'a :: linorder list \<Rightarrow> 'a list list \<Rightarrow> 'a list" where
  "filter_sorted [] its = []"
| "filter_sorted (targ # first) its =
     (case all_advance targ its of
        (its, r) \<Rightarrow> if r then targ # filter_sorted first its else filter_sorted first its)"

definition intersection_sorted :: "'a :: linorder list list \<Rightarrow> 'a list" where
  "intersection_sorted input = (case input of [] \<Rightarrow> [] | first # others \<Rightarrow> filter_sorted first others)"

section \<open>Sorted streams\<close>

fun scan_le :: "'a :: linorder \<Rightarrow> 'a list \<Rightarrow> 'a list \<times> bool" where
  "scan_le ai [] = ([], False)"
| "scan_le ai (bi # b) =
     (if bi \<le> ai then (if ai = bi then (b, True) else scan_le ai b) else (bi # b, False))"

fun intersection_sorted_stream2 :: "'a :: linorder list \<Rightarrow> 'a list \<Rightarrow> 'a list" where
  "intersection_sorted_stream2 [] b = []"
| "intersection_sorted_stream2 (ai # a) b =
     (case scan_le ai b of
        (b, hit) \<Rightarrow> if hit then ai # intersection_sorted_stream2 a b else intersection_sorted_stream2 a b)"

section \<open>Correctness\<close>

lemma intersection_set: "input \<noteq> [] \<Longrightarrow> set (intersection input) = \<Inter> (set ` set input)"
  by (cases input) (auto simp: intersection_def list_all_iff)

lemma scan_le_sorted:
  "sorted_wrt (<) b \<Longrightarrow> scan_le ai b = (filter (\<lambda>x. ai < x) b, ai \<in> set b)"
proof (induction b)
  case (Cons bi b)
  then have "filter (\<lambda>x. ai < x) b = b" if "ai \<le> bi" using that by (auto simp: filter_id_conv)
  with Cons show ?case by auto
qed simp

lemma intersection_sorted_stream2_filter:
  "sorted_wrt (<) a \<Longrightarrow> sorted_wrt (<) b \<Longrightarrow> intersection_sorted_stream2 a b = filter (\<lambda>x. x \<in> set b) a"
proof (induction a arbitrary: b)
  case (Cons ai a)
  have "sorted_wrt (<) (filter (\<lambda>x. ai < x) b)" using Cons.prems(2) by (simp add: sorted_wrt_filter)
  moreover have "filter (\<lambda>x. x \<in> set (filter (\<lambda>x. ai < x) b)) a = filter (\<lambda>x. x \<in> set b) a"
    using Cons.prems(1) by (auto intro: filter_cong)
  ultimately show ?case using Cons.IH [of "filter (\<lambda>x. ai < x) b"] Cons.prems by (simp add: scan_le_sorted)
qed simp

text \<open>The iterator version yields only common elements, but loses some: an element greater than the one
  looked for is taken from the other iterator and never compared again.\<close>

lemma all_advance_common:
  "all_advance targ its = (its', r) \<Longrightarrow>
     (r \<longrightarrow> list_all (\<lambda>it. targ \<in> set it) its) \<and> list_all2 (\<lambda>it' it. set it' \<subseteq> set it) its' its"
proof (induction its arbitrary: its' r)
  case (Cons it its)
  have "snd (advance_to targ it) \<longrightarrow> targ \<in> set it" "set (fst (advance_to targ it)) \<subseteq> set it"
    by (auto simp: advance_to_def split: list.splits dest!: arg_cong [of "dropWhile _ _" _ set] dest: set_dropWhileD)
  with Cons show ?case
    by (auto split: prod.splits bool.splits simp: list.rel_refl)
qed simp

lemma filter_sorted_common: "x \<in> set (filter_sorted first its) \<Longrightarrow> x \<in> set first \<and> list_all (\<lambda>it. x \<in> set it) its"
proof (induction first its rule: filter_sorted.induct)
  case (2 targ first its)
  obtain its' r where a: "all_advance targ its = (its', r)" by fastforce
  from all_advance_common [OF this]
  have common: "r \<longrightarrow> list_all (\<lambda>it. targ \<in> set it) its" "list_all2 (\<lambda>it' it. set it' \<subseteq> set it) its' its" by auto
  have "list_all (\<lambda>it. x \<in> set it) its" if "list_all (\<lambda>it. x \<in> set it) its'"
    using common(2) that by (induction rule: list_all2_induct) auto
  with 2 a common(1) show ?case by (auto split: if_splits)
qed simp

lemma intersection_sorted_loses: "intersection_sorted [[1, 2], [2 :: nat]] = [] \<and> intersection [[1, 2], [2 :: nat]] = [2]"
  by (simp add: intersection_sorted_def intersection_def advance_to_def)

end
