(* ===== verification/Invite_Filter.thy ===== *)
theory Invite_Filter
  imports Account_Data
begin

text \<open>
  Whose invites a user accepts: the configuration of \<open>src/ruminuwuity/invite_permission_config.rs\<close> and
  \<open>user_is_ignored\<close> and \<open>invite_filter_level\<close> of \<open>src/service/users/account.rs\<close>. The glob matcher
  \<open>WildMatch\<close>, the server and host of an id and the decoding of the account data events belong to
  other crates and are parameters.
\<close>

section \<open>Configuration\<close>

datatype filter_level = FAllow | FIgnore | FBlock

datatype permission_action = ActionBlock | ActionOther "byte list"

record invite_config =
  ic_enabled :: bool
  ic_default_action :: "permission_action option"
  ic_allowed_users :: "byte list list"
  ic_ignored_users :: "byte list list"
  ic_blocked_users :: "byte list list"
  ic_allowed_servers :: "byte list list"
  ic_ignored_servers :: "byte list list"
  ic_blocked_servers :: "byte list list"

record glob_ops =
  wild_matches :: "byte list \<Rightarrow> byte list \<Rightarrow> bool"
  host_of :: "byte list \<Rightarrow> byte list"

definition are_all_blocked :: "invite_config \<Rightarrow> bool" where
  "are_all_blocked c = (ic_default_action c = Some ActionBlock)"

definition glob_matches :: "glob_ops \<Rightarrow> byte list list \<Rightarrow> byte list \<Rightarrow> bool" where
  "glob_matches gl a s = list_ex (\<lambda>a. wild_matches gl a s) a"

definition server_filter_level :: "glob_ops \<Rightarrow> invite_config \<Rightarrow> byte list \<Rightarrow> filter_level" where
  "server_filter_level gl c server =
     (if are_all_blocked c then FBlock
      else if \<not> ic_enabled c then FAllow
      else
        (let server = host_of gl server in
         if glob_matches gl (ic_allowed_servers c) server then FAllow
         else if glob_matches gl (ic_ignored_servers c) server then FIgnore
         else if glob_matches gl (ic_blocked_servers c) server then FBlock
         else FAllow))"

definition user_filter_level :: "ruma_ids \<Rightarrow> glob_ops \<Rightarrow> invite_config \<Rightarrow> ident \<Rightarrow> filter_level" where
  "user_filter_level ids gl c user =
     (if are_all_blocked c then FBlock
      else if \<not> ic_enabled c then FAllow
      else if glob_matches gl (ic_allowed_users c) user then FAllow
      else if glob_matches gl (ic_ignored_users c) user then FIgnore
      else if glob_matches gl (ic_blocked_users c) user then FBlock
      else server_filter_level gl c (server_of ids user))"

section \<open>The filter of a recipient\<close>

record account_parsers =
  parse_ignored :: "byte list \<Rightarrow> ident list option"
  parse_invite_config :: "byte list \<Rightarrow> invite_config option"
  ignored_kind :: "byte list"
  invite_config_kind :: "byte list"
  unstable_invite_config_kind :: "byte list"

definition user_is_ignored :: "account_parsers \<Rightarrow> account_db \<Rightarrow> ident \<Rightarrow> ident \<Rightarrow> bool" where
  "user_is_ignored ap db sender_user recipient_user =
     (case get_global (parse_ignored ap) db recipient_user (ignored_kind ap) of
        None \<Rightarrow> False
      | Some ignored_users \<Rightarrow> list_ex (\<lambda>blocked_user. blocked_user = sender_user) ignored_users)"

definition invite_filter_level ::
    "ruma_ids \<Rightarrow> glob_ops \<Rightarrow> account_parsers \<Rightarrow> account_db \<Rightarrow> ident \<Rightarrow> ident \<Rightarrow> filter_level" where
  "invite_filter_level ids gl ap db sender_user recipient_user =
     (if user_is_ignored ap db sender_user recipient_user then FIgnore
      else
        (let stable = get_global (parse_invite_config ap) db recipient_user (invite_config_kind ap);
             unstable = get_global (parse_invite_config ap) db recipient_user (unstable_invite_config_kind ap)
         in case (stable, unstable) of
              (None, None) \<Rightarrow> FAllow
            | (Some c, _) \<Rightarrow> user_filter_level ids gl c sender_user
            | (None, Some c) \<Rightarrow> user_filter_level ids gl c sender_user))"

section \<open>Which invites are blocked\<close>

lemma user_filter_level_block:
  "user_filter_level ids gl c user = FBlock \<longleftrightarrow>
     are_all_blocked c \<or>
     ic_enabled c \<and> \<not> glob_matches gl (ic_allowed_users c) user \<and> \<not> glob_matches gl (ic_ignored_users c) user \<and>
     (glob_matches gl (ic_blocked_users c) user \<or>
      \<not> glob_matches gl (ic_allowed_servers c) (host_of gl (server_of ids user)) \<and>
      \<not> glob_matches gl (ic_ignored_servers c) (host_of gl (server_of ids user)) \<and>
      glob_matches gl (ic_blocked_servers c) (host_of gl (server_of ids user)))"
  by (auto simp: user_filter_level_def server_filter_level_def Let_def)

lemma ignored_never_blocked:
  "user_is_ignored ap db sender recipient \<Longrightarrow> invite_filter_level ids gl ap db sender recipient \<noteq> FBlock"
  by (simp add: invite_filter_level_def)

end
