(* ===== verification/State_Cache.thy ===== *)
theory State_Cache
  imports Invite_Filter Set_Ops
begin

text \<open>
  Who is in which room: the membership tables of \<open>src/service/rooms/state_cache\<close> (\<open>mod.rs\<close>,
  \<open>update.rs\<close>, \<open>via.rs\<close>). Each membership is kept in a table by user and in one by room, both keyed
  by the records of \<^theory_text>\<open>Records\<close>; the tables are ordered columns of \<^theory_text>\<open>Kv_Map\<close>. The
  state also holds what the operations change elsewhere: the counter, account data, remote users and
  the banned and disabled rooms of \<open>src/service/rooms/metadata/mod.rs\<close>. Events and stripped states
  are stored as the JSON text they are given as; the crate \<open>ruma\<close> decides which ids are valid and what
  the server of a user is.
\<close>

section \<open>State\<close>

record cache_state =
  cs_globals :: short_state
  cs_account :: account_db
  remoteuserid_remoteuser :: "unit column"
  bannedroomids :: "unit column"
  disabledroomids :: "unit column"
  roomid_invitedcount :: "u64 column"
  roomid_inviteviaservers :: "byte list column"
  roomid_joinedcount :: "u64 column"
  roomserverids :: "unit column"
  roomuserid_invitecount :: "u64 column"
  roomuserid_joined :: "unit column"
  roomuserid_leftcount :: "u64 column"
  roomuserid_knockedcount :: "u64 column"
  roomuseroncejoinedids :: "unit column"
  serverroomids :: "unit column"
  userroomid_invitestate :: "byte list column"
  userroomid_joined :: "unit column"
  userroomid_leftstate :: "byte list column"
  userroomid_knockedstate :: "byte list column"
  userroomid_invitesender :: "byte list column"
  appservice_in_room_cache :: "ident \<rightharpoonup> (byte list \<rightharpoonup> bool)"

record cache_env =
  ce_ids :: ruma_ids
  ce_globs :: glob_ops
  ce_parsers :: account_parsers
  ce_server_name :: ident
  forget_forced_upon_leave :: bool

datatype cache_error = BadContent | InviteBlocked | AccountError account_error | NotFound | ServerPanic

definition user_is_local :: "cache_env \<Rightarrow> ident \<Rightarrow> bool" where
  "user_is_local env user_id = (server_of (ce_ids env) user_id = ce_server_name env)"

definition pair_key :: "ident \<Rightarrow> ident \<Rightarrow> key" where
  "pair_key a b = key_of (VTuple [VStr a, VStr b])"

definition prefix_key :: "ident \<Rightarrow> key" where
  "prefix_key a = key_of (VTuple [VStr a, VInterfix])"

text \<open>Reading a key as \<open>(Ignore, Id)\<close>.\<close>

definition second_id :: "(ident \<Rightarrow> bool) \<Rightarrow> key \<Rightarrow> ident option" where
  "second_id valid k =
     (case from_slice (TTuple [TIgnore, TStr]) k of
        Inr (VTuple [_, VStr x]) \<Rightarrow> if valid x then Some x else None
      | _ \<Rightarrow> None)"

definition second_ids :: "(ident \<Rightarrow> bool) \<Rightarrow> 'v column \<Rightarrow> key \<Rightarrow> ident list" where
  "second_ids valid c p = List.map_filter (second_id valid) (kv_keys_prefix c p)"

definition present :: "'v column \<Rightarrow> ident \<Rightarrow> ident \<Rightarrow> bool" where
  "present c a b = (kv_get c (pair_key a b) \<noteq> None)"

section \<open>Rooms the server has closed\<close>

definition ban_room :: "cache_state \<Rightarrow> ident \<Rightarrow> bool \<Rightarrow> cache_state" where
  "ban_room s room_id banned =
     s\<lparr>bannedroomids := (if banned then kv_insert room_id () (bannedroomids s) else kv_remove room_id (bannedroomids s))\<rparr>"

definition disable_room :: "cache_state \<Rightarrow> ident \<Rightarrow> bool \<Rightarrow> cache_state" where
  "disable_room s room_id disabled =
     s\<lparr>disabledroomids :=
         (if disabled then kv_insert room_id () (disabledroomids s) else kv_remove room_id (disabledroomids s))\<rparr>"

definition is_banned :: "cache_state \<Rightarrow> ident \<Rightarrow> bool" where
  "is_banned s room_id = (kv_get (bannedroomids s) room_id \<noteq> None)"

definition is_disabled :: "cache_state \<Rightarrow> ident \<Rightarrow> bool" where
  "is_disabled s room_id = (kv_get (disabledroomids s) room_id \<noteq> None)"

definition record_remote_user :: "cache_state \<Rightarrow> ident \<Rightarrow> cache_state" where
  "record_remote_user s user_id =
     s\<lparr>remoteuserid_remoteuser := kv_insert user_id () (remoteuserid_remoteuser s)\<rparr>"

section \<open>Looking memberships up\<close>

definition room_servers :: "cache_env \<Rightarrow> cache_state \<Rightarrow> ident \<Rightarrow> ident list" where
  "room_servers env s room_id = second_ids (server_valid (ce_ids env)) (roomserverids s) (prefix_key room_id)"

definition server_in_room :: "cache_state \<Rightarrow> ident \<Rightarrow> ident \<Rightarrow> bool" where
  "server_in_room s server room_id = present (serverroomids s) server room_id"

definition server_rooms :: "cache_env \<Rightarrow> cache_state \<Rightarrow> ident \<Rightarrow> ident list" where
  "server_rooms env s server = second_ids (room_valid (ce_ids env)) (serverroomids s) (prefix_key server)"

definition room_members :: "cache_env \<Rightarrow> cache_state \<Rightarrow> ident \<Rightarrow> ident list" where
  "room_members env s room_id = second_ids (user_valid (ce_ids env)) (roomuserid_joined s) (prefix_key room_id)"

definition room_members_invited :: "cache_env \<Rightarrow> cache_state \<Rightarrow> ident \<Rightarrow> ident list" where
  "room_members_invited env s room_id =
     second_ids (user_valid (ce_ids env)) (roomuserid_invitecount s) (prefix_key room_id)"

definition room_members_knocked :: "cache_env \<Rightarrow> cache_state \<Rightarrow> ident \<Rightarrow> ident list" where
  "room_members_knocked env s room_id =
     second_ids (user_valid (ce_ids env)) (roomuserid_knockedcount s) (prefix_key room_id)"

definition room_useroncejoined :: "cache_env \<Rightarrow> cache_state \<Rightarrow> ident \<Rightarrow> ident list" where
  "room_useroncejoined env s room_id =
     second_ids (user_valid (ce_ids env)) (roomuseroncejoinedids s) (prefix_key room_id)"

definition local_users_in_room :: "cache_env \<Rightarrow> cache_state \<Rightarrow> ident \<Rightarrow> ident list" where
  "local_users_in_room env s room_id = filter (user_is_local env) (room_members env s room_id)"

definition active_local_users_in_room :: "(ident \<Rightarrow> bool) \<Rightarrow> cache_env \<Rightarrow> cache_state \<Rightarrow> ident \<Rightarrow> ident list" where
  "active_local_users_in_room is_active env s room_id = filter is_active (local_users_in_room env s room_id)"

definition rooms_joined :: "cache_env \<Rightarrow> cache_state \<Rightarrow> ident \<Rightarrow> ident list" where
  "rooms_joined env s user_id = second_ids (room_valid (ce_ids env)) (userroomid_joined s) user_id"

definition get_shared_rooms :: "cache_env \<Rightarrow> cache_state \<Rightarrow> ident \<Rightarrow> ident \<Rightarrow> ident list" where
  "get_shared_rooms env s user_a user_b =
     intersection_sorted_stream2 (rooms_joined env s user_a) (rooms_joined env s user_b)"

definition user_sees_user :: "cache_env \<Rightarrow> cache_state \<Rightarrow> ident \<Rightarrow> ident \<Rightarrow> bool" where
  "user_sees_user env s user_a user_b = (get_shared_rooms env s user_a user_b \<noteq> [])"

definition room_joined_count :: "cache_state \<Rightarrow> ident \<Rightarrow> u64 option" where
  "room_joined_count s room_id = kv_get (roomid_joinedcount s) room_id"

definition room_invited_count :: "cache_state \<Rightarrow> ident \<Rightarrow> u64 option" where
  "room_invited_count s room_id = kv_get (roomid_invitedcount s) room_id"

definition get_invite_count :: "cache_state \<Rightarrow> ident \<Rightarrow> ident \<Rightarrow> u64 option" where
  "get_invite_count s room_id user_id = kv_get (roomuserid_invitecount s) (pair_key room_id user_id)"

definition get_knock_count :: "cache_state \<Rightarrow> ident \<Rightarrow> ident \<Rightarrow> u64 option" where
  "get_knock_count s room_id user_id = kv_get (roomuserid_knockedcount s) (pair_key room_id user_id)"

definition get_left_count :: "cache_state \<Rightarrow> ident \<Rightarrow> ident \<Rightarrow> u64 option" where
  "get_left_count s room_id user_id = kv_get (roomuserid_leftcount s) (pair_key room_id user_id)"

definition invite_state :: "(byte list \<Rightarrow> 'e option) \<Rightarrow> cache_state \<Rightarrow> ident \<Rightarrow> ident \<Rightarrow> 'e option" where
  "invite_state parse s user_id room_id =
     Option.bind (kv_get (userroomid_invitestate s) (pair_key user_id room_id)) parse"

definition knock_state :: "(byte list \<Rightarrow> 'e option) \<Rightarrow> cache_state \<Rightarrow> ident \<Rightarrow> ident \<Rightarrow> 'e option" where
  "knock_state parse s user_id room_id =
     Option.bind (kv_get (userroomid_knockedstate s) (pair_key user_id room_id)) parse"

definition left_state :: "(byte list \<Rightarrow> 'e option) \<Rightarrow> cache_state \<Rightarrow> ident \<Rightarrow> ident \<Rightarrow> 'e option" where
  "left_state parse s user_id room_id =
     Option.bind (kv_get (userroomid_leftstate s) (pair_key user_id room_id)) parse"

definition invite_sender :: "cache_state \<Rightarrow> ident \<Rightarrow> ident \<Rightarrow> ident option" where
  "invite_sender s user_id room_id = kv_get (userroomid_invitesender s) (pair_key user_id room_id)"

definition once_joined :: "cache_state \<Rightarrow> ident \<Rightarrow> ident \<Rightarrow> bool" where
  "once_joined s user_id room_id = present (roomuseroncejoinedids s) user_id room_id"

definition is_joined :: "cache_state \<Rightarrow> ident \<Rightarrow> ident \<Rightarrow> bool" where
  "is_joined s user_id room_id = present (userroomid_joined s) user_id room_id"

definition is_knocked :: "cache_state \<Rightarrow> ident \<Rightarrow> ident \<Rightarrow> bool" where
  "is_knocked s user_id room_id = present (userroomid_knockedstate s) user_id room_id"

definition is_invited :: "cache_state \<Rightarrow> ident \<Rightarrow> ident \<Rightarrow> bool" where
  "is_invited s user_id room_id = present (userroomid_invitestate s) user_id room_id"

definition is_left :: "cache_state \<Rightarrow> ident \<Rightarrow> ident \<Rightarrow> bool" where
  "is_left s user_id room_id = present (userroomid_leftstate s) user_id room_id"

definition server_sees_user :: "cache_env \<Rightarrow> cache_state \<Rightarrow> ident \<Rightarrow> ident \<Rightarrow> bool" where
  "server_sees_user env s server user_id =
     list_ex (\<lambda>room_id. is_joined s user_id room_id) (server_rooms env s server)"

datatype membership_state = MJoin | MLeave | MKnock | MInvite | MBan

definition user_membership :: "cache_state \<Rightarrow> ident \<Rightarrow> ident \<Rightarrow> membership_state option" where
  "user_membership s user_id room_id =
     (if is_joined s user_id room_id then Some MJoin
      else if is_left s user_id room_id then Some MLeave
      else if is_knocked s user_id room_id then Some MKnock
      else if is_invited s user_id room_id then Some MInvite
      else if once_joined s user_id room_id then Some MBan
      else None)"

text \<open>The entries of one user in a table by user, with what is stored for them.\<close>

definition pair_ids :: "(ident \<Rightarrow> bool) \<Rightarrow> (ident \<Rightarrow> bool) \<Rightarrow> key \<Rightarrow> ident option" where
  "pair_ids valid_a valid_b k =
     (case from_slice (TTuple [TStr, TStr]) k of
        Inr (VTuple [VStr a, VStr b]) \<Rightarrow> if valid_a a \<and> valid_b b then Some b else None
      | _ \<Rightarrow> None)"

definition rooms_with :: "cache_env \<Rightarrow> (byte list \<Rightarrow> 'e option) \<Rightarrow> byte list column \<Rightarrow> ident \<Rightarrow> (ident \<times> 'e) list" where
  "rooms_with env parse c user_id =
     List.map_filter (\<lambda>(k, v).
         Option.bind (pair_ids (user_valid (ce_ids env)) (room_valid (ce_ids env)) k) (\<lambda>room_id.
           map_option (\<lambda>state. (room_id, state)) (parse v)))
       (kv_stream_prefix c (prefix_key user_id))"

definition rooms_invited :: "cache_env \<Rightarrow> (byte list \<Rightarrow> 'e option) \<Rightarrow> cache_state \<Rightarrow> ident \<Rightarrow> (ident \<times> 'e) list" where
  "rooms_invited env parse s user_id = rooms_with env parse (userroomid_invitestate s) user_id"

definition rooms_knocked :: "cache_env \<Rightarrow> (byte list \<Rightarrow> 'e option) \<Rightarrow> cache_state \<Rightarrow> ident \<Rightarrow> (ident \<times> 'e) list" where
  "rooms_knocked env parse s user_id = rooms_with env parse (userroomid_knockedstate s) user_id"

definition rooms_left :: "cache_env \<Rightarrow> (byte list \<Rightarrow> 'e option) \<Rightarrow> cache_state \<Rightarrow> ident \<Rightarrow> (ident \<times> 'e) list" where
  "rooms_left env parse s user_id = rooms_with env parse (userroomid_leftstate s) user_id"

section \<open>Servers to reach a room through\<close>

definition decode_servers :: "ruma_ids \<Rightarrow> byte list \<Rightarrow> ident list option" where
  "decode_servers ids v =
     (case from_slice (TSeq TStr) v of
        Inr (VSeq vs) \<Rightarrow>
          those (map (\<lambda>v. case v of VStr x \<Rightarrow> if server_valid ids x then Some x else None | _ \<Rightarrow> None) vs)
      | _ \<Rightarrow> None)"

text \<open>The last server of each row whose key begins with the room id; an empty row panics.\<close>

definition servers_invite_via :: "cache_env \<Rightarrow> cache_state \<Rightarrow> ident \<Rightarrow> cache_error + ident list" where
  "servers_invite_via env s room_id =
     (let rows = List.map_filter (\<lambda>(_, v). decode_servers (ce_ids env) v)
                   (kv_stream_prefix (roomid_inviteviaservers s) room_id)
      in if [] \<in> set rows then Inl ServerPanic else Inr (map last rows))"

definition add_servers_invite_via ::
    "cache_env \<Rightarrow> cache_state \<Rightarrow> ident \<Rightarrow> ident list \<Rightarrow> cache_error + cache_state" where
  "add_servers_invite_via env s room_id servers =
     res_bind (servers_invite_via env s room_id) (\<lambda>known.
       let servers = sorted_list_of_set (set (known @ servers));
           row = (case servers of [] \<Rightarrow> [] | first # rest \<Rightarrow> first @ concat (map (\<lambda>x. SEP # x) rest))
       in Inr (s\<lparr>roomid_inviteviaservers := kv_insert room_id row (roomid_inviteviaservers s)\<rparr>))"

text \<open>The servers of a room by number of joined users, most first, after the server of the most powerful
  user if it has the power of a moderator. Of several most powerful users \<open>max_by_key\<close> takes the last
  in the order of the map; the grouping comes in the order of a hash map.\<close>

definition most_powerful :: "(ident \<times> int) list \<Rightarrow> (ident \<times> int) option" where
  "most_powerful users =
     foldl (\<lambda>best u. case best of None \<Rightarrow> Some u | Some b \<Rightarrow> if snd b \<le> snd u then Some u else Some b) None users"

definition servers_route_via ::
    "cache_env \<Rightarrow> ((ident \<times> nat) list \<Rightarrow> (ident \<times> nat) list) \<Rightarrow> cache_state \<Rightarrow> ident \<Rightarrow>
     (ident \<times> int) list option \<Rightarrow> ident list" where
  "servers_route_via env shuffle s room_id power_users =
     (let most_powerful_user_server =
            Option.bind power_users (\<lambda>users.
              Option.bind (most_powerful users) (\<lambda>(user, power).
                if 50 \<le> power then Some (server_of (ce_ids env) user) else None));
          member_servers = map (server_of (ce_ids env)) (room_members env s room_id);
          counted = shuffle (map (\<lambda>server. (server, count_list member_servers server)) (remdups member_servers));
          servers = take 5 (rev (map fst (sort_key snd counted)))
      in case most_powerful_user_server of
           Some server \<Rightarrow> take 5 (server # servers)
         | None \<Rightarrow> servers)"

section \<open>Changing memberships\<close>

definition mark_as_joined :: "cache_state \<Rightarrow> ident \<Rightarrow> ident \<Rightarrow> cache_state" where
  "mark_as_joined s user_id room_id =
     (let userroom_id = pair_key user_id room_id; roomuser_id = pair_key room_id user_id in
      s\<lparr>userroomid_joined := kv_insert userroom_id () (userroomid_joined s),
        roomuserid_joined := kv_insert roomuser_id () (roomuserid_joined s),
        userroomid_invitestate := kv_remove userroom_id (userroomid_invitestate s),
        roomuserid_invitecount := kv_remove roomuser_id (roomuserid_invitecount s),
        userroomid_invitesender := kv_remove userroom_id (userroomid_invitesender s),
        userroomid_leftstate := kv_remove userroom_id (userroomid_leftstate s),
        roomuserid_leftcount := kv_remove roomuser_id (roomuserid_leftcount s),
        userroomid_knockedstate := kv_remove userroom_id (userroomid_knockedstate s),
        roomuserid_knockedcount := kv_remove roomuser_id (roomuserid_knockedcount s),
        roomid_inviteviaservers := kv_remove room_id (roomid_inviteviaservers s)\<rparr>)"

definition forget :: "cache_state \<Rightarrow> ident \<Rightarrow> ident \<Rightarrow> cache_state" where
  "forget s room_id user_id =
     s\<lparr>userroomid_leftstate := kv_remove (pair_key user_id room_id) (userroomid_leftstate s),
       roomuserid_leftcount := kv_remove (pair_key room_id user_id) (roomuserid_leftcount s)\<rparr>"

definition mark_as_left :: "cache_env \<Rightarrow> cache_state \<Rightarrow> ident \<Rightarrow> ident \<Rightarrow> byte list \<Rightarrow> cache_state" where
  "mark_as_left env s user_id room_id leave_pdu =
     (let userroom_id = pair_key user_id room_id; roomuser_id = pair_key room_id user_id;
          (n, globals) = next_count (cs_globals s);
          s = s\<lparr>cs_globals := globals,
                userroomid_leftstate := kv_insert userroom_id leave_pdu (userroomid_leftstate s),
                roomuserid_leftcount := kv_insert roomuser_id n (roomuserid_leftcount s),
                userroomid_joined := kv_remove userroom_id (userroomid_joined s),
                roomuserid_joined := kv_remove roomuser_id (roomuserid_joined s),
                userroomid_invitestate := kv_remove userroom_id (userroomid_invitestate s),
                roomuserid_invitecount := kv_remove roomuser_id (roomuserid_invitecount s),
                userroomid_invitesender := kv_remove userroom_id (userroomid_invitesender s),
                userroomid_knockedstate := kv_remove userroom_id (userroomid_knockedstate s),
                roomuserid_knockedcount := kv_remove roomuser_id (roomuserid_knockedcount s),
                roomid_inviteviaservers := kv_remove room_id (roomid_inviteviaservers s)\<rparr>
      in if user_is_local env user_id \<and>
            (forget_forced_upon_leave env \<or> is_banned s room_id \<or> is_disabled s room_id)
         then forget s room_id user_id else s)"

definition mark_as_knocked :: "cache_state \<Rightarrow> ident \<Rightarrow> ident \<Rightarrow> byte list \<Rightarrow> cache_state" where
  "mark_as_knocked s user_id room_id knocked_state =
     (let userroom_id = pair_key user_id room_id; roomuser_id = pair_key room_id user_id;
          (n, globals) = next_count (cs_globals s)
      in s\<lparr>cs_globals := globals,
           userroomid_knockedstate := kv_insert userroom_id knocked_state (userroomid_knockedstate s),
           roomuserid_knockedcount := kv_insert roomuser_id n (roomuserid_knockedcount s),
           userroomid_joined := kv_remove userroom_id (userroomid_joined s),
           roomuserid_joined := kv_remove roomuser_id (roomuserid_joined s),
           userroomid_invitestate := kv_remove userroom_id (userroomid_invitestate s),
           roomuserid_invitecount := kv_remove roomuser_id (roomuserid_invitecount s),
           userroomid_invitesender := kv_remove userroom_id (userroomid_invitesender s),
           userroomid_leftstate := kv_remove userroom_id (userroomid_leftstate s),
           roomuserid_leftcount := kv_remove roomuser_id (roomuserid_leftcount s),
           roomid_inviteviaservers := kv_remove room_id (roomid_inviteviaservers s)\<rparr>)"

definition mark_as_once_joined :: "cache_state \<Rightarrow> ident \<Rightarrow> ident \<Rightarrow> cache_state" where
  "mark_as_once_joined s user_id room_id =
     s\<lparr>roomuseroncejoinedids := kv_insert (pair_key user_id room_id) () (roomuseroncejoinedids s)\<rparr>"

definition mark_as_invited ::
    "cache_env \<Rightarrow> cache_state \<Rightarrow> ident \<Rightarrow> ident \<Rightarrow> ident \<Rightarrow> byte list \<Rightarrow> ident list option \<Rightarrow>
     cache_state \<times> (cache_error + unit)" where
  "mark_as_invited env s user_id room_id sender_user last_state invite_via =
     (if invite_filter_level (ce_ids env) (ce_globs env) (ce_parsers env) (cs_account s) sender_user user_id = FBlock
      then (s, Inl InviteBlocked)
      else
        (let userroom_id = pair_key user_id room_id; roomuser_id = pair_key room_id user_id;
             (n, globals) = next_count (cs_globals s);
             s = s\<lparr>cs_globals := globals,
                   userroomid_invitestate := kv_insert userroom_id last_state (userroomid_invitestate s),
                   roomuserid_invitecount := kv_insert roomuser_id n (roomuserid_invitecount s),
                   userroomid_invitesender := kv_insert userroom_id sender_user (userroomid_invitesender s),
                   userroomid_joined := kv_remove userroom_id (userroomid_joined s),
                   roomuserid_joined := kv_remove roomuser_id (roomuserid_joined s),
                   userroomid_leftstate := kv_remove userroom_id (userroomid_leftstate s),
                   roomuserid_leftcount := kv_remove roomuser_id (roomuserid_leftcount s),
                   userroomid_knockedstate := kv_remove userroom_id (userroomid_knockedstate s),
                   roomuserid_knockedcount := kv_remove roomuser_id (roomuserid_knockedcount s)\<rparr>
         in case invite_via of
              None \<Rightarrow> (s, Inr ())
            | Some [] \<Rightarrow> (s, Inr ())
            | Some servers \<Rightarrow>
                (case add_servers_invite_via env s room_id servers of
                   Inl e \<Rightarrow> (s, Inl e)
                 | Inr s \<Rightarrow> (s, Inr ()))))"

section \<open>Counting the members of a room\<close>

definition add_server :: "ident list \<Rightarrow> ident \<Rightarrow> ident list" where
  "add_server servers x = (if x \<in> set servers then servers else servers @ [x])"

definition drop_old_server ::
    "ident \<Rightarrow> cache_state \<times> ident list \<Rightarrow> ident \<Rightarrow> cache_state \<times> ident list" where
  "drop_old_server room_id acc old_joined_server =
     (case acc of (s, joined_servers) \<Rightarrow>
       if old_joined_server \<in> set joined_servers then (s, removeAll old_joined_server joined_servers)
       else (s\<lparr>roomserverids := kv_remove (pair_key room_id old_joined_server) (roomserverids s),
               serverroomids := kv_remove (pair_key old_joined_server room_id) (serverroomids s)\<rparr>, joined_servers))"

definition add_new_server :: "ident \<Rightarrow> cache_state \<Rightarrow> ident \<Rightarrow> cache_state" where
  "add_new_server room_id s server =
     s\<lparr>roomserverids := kv_insert (pair_key room_id server) () (roomserverids s),
       serverroomids := kv_insert (pair_key server room_id) () (serverroomids s)\<rparr>"

definition update_joined_count :: "cache_env \<Rightarrow> cache_state \<Rightarrow> ident \<Rightarrow> cache_state" where
  "update_joined_count env s room_id =
     (let members = room_members env s room_id;
          joined_servers = foldl add_server [] (map (server_of (ce_ids env)) members);
          joinedcount = foldl (\<lambda>n _. saturating_add_u64 n 1) 0 members;
          invitedcount = saturating_add_u64 0 (of_nat (length (room_members_invited env s room_id)));
          knockedcount = saturating_add_u64 0 (of_nat (length (room_members_knocked env s room_id)));
          s = s\<lparr>roomid_joinedcount := kv_insert room_id joinedcount (roomid_joinedcount s),
                roomid_invitedcount := kv_insert room_id invitedcount (roomid_invitedcount s),
                roomuserid_knockedcount := kv_insert room_id knockedcount (roomuserid_knockedcount s)\<rparr>;
          (s, joined_servers) = foldl (drop_old_server room_id) (s, joined_servers) (room_servers env s room_id);
          s = foldl (add_new_server room_id) s joined_servers
      in s\<lparr>appservice_in_room_cache := (appservice_in_room_cache s)(room_id := None)\<rparr>)"

text \<open>Whether an appservice is in a room, remembered until the members of the room are counted again.\<close>

definition appservice_in_room ::
    "cache_env \<Rightarrow> cache_state \<Rightarrow> ident \<Rightarrow> byte list \<Rightarrow> ident option \<Rightarrow> (ident \<Rightarrow> bool) \<Rightarrow> cache_state \<times> bool" where
  "appservice_in_room env s room_id registration_id bridge_user_id is_match =
     (case Option.bind (appservice_in_room_cache s room_id) (\<lambda>m. m registration_id) of
        Some cached \<Rightarrow> (s, cached)
      | None \<Rightarrow>
          (case bridge_user_id of
             None \<Rightarrow> (s, False)
           | Some bridge_user_id \<Rightarrow>
               (let in_room = (is_joined s bridge_user_id room_id \<or> list_ex is_match (room_members env s room_id));
                    m = (case appservice_in_room_cache s room_id of None \<Rightarrow> Map.empty | Some m \<Rightarrow> m)
                in (s\<lparr>appservice_in_room_cache :=
                        (appservice_in_room_cache s)(room_id \<mapsto> m(registration_id \<mapsto> in_room))\<rparr>, in_room))))"

section \<open>A membership event\<close>

record 'j direct_ops =
  dj_json :: "'j json_ops"
  dj_parse :: "byte list \<Rightarrow> 'j option"
  dj_direct :: "byte list \<Rightarrow> (ident \<times> ident list) list option"
  dj_print_direct :: "(ident \<times> ident list) list \<Rightarrow> 'j"
  tag_kind :: "byte list"
  direct_kind :: "byte list"

definition copy_tags ::
    "'j direct_ops \<Rightarrow> short_state \<times> account_db \<Rightarrow> ident \<Rightarrow> ident \<Rightarrow> ident \<Rightarrow> short_state \<times> account_db" where
  "copy_tags dj ga predecessor user_id room_id =
     (case get_room (dj_parse dj) (snd ga) predecessor user_id (tag_kind dj) of
        None \<Rightarrow> ga
      | Some tag_event \<Rightarrow> fst (account_update (dj_json dj) ga (Some room_id) user_id (tag_kind dj) tag_event))"

definition add_direct_room :: "ident \<Rightarrow> ident \<Rightarrow> ident \<times> ident list \<Rightarrow> ident \<times> ident list" where
  "add_direct_room predecessor room_id e =
     (if list_ex (\<lambda>r. r = predecessor) (snd e) then (fst e, snd e @ [room_id]) else e)"

definition copy_direct ::
    "'j direct_ops \<Rightarrow> short_state \<times> account_db \<Rightarrow> ident \<Rightarrow> ident \<Rightarrow> ident \<Rightarrow>
     (short_state \<times> account_db) \<times> (account_error + unit)" where
  "copy_direct dj ga predecessor user_id room_id =
     (case get_global (dj_direct dj) (snd ga) user_id (direct_kind dj) of
        None \<Rightarrow> (ga, Inr ())
      | Some content \<Rightarrow>
          if list_ex (\<lambda>e. list_ex (\<lambda>r. r = predecessor) (snd e)) content
          then account_update (dj_json dj) ga None user_id (direct_kind dj)
                 (dj_print_direct dj (map (add_direct_room predecessor room_id) content))
          else (ga, Inr ()))"

definition copy_from_predecessor ::
    "'j direct_ops \<Rightarrow> cache_state \<Rightarrow> ident \<Rightarrow> ident \<Rightarrow> ident \<Rightarrow> cache_state \<times> (cache_error + unit)" where
  "copy_from_predecessor dj s predecessor user_id room_id =
     (let ga = copy_tags dj (cs_globals s, cs_account s) predecessor user_id room_id;
          ((globals, account), r) = copy_direct dj ga predecessor user_id room_id;
          s = s\<lparr>cs_globals := globals, cs_account := account\<rparr>
      in case r of Inl e \<Rightarrow> (s, Inl (AccountError e)) | Inr _ \<Rightarrow> (s, Inr ()))"

text \<open>The event is given by what the code reads of it: the membership of its content, its sender, its
  JSON text, and for a local user the stripped state and the predecessor the room state gives.\<close>

record member_event =
  me_membership :: "membership_state option"
  me_sender :: ident
  me_text :: "byte list"
  me_stripped :: "byte list"
  me_no_state :: "byte list"
  me_predecessor :: "ident option"

definition apply_join ::
    "'j direct_ops \<Rightarrow> cache_env \<Rightarrow> cache_state \<Rightarrow> ident \<Rightarrow> ident \<Rightarrow> member_event \<Rightarrow> cache_state \<times> (cache_error + unit)" where
  "apply_join dj env s room_id user_id ev =
     (if once_joined s user_id room_id then (mark_as_joined s user_id room_id, Inr ())
      else
        (let s = mark_as_once_joined s user_id room_id in
         case (user_is_local env user_id, me_predecessor ev) of
           (True, Some predecessor) \<Rightarrow>
             (case copy_from_predecessor dj s predecessor user_id room_id of
                (s, Inl e) \<Rightarrow> (s, Inl e)
              | (s, Inr _) \<Rightarrow> (mark_as_joined s user_id room_id, Inr ()))
         | _ \<Rightarrow> (mark_as_joined s user_id room_id, Inr ())))"

definition apply_membership ::
    "'j direct_ops \<Rightarrow> cache_env \<Rightarrow> cache_state \<Rightarrow> ident \<Rightarrow> ident \<Rightarrow> member_event \<Rightarrow> membership_state \<Rightarrow>
     cache_state \<times> (cache_error + unit)" where
  "apply_membership dj env s room_id user_id ev membership =
     (case membership of
        MJoin \<Rightarrow> apply_join dj env s room_id user_id ev
      | MInvite \<Rightarrow>
          mark_as_invited env s user_id room_id (me_sender ev)
            (if user_is_local env user_id then me_stripped ev else me_no_state ev) None
      | MLeave \<Rightarrow> (mark_as_left env s user_id room_id (me_text ev), Inr ())
      | MBan \<Rightarrow> (mark_as_left env s user_id room_id (me_text ev), Inr ())
      | MKnock \<Rightarrow> (s, Inr ()))"

definition update_membership ::
    "'j direct_ops \<Rightarrow> cache_env \<Rightarrow> cache_state \<Rightarrow> ident \<Rightarrow> ident \<Rightarrow> member_event \<Rightarrow> bool \<Rightarrow>
     cache_state \<times> (cache_error + unit)" where
  "update_membership dj env s room_id user_id ev update_count =
     (case me_membership ev of
        None \<Rightarrow> (s, Inl BadContent)
      | Some membership \<Rightarrow>
          (let s = (if user_is_local env user_id then s else record_remote_user s user_id) in
           case apply_membership dj env s room_id user_id ev membership of
             (s, Inl e) \<Rightarrow> (s, Inl e)
           | (s, Inr _) \<Rightarrow> (if update_count then update_joined_count env s room_id else s, Inr ())))"

section \<open>Tables of pairs\<close>

lemma pair_key_bytes: "pair_key a b = a @ SEP # b"
  by (simp add: pair_key_def key_of_def serialize_to_vec_def ser_record_start_def separator_def ser_write_def)

lemma prefix_key_bytes: "prefix_key a = a @ [SEP]"
  by (simp add: prefix_key_def key_of_def serialize_to_vec_def ser_record_start_def separator_def ser_write_def)

text \<open>What the operations rely on: a column keyed by pairs, whose keys tell the pairs apart.\<close>

locale pair_column =
  fixes pk :: "'i \<Rightarrow> 'i \<Rightarrow> key" and ok :: "'i \<Rightarrow> bool"
  assumes pk_inject: "ok a \<Longrightarrow> ok a' \<Longrightarrow> pk a b = pk a' b' \<longleftrightarrow> a = a' \<and> b = b'"
begin

lemma has_insert:
  "kv_sorted c \<Longrightarrow> ok a \<Longrightarrow> ok a' \<Longrightarrow>
     kv_get (kv_insert (pk a b) v c) (pk a' b') \<noteq> None \<longleftrightarrow> (a' = a \<and> b' = b) \<or> kv_get c (pk a' b') \<noteq> None"
  by (auto simp: kv_get_insert pk_inject)

lemma has_remove:
  "ok a \<Longrightarrow> ok a' \<Longrightarrow>
     kv_get (kv_remove (pk a b) c) (pk a' b') \<noteq> None \<longleftrightarrow> \<not> (a' = a \<and> b' = b) \<and> kv_get c (pk a' b') \<noteq> None"
  by (auto simp: kv_get_remove pk_inject)

end

interpretation pk: pair_column pair_key sep_free
  by unfold_locales (simp add: pair_key_bytes sep_split)

named_theorems present_simps \<open>membership of a pair after an update of a column\<close>

lemma present_insert [present_simps]:
  "kv_sorted c \<Longrightarrow> sep_free a \<Longrightarrow> sep_free a' \<Longrightarrow>
     present (kv_insert (pair_key a b) v c) a' b' \<longleftrightarrow> (a' = a \<and> b' = b) \<or> present c a' b'"
  unfolding present_def by (rule pk.has_insert)

lemma present_remove [present_simps]:
  "sep_free a \<Longrightarrow> sep_free a' \<Longrightarrow>
     present (kv_remove (pair_key a b) c) a' b' \<longleftrightarrow> \<not> (a' = a \<and> b' = b) \<and> present c a' b'"
  unfolding present_def by (rule pk.has_remove)

lemma present_insert_other [present_simps]:
  "kv_sorted c \<Longrightarrow> sep_free k \<Longrightarrow> present (kv_insert k v c) a b \<longleftrightarrow> present c a b"
  by (auto simp: present_def kv_get_insert pair_key_bytes sep_free_def)

text \<open>The rows of a column that begin with an id are pairs of it and a text.\<close>

definition rows_ok :: "'v column \<Rightarrow> bool" where
  "rows_ok c \<longleftrightarrow> (\<forall>k. kv_get c k \<noteq> None \<longrightarrow>
     sep_free k \<or> (\<exists>a b. utf8_valid a \<and> utf8_valid b \<and> k = pair_key a b))"

lemma rows_ok_insert: "kv_sorted c \<Longrightarrow> rows_ok c \<Longrightarrow> utf8_valid a \<Longrightarrow> utf8_valid b \<Longrightarrow> rows_ok (kv_insert (pair_key a b) v c)"
  unfolding rows_ok_def by (auto simp: kv_get_insert split: if_splits)

lemma rows_ok_insert_other: "kv_sorted c \<Longrightarrow> rows_ok c \<Longrightarrow> sep_free k \<Longrightarrow> rows_ok (kv_insert k v c)"
  unfolding rows_ok_def by (auto simp: kv_get_insert split: if_splits)

lemma rows_ok_remove: "rows_ok c \<Longrightarrow> rows_ok (kv_remove k c)"
  unfolding rows_ok_def by (auto simp: kv_get_remove)

lemma second_id_pair:
  assumes "sep_free a" "utf8_valid b"
  shows "second_id valid (pair_key a b) = (if valid b then Some b else None)"
proof -
  let ?st = "record_start (sequence_start \<lparr>de_pos = 0, de_rec = 0, de_seq = False\<rparr>)" and ?buf = "a @ SEP # b"
  have seq: "de_seq ?st" by (simp add: record_start_def sequence_start_def inc_pos_def inc_rec_def)
  have "record_next ?buf ?st = Inr (a, inc_pos (length a) ?st)"
    using assms(1) takeWhile_record [of a "SEP # b"] by (simp add: record_next_def slice_def Let_def sep_free_def)
  then have 1: "deserialize TIgnore ?buf ?st = Inr (VUnit, inc_pos (length a) ?st)"
    using seq by (simp add: record_ignore_def)
  have "deserialize TStr ?buf (record_start (inc_pos (length a) ?st)) =
      Inr (VStr b, inc_pos (length b) (record_start (inc_pos (length a) ?st)))"
    using deserialize_storable [of TStr "VStr b" "record_start (inc_pos (length a) ?st)" ?buf "[]"] assms(2)
    by (simp add: inc_pos_def)
  with 1 have "from_slice (TTuple [TIgnore, TStr]) ?buf = Inr (VTuple [VUnit, VStr b])"
    by (simp add: from_slice_def next_element_def inc_pos_def del: deserialize.simps(1,7))
  then show ?thesis by (simp add: second_id_def pair_key_bytes)
qed

lemma prefix_rows:
  assumes "kv_sorted c" "rows_ok c" "utf8_valid a"
  shows "set (kv_keys_prefix c (prefix_key a)) = pair_key a ` {b. utf8_valid b \<and> present c a b}"
proof -
  have "(starts_with k (prefix_key a) \<and> kv_get c k \<noteq> None) \<longleftrightarrow> (\<exists>b. k = pair_key a b \<and> utf8_valid b \<and> present c a b)" for k
  proof
    assume k: "starts_with k (prefix_key a) \<and> kv_get c k \<noteq> None"
    then obtain z where z: "k = a @ SEP # z" by (auto simp: starts_with_iff prefix_key_bytes)
    then have "\<not> sep_free k" by (simp add: sep_free_def)
    with k assms(2) obtain a' b where b: "utf8_valid a'" "utf8_valid b" "k = pair_key a' b" unfolding rows_ok_def by blast
    then have "a = a' \<and> z = b" using z assms(3) sep_split [of a a' z b] by (simp add: pair_key_bytes)
    with b k show "\<exists>b. k = pair_key a b \<and> utf8_valid b \<and> present c a b" by (auto simp: present_def)
  next
    assume "\<exists>b. k = pair_key a b \<and> utf8_valid b \<and> present c a b"
    then show "starts_with k (prefix_key a) \<and> kv_get c k \<noteq> None"
      by (auto simp: starts_with_iff prefix_key_bytes pair_key_bytes present_def)
  qed
  then show ?thesis unfolding set_keys_prefix [OF assms(1)] by blast
qed

lemma map_filter_set: "set (List.map_filter f xs) = {y. \<exists>x \<in> set xs. f x = Some y}"
  by (induction xs) (auto simp: map_filter_simps split: option.splits)

lemma map_filter_sorted:
  assumes "sorted_wrt R xs" "\<And>x y a b. x \<in> set xs \<Longrightarrow> y \<in> set xs \<Longrightarrow> R x y \<Longrightarrow> f x = Some a \<Longrightarrow> f y = Some b \<Longrightarrow> Q a b"
  shows "sorted_wrt Q (List.map_filter f xs)"
  using assms
proof (induction xs)
  case (Cons x xs)
  then have "sorted_wrt Q (List.map_filter f xs)" by (metis list.set_intros(2) sorted_wrt.simps(2))
  moreover have "Q a y" if a: "f x = Some a" and y: "y \<in> set (List.map_filter f xs)" for a y
  proof -
    obtain z where z: "z \<in> set xs" "f z = Some y" using y by (auto simp: map_filter_set)
    then have "R x z" using Cons.prems(1) by simp
    then show ?thesis using Cons.prems(2) [of x z a y] z a by simp
  qed
  ultimately show ?case by (simp add: map_filter_simps split: option.split)
qed (simp add: map_filter_simps)

lemma second_ids_set:
  assumes "kv_sorted c" "rows_ok c" "utf8_valid a"
  shows "set (second_ids valid c (prefix_key a)) = {b. utf8_valid b \<and> valid b \<and> present c a b}"
  using assms(3) by (auto simp: second_ids_def map_filter_set prefix_rows [OF assms] second_id_pair)

lemma pair_key_less: "pair_key a b < pair_key a b' \<longleftrightarrow> b < b'"
  by (induction a) (auto simp: pair_key_bytes)

lemma second_ids_sorted:
  assumes "kv_sorted c" "rows_ok c" "utf8_valid a"
  shows "sorted_wrt (<) (second_ids valid c (prefix_key a))"
  unfolding second_ids_def
proof (rule map_filter_sorted [OF sorted_keys_prefix [OF assms(1)]])
  fix x y b b'
  assume "x \<in> set (kv_keys_prefix c (prefix_key a))" "y \<in> set (kv_keys_prefix c (prefix_key a))" "x < y"
    "second_id valid x = Some b" "second_id valid y = Some b'"
  then show "b < b'" using assms(3) unfolding prefix_rows [OF assms]
    by (auto simp: second_id_pair pair_key_less split: if_splits)
qed

lemma second_ids_length:
  assumes "kv_sorted c" "rows_ok c" "utf8_valid a"
  shows "length (second_ids valid c (prefix_key a)) = card {b. utf8_valid b \<and> valid b \<and> present c a b}"
  using second_ids_set [OF assms, of valid] second_ids_sorted [OF assms, of valid]
  by (metis distinct_card strict_sorted_iff)

end
