(* ===== verification/Memberships.thy ===== *)
theory Memberships
  imports State_Cache
begin

text \<open>
  What the membership tables of \<^theory_text>\<open>State_Cache\<close> promise. The tables stand for one map from user
  and room to a membership: \<open>current\<close> reads it off, \<open>cache_wf\<close> says that the tables by user and by
  room agree and that no user has two memberships in a room, and every operation is the update of that
  map one expects. \<open>cache_step\<close> is any sequence of operations of the service.
\<close>

section \<open>The memberships the tables hold\<close>

definition current :: "cache_state \<Rightarrow> ident \<Rightarrow> ident \<Rightarrow> membership_state option" where
  "current s u r =
     (if is_joined s u r then Some MJoin else if is_invited s u r then Some MInvite
      else if is_left s u r then Some MLeave else if is_knocked s u r then Some MKnock else None)"

definition columns_ok :: "cache_state \<Rightarrow> bool" where
  "columns_ok s \<longleftrightarrow>
     kv_sorted (userroomid_joined s) \<and> kv_sorted (roomuserid_joined s) \<and>
     kv_sorted (userroomid_invitestate s) \<and> kv_sorted (roomuserid_invitecount s) \<and> kv_sorted (userroomid_invitesender s) \<and>
     kv_sorted (userroomid_leftstate s) \<and> kv_sorted (roomuserid_leftcount s) \<and>
     kv_sorted (userroomid_knockedstate s) \<and> kv_sorted (roomuserid_knockedcount s) \<and>
     kv_sorted (roomserverids s) \<and> kv_sorted (serverroomids s) \<and> kv_sorted (roomuseroncejoinedids s) \<and>
     kv_sorted (roomid_joinedcount s) \<and> kv_sorted (roomid_invitedcount s) \<and>
     rows_ok (userroomid_joined s) \<and> rows_ok (roomuserid_joined s) \<and> rows_ok (roomuserid_invitecount s) \<and>
     rows_ok (roomuserid_knockedcount s) \<and> rows_ok (roomserverids s) \<and> rows_ok (serverroomids s)"

definition agree :: "cache_state \<Rightarrow> ident \<Rightarrow> ident \<Rightarrow> bool" where
  "agree s u r \<longleftrightarrow>
     present (roomuserid_joined s) r u = is_joined s u r \<and>
     present (roomuserid_invitecount s) r u = is_invited s u r \<and>
     present (userroomid_invitesender s) u r = is_invited s u r \<and>
     present (roomuserid_leftcount s) r u = is_left s u r \<and>
     present (roomuserid_knockedcount s) r u = is_knocked s u r"

definition exclusive :: "cache_state \<Rightarrow> ident \<Rightarrow> ident \<Rightarrow> bool" where
  "exclusive s u r \<longleftrightarrow>
     (is_joined s u r \<longrightarrow> \<not> is_invited s u r \<and> \<not> is_left s u r \<and> \<not> is_knocked s u r) \<and>
     (is_invited s u r \<longrightarrow> \<not> is_left s u r \<and> \<not> is_knocked s u r) \<and> (is_left s u r \<longrightarrow> \<not> is_knocked s u r)"

definition cache_wf :: "cache_state \<Rightarrow> bool" where
  "cache_wf s \<longleftrightarrow> columns_ok s \<and> (\<forall>u r. sep_free u \<longrightarrow> sep_free r \<longrightarrow> agree s u r \<and> exclusive s u r)"

text \<open>A state in which one user's membership in one room has been set.\<close>

definition sets_membership ::
    "cache_state \<Rightarrow> cache_state \<Rightarrow> ident \<Rightarrow> ident \<Rightarrow> membership_state option \<Rightarrow> bool" where
  "sets_membership s s' u r m \<longleftrightarrow>
     cache_wf s' \<and>
     (\<forall>u' r'. sep_free u' \<longrightarrow> sep_free r' \<longrightarrow> current s' u' r' = (if u' = u \<and> r' = r then m else current s u' r'))"

lemmas is_defs = is_joined_def is_invited_def is_left_def is_knocked_def

lemma columns_okD:
  assumes "columns_ok s"
  shows "kv_sorted (userroomid_joined s)" "kv_sorted (roomuserid_joined s)"
    "kv_sorted (userroomid_invitestate s)" "kv_sorted (roomuserid_invitecount s)" "kv_sorted (userroomid_invitesender s)"
    "kv_sorted (userroomid_leftstate s)" "kv_sorted (roomuserid_leftcount s)"
    "kv_sorted (userroomid_knockedstate s)" "kv_sorted (roomuserid_knockedcount s)"
    "kv_sorted (roomserverids s)" "kv_sorted (serverroomids s)" "kv_sorted (roomuseroncejoinedids s)"
    "kv_sorted (roomid_joinedcount s)" "kv_sorted (roomid_invitedcount s)"
    "rows_ok (userroomid_joined s)" "rows_ok (roomuserid_joined s)" "rows_ok (roomuserid_invitecount s)"
    "rows_ok (roomuserid_knockedcount s)" "rows_ok (roomserverids s)" "rows_ok (serverroomids s)"
  using assms by (simp_all add: columns_ok_def)

lemmas column_keeps = kv_sorted_insert kv_sorted_remove rows_ok_insert rows_ok_remove

text \<open>From the point of view of the tables, an operation is given by which of the four pairs of tables it
  fills and that it clears the others.\<close>

lemma sets_membershipI:
  assumes "cache_wf s" "columns_ok s'"
    and "\<And>u' r'. sep_free u' \<Longrightarrow> sep_free r' \<Longrightarrow> (u', r') \<noteq> (u, r) \<Longrightarrow>
      (agree s' u' r' \<longleftrightarrow> agree s u' r') \<and> (exclusive s' u' r' \<longleftrightarrow> exclusive s u' r') \<and> current s' u' r' = current s u' r'"
    and "sep_free u \<Longrightarrow> sep_free r \<Longrightarrow> agree s' u r \<and> exclusive s' u r \<and> current s' u r = m"
  shows "sets_membership s s' u r m"
proof -
  have "agree s' u' r' \<and> exclusive s' u' r' \<and> current s' u' r' = (if u' = u \<and> r' = r then m else current s u' r')"
    if "sep_free u'" "sep_free r'" for u' r'
    using assms(1,3,4) that unfolding cache_wf_def by (cases "(u', r') = (u, r)") auto
  then show ?thesis using assms(2) unfolding sets_membership_def cache_wf_def by blast
qed

lemmas membership_views = agree_def exclusive_def current_def is_defs

lemma mark_as_joined_sets:
  assumes "cache_wf s" "utf8_valid u" "utf8_valid r"
  shows "sets_membership s (mark_as_joined s u r) u r (Some MJoin)"
proof -
  have c: "columns_ok s" using assms(1) by (simp add: cache_wf_def)
  note cols = columns_okD [OF c]
  have "columns_ok (mark_as_joined s u r)"
    using cols assms(2,3) by (simp add: columns_ok_def mark_as_joined_def Let_def column_keeps)
  moreover have "sep_free u" "sep_free r" using assms(2,3) by simp_all
  ultimately show ?thesis
    by (intro sets_membershipI [OF assms(1)])
      (auto simp: membership_views mark_as_joined_def Let_def present_simps cols)
qed

lemma mark_as_knocked_sets:
  assumes "cache_wf s" "utf8_valid u" "utf8_valid r"
  shows "sets_membership s (mark_as_knocked s u r knocked_state) u r (Some MKnock)"
proof -
  have c: "columns_ok s" using assms(1) by (simp add: cache_wf_def)
  note cols = columns_okD [OF c]
  have "columns_ok (mark_as_knocked s u r knocked_state)"
    using cols assms(2,3) by (simp add: columns_ok_def mark_as_knocked_def Let_def column_keeps split: prod.split)
  moreover have "sep_free u" "sep_free r" using assms(2,3) by simp_all
  ultimately show ?thesis
    by (intro sets_membershipI [OF assms(1)])
      (auto simp: membership_views mark_as_knocked_def Let_def present_simps cols split: prod.splits)
qed

definition forgets :: "cache_env \<Rightarrow> cache_state \<Rightarrow> ident \<Rightarrow> ident \<Rightarrow> bool" where
  "forgets env s u r \<longleftrightarrow> user_is_local env u \<and> (forget_forced_upon_leave env \<or> is_banned s r \<or> is_disabled s r)"

lemma mark_as_left_sets:
  assumes "cache_wf s" "utf8_valid u" "utf8_valid r"
  shows "sets_membership s (mark_as_left env s u r text) u r (if forgets env s u r then None else Some MLeave)"
proof -
  have c: "columns_ok s" using assms(1) by (simp add: cache_wf_def)
  note cols = columns_okD [OF c]
  note defs = mark_as_left_def forget_def forgets_def is_banned_def is_disabled_def Let_def
  have "columns_ok (mark_as_left env s u r text)"
    using cols assms(2,3) by (auto simp: columns_ok_def defs column_keeps split: prod.split)
  moreover have "sep_free u" "sep_free r" using assms(2,3) by simp_all
  ultimately show ?thesis
    by (intro sets_membershipI [OF assms(1)])
      (auto simp: membership_views defs present_simps cols column_keeps split: prod.splits)
qed

lemma forget_sets:
  assumes "cache_wf s" "utf8_valid u" "utf8_valid r"
  shows "sets_membership s (forget s r u) u r (if current s u r = Some MLeave then None else current s u r)"
proof -
  have c: "columns_ok s" using assms(1) by (simp add: cache_wf_def)
  note cols = columns_okD [OF c]
  have "columns_ok (forget s r u)"
    using cols assms(2,3) by (simp add: columns_ok_def forget_def column_keeps)
  moreover have f: "sep_free u" "sep_free r" using assms(2,3) by simp_all
  moreover have "agree s u r" "exclusive s u r" using assms(1) f by (simp_all add: cache_wf_def)
  ultimately show ?thesis
    by (intro sets_membershipI [OF assms(1)])
      (auto simp: membership_views forget_def present_simps cols)
qed

text \<open>Operations that leave the memberships as they are.\<close>

definition same_memberships :: "cache_state \<Rightarrow> cache_state \<Rightarrow> bool" where
  "same_memberships s s' \<longleftrightarrow>
     userroomid_joined s' = userroomid_joined s \<and> roomuserid_joined s' = roomuserid_joined s \<and>
     userroomid_invitestate s' = userroomid_invitestate s \<and> roomuserid_invitecount s' = roomuserid_invitecount s \<and>
     userroomid_invitesender s' = userroomid_invitesender s \<and>
     userroomid_leftstate s' = userroomid_leftstate s \<and> roomuserid_leftcount s' = roomuserid_leftcount s \<and>
     userroomid_knockedstate s' = userroomid_knockedstate s \<and>
     (\<forall>u r. present (roomuserid_knockedcount s') r u = present (roomuserid_knockedcount s) r u)"

lemma same_memberships_refl [simp]: "same_memberships s s"
  by (simp add: same_memberships_def)

lemma same_memberships_trans: "same_memberships s s' \<Longrightarrow> same_memberships s' s'' \<Longrightarrow> same_memberships s s''"
  by (simp add: same_memberships_def)

lemma same_memberships_current: "same_memberships s s' \<Longrightarrow> current s' u r = current s u r"
  by (simp add: same_memberships_def membership_views)

lemma same_memberships_wf: "same_memberships s s' \<Longrightarrow> cache_wf s \<Longrightarrow> columns_ok s' \<Longrightarrow> cache_wf s'"
  by (simp add: same_memberships_def cache_wf_def membership_views)

lemma sets_membership_same:
  assumes "sets_membership s s' u r m" "same_memberships s' s''" "columns_ok s''"
  shows "sets_membership s s'' u r m"
  using assms same_memberships_wf [OF assms(2)] same_memberships_current [OF assms(2)]
  by (simp add: sets_membership_def)

lemma same_memberships_sets:
  assumes "same_memberships s s'" "sets_membership s' s'' u r m"
  shows "sets_membership s s'' u r m"
  using assms same_memberships_current [OF assms(1)] by (simp add: sets_membership_def)

lemma sets_membership_wf: "sets_membership s s' u r m \<Longrightarrow> cache_wf s'"
  by (simp add: sets_membership_def)

lemma wf_columns: "cache_wf s \<Longrightarrow> columns_ok s"
  by (simp add: cache_wf_def)

lemma add_servers_same:
  assumes "add_servers_invite_via env s room_id servers = Inr s'"
  shows "same_memberships s s'" "columns_ok s' = columns_ok s"
    "roomserverids s' = roomserverids s" "serverroomids s' = serverroomids s"
  using assms by (auto simp: add_servers_invite_via_def Let_def same_memberships_def columns_ok_def)

lemma mark_as_invited_sets:
  assumes "cache_wf s" "utf8_valid u" "utf8_valid r"
    and "invite_filter_level (ce_ids env) (ce_globs env) (ce_parsers env) (cs_account s) sender u \<noteq> FBlock"
  shows "sets_membership s (fst (mark_as_invited env s u r sender text invite_via)) u r (Some MInvite)"
proof -
  have c: "columns_ok s" using assms(1) by (simp add: cache_wf_def)
  note cols = columns_okD [OF c]
  obtain n g where n: "next_count (cs_globals s) = (n, g)" by fastforce
  define s1 where "s1 = s\<lparr>cs_globals := g,
       userroomid_invitestate := kv_insert (pair_key u r) text (userroomid_invitestate s),
       roomuserid_invitecount := kv_insert (pair_key r u) n (roomuserid_invitecount s),
       userroomid_invitesender := kv_insert (pair_key u r) sender (userroomid_invitesender s),
       userroomid_joined := kv_remove (pair_key u r) (userroomid_joined s),
       roomuserid_joined := kv_remove (pair_key r u) (roomuserid_joined s),
       userroomid_leftstate := kv_remove (pair_key u r) (userroomid_leftstate s),
       roomuserid_leftcount := kv_remove (pair_key r u) (roomuserid_leftcount s),
       userroomid_knockedstate := kv_remove (pair_key u r) (userroomid_knockedstate s),
       roomuserid_knockedcount := kv_remove (pair_key r u) (roomuserid_knockedcount s)\<rparr>"
  have ok: "columns_ok s1"
    using cols assms(2,3) by (simp add: columns_ok_def s1_def column_keeps)
  have "sep_free u" "sep_free r" using assms(2,3) by simp_all
  then have s1: "sets_membership s s1 u r (Some MInvite)"
    using ok by (intro sets_membershipI [OF assms(1)]) (auto simp: membership_views s1_def present_simps cols)
  have "fst (mark_as_invited env s u r sender text invite_via) = s1 \<or>
      (\<exists>servers. add_servers_invite_via env s1 r servers = Inr (fst (mark_as_invited env s u r sender text invite_via)))"
    using assms(4) n by (auto simp: mark_as_invited_def Let_def s1_def [symmetric] split: option.split list.split sum.split)
  then show ?thesis
    using s1 ok sets_membership_same [OF s1] add_servers_same by metis
qed

lemma mark_as_invited_blocked:
  assumes "invite_filter_level (ce_ids env) (ce_globs env) (ce_parsers env) (cs_account s) sender u = FBlock"
  shows "mark_as_invited env s u r sender text invite_via = (s, Inl InviteBlocked)"
  using assms by (simp add: mark_as_invited_def)

lemma mark_as_once_joined_same:
  "same_memberships s (mark_as_once_joined s u r)" "columns_ok s \<Longrightarrow> columns_ok (mark_as_once_joined s u r)"
  by (simp_all add: same_memberships_def mark_as_once_joined_def columns_ok_def column_keeps)

lemma record_remote_user_same:
  "same_memberships s (record_remote_user s u)" "columns_ok (record_remote_user s u) = columns_ok s"
  by (simp_all add: same_memberships_def record_remote_user_def columns_ok_def)

lemma copy_from_predecessor_same:
  "same_memberships s (fst (copy_from_predecessor dj s p u r))"
  "columns_ok (fst (copy_from_predecessor dj s p u r)) = columns_ok s"
  by (simp_all add: same_memberships_def copy_from_predecessor_def columns_ok_def Let_def split: prod.split sum.split)

section \<open>Counting members\<close>

lemma joined_servers_set: "set (foldl add_server acc xs) = set acc \<union> set xs"
  by (induction xs arbitrary: acc) (auto simp: add_server_def)

lemma saturating_count: "unat (foldl (\<lambda>n _. saturating_add_u64 n 1) 0 xs) = min (length xs) u64_max"
proof (induction xs rule: rev_induct)
  case (snoc x xs)
  let ?n = "foldl (\<lambda>n _. saturating_add_u64 n 1) 0 xs"
  have "unat (- 1 :: u64) = u64_max" by (simp add: unsigned_minus_1_eq_mask mask_eq_exp_minus_1)
  moreover have "unat (?n + 1) = unat ?n + 1" if "unat ?n + 1 \<le> u64_max"
    using that by (simp add: unat_word_ariths)
  ultimately show ?case using snoc by (simp add: saturating_add_u64_def)
qed simp

text \<open>The two server tables agree and hold valid servers.\<close>

definition servers_wf :: "cache_env \<Rightarrow> cache_state \<Rightarrow> bool" where
  "servers_wf env s \<longleftrightarrow> (\<forall>r x. sep_free r \<longrightarrow> sep_free x \<longrightarrow>
     present (serverroomids s) x r = present (roomserverids s) r x \<and>
     (present (roomserverids s) r x \<longrightarrow> utf8_valid x \<and> server_valid (ce_ids env) x))"

lemma servers_wfD:
  "servers_wf env s \<Longrightarrow> sep_free r \<Longrightarrow> sep_free x \<Longrightarrow> present (roomserverids s) r x \<Longrightarrow>
     utf8_valid x \<and> server_valid (ce_ids env) x"
  unfolding servers_wf_def by blast

lemma servers_wf_tables: "servers_wf env s \<Longrightarrow> sep_free r \<Longrightarrow> sep_free x \<Longrightarrow> present (serverroomids s) x r = present (roomserverids s) r x"
  unfolding servers_wf_def by blast

definition server_tables :: "cache_state \<Rightarrow> (ident \<Rightarrow> ident \<Rightarrow> bool) \<Rightarrow> bool" where
  "server_tables s P \<longleftrightarrow>
     kv_sorted (roomserverids s) \<and> kv_sorted (serverroomids s) \<and> rows_ok (roomserverids s) \<and> rows_ok (serverroomids s) \<and>
     (\<forall>r x. sep_free r \<longrightarrow> sep_free x \<longrightarrow> present (roomserverids s) r x = P r x \<and> present (serverroomids s) x r = P r x)"

lemma server_tables_cong: "server_tables s P \<Longrightarrow> (\<And>r x. sep_free r \<Longrightarrow> sep_free x \<Longrightarrow> P r x = Q r x) \<Longrightarrow> server_tables s Q"
  by (simp add: server_tables_def)

definition same_but_servers :: "cache_state \<Rightarrow> cache_state \<Rightarrow> bool" where
  "same_but_servers s s' \<longleftrightarrow> (\<exists>a b. s' = s\<lparr>roomserverids := a, serverroomids := b\<rparr>)"

lemma same_but_servers_refl [simp]: "same_but_servers s s"
  unfolding same_but_servers_def by (rule exI [of _ "roomserverids s"], rule exI [of _ "serverroomids s"]) simp

lemma same_but_servers_step [simp]: "same_but_servers s (t\<lparr>roomserverids := a, serverroomids := b\<rparr>) = same_but_servers s t"
proof
  assume "same_but_servers s (t\<lparr>roomserverids := a, serverroomids := b\<rparr>)"
  then obtain c d where "t\<lparr>roomserverids := a, serverroomids := b\<rparr> = s\<lparr>roomserverids := c, serverroomids := d\<rparr>"
    by (auto simp: same_but_servers_def)
  then have "t = s\<lparr>roomserverids := roomserverids t, serverroomids := serverroomids t\<rparr>"
    by (cases s, cases t) simp
  then show "same_but_servers s t" unfolding same_but_servers_def by blast
next
  assume "same_but_servers s t"
  then obtain c d where "t = s\<lparr>roomserverids := c, serverroomids := d\<rparr>" by (auto simp: same_but_servers_def)
  then show "same_but_servers s (t\<lparr>roomserverids := a, serverroomids := b\<rparr>)" by (auto simp: same_but_servers_def)
qed

lemma drop_old_servers:
  assumes "server_tables s P" "distinct olds" "list_all sep_free olds" "sep_free r"
  shows "\<exists>s'. foldl (drop_old_server r) (s, js) olds = (s', filter (\<lambda>x. x \<notin> set olds) js) \<and>
    server_tables s' (\<lambda>r' x. P r' x \<and> \<not> (r' = r \<and> x \<in> set olds \<and> x \<notin> set js)) \<and> same_but_servers s s'"
  using assms
proof (induction olds arbitrary: s js P)
  case (Cons x olds)
  show ?case
  proof (cases "x \<in> set js")
    case True
    obtain s' where s': "foldl (drop_old_server r) (s, removeAll x js) olds = (s', filter (\<lambda>y. y \<notin> set olds) (removeAll x js))"
      "server_tables s' (\<lambda>r' y. P r' y \<and> \<not> (r' = r \<and> y \<in> set olds \<and> y \<notin> set (removeAll x js)))" "same_but_servers s s'"
      using Cons.IH [OF Cons.prems(1), of "removeAll x js"] Cons.prems by auto
    have "filter (\<lambda>y. y \<notin> set olds) (removeAll x js) = filter (\<lambda>y. y \<notin> set (x # olds)) js"
      by (auto simp: removeAll_filter_not_eq intro: filter_cong)
    moreover have "server_tables s' (\<lambda>r' y. P r' y \<and> \<not> (r' = r \<and> y \<in> set (x # olds) \<and> y \<notin> set js))"
      by (rule server_tables_cong [OF s'(2)]) (use True Cons.prems(2) in auto)
    moreover have "foldl (drop_old_server r) (s, js) (x # olds) = foldl (drop_old_server r) (s, removeAll x js) olds"
      using True by (simp add: drop_old_server_def)
    ultimately show ?thesis using s'(1,3) by (intro exI [of _ s'] conjI) (simp_all only:)
  next
    case False
    let ?s = "s\<lparr>roomserverids := kv_remove (pair_key r x) (roomserverids s),
                serverroomids := kv_remove (pair_key x r) (serverroomids s)\<rparr>"
    have x: "sep_free x" using Cons.prems(3) by simp
    have tab: "server_tables ?s (\<lambda>r' y. P r' y \<and> \<not> (r' = r \<and> y = x))"
      using Cons.prems(1,4) x by (auto simp: server_tables_def column_keeps present_simps)
    obtain s' where s': "foldl (drop_old_server r) (?s, js) olds = (s', filter (\<lambda>y. y \<notin> set olds) js)"
      "server_tables s' (\<lambda>r' y. (P r' y \<and> \<not> (r' = r \<and> y = x)) \<and> \<not> (r' = r \<and> y \<in> set olds \<and> y \<notin> set js))"
      "same_but_servers ?s s'"
      using Cons.IH [OF tab, of js] Cons.prems by auto
    have "same_but_servers s s'" using s'(3) by (auto simp: same_but_servers_def)
    moreover have "filter (\<lambda>y. y \<notin> set olds) js = filter (\<lambda>y. y \<notin> set (x # olds)) js"
      using False by (auto intro!: filter_cong)
    moreover have "server_tables s' (\<lambda>r' y. P r' y \<and> \<not> (r' = r \<and> y \<in> set (x # olds) \<and> y \<notin> set js))"
      by (rule server_tables_cong [OF s'(2)]) (use False in auto)
    moreover have "foldl (drop_old_server r) (s, js) (x # olds) = foldl (drop_old_server r) (?s, js) olds"
      using False by (simp add: drop_old_server_def)
    ultimately show ?thesis using s'(1) by (intro exI [of _ s'] conjI) (simp_all only:)
  qed
qed simp

lemma add_new_servers:
  assumes "server_tables s P" "list_all utf8_valid js" "utf8_valid r"
  shows "server_tables (foldl (add_new_server r) s js) (\<lambda>r' x. P r' x \<or> (r' = r \<and> x \<in> set js)) \<and>
    same_but_servers s (foldl (add_new_server r) s js)"
  using assms
proof (induction js arbitrary: s P)
  case (Cons x js)
  have "server_tables (add_new_server r s x) (\<lambda>r' y. P r' y \<or> (r' = r \<and> y = x))"
    using Cons.prems by (auto simp: server_tables_def add_new_server_def column_keeps present_simps)
  from Cons.IH [OF this] Cons.prems
  have IH: "server_tables (foldl (add_new_server r) s (x # js)) (\<lambda>r' y. (P r' y \<or> (r' = r \<and> y = x)) \<or> (r' = r \<and> y \<in> set js))"
    "same_but_servers (add_new_server r s x) (foldl (add_new_server r) s (x # js))" by simp_all
  have "same_but_servers s (foldl (add_new_server r) s (x # js))"
    using IH(2) by (auto simp: same_but_servers_def add_new_server_def)
  moreover have "server_tables (foldl (add_new_server r) s (x # js)) (\<lambda>r' y. P r' y \<or> (r' = r \<and> y \<in> set (x # js)))"
    by (rule server_tables_cong [OF IH(1)]) auto
  ultimately show ?case by blast
qed simp

text \<open>The joined users of a room, and what the crate \<open>ruma\<close> promises of their servers.\<close>

definition members :: "cache_env \<Rightarrow> cache_state \<Rightarrow> ident \<Rightarrow> ident set" where
  "members env s r = {u. utf8_valid u \<and> user_valid (ce_ids env) u \<and> is_joined s u r}"

definition invitees :: "cache_env \<Rightarrow> cache_state \<Rightarrow> ident \<Rightarrow> ident set" where
  "invitees env s r = {u. utf8_valid u \<and> user_valid (ce_ids env) u \<and> is_invited s u r}"

definition server_law :: "cache_env \<Rightarrow> bool" where
  "server_law env \<longleftrightarrow>
     (\<forall>u. user_valid (ce_ids env) u \<longrightarrow>
        utf8_valid (server_of (ce_ids env) u) \<and> server_valid (ce_ids env) (server_of (ce_ids env) u))"

lemma room_members_set:
  assumes "cache_wf s" "utf8_valid r"
  shows "set (room_members env s r) = members env s r" "distinct (room_members env s r)"
proof -
  note cols = columns_okD [OF wf_columns [OF assms(1)]]
  have "present (roomuserid_joined s) r u = is_joined s u r" if "utf8_valid u" for u
    using assms that by (simp add: cache_wf_def agree_def)
  then show "set (room_members env s r) = members env s r"
    unfolding room_members_def second_ids_set [OF cols(2) cols(16) assms(2)] by (auto simp: members_def)
  show "distinct (room_members env s r)"
    using second_ids_sorted [OF cols(2) cols(16) assms(2)] by (simp add: room_members_def strict_sorted_iff)
qed

lemma room_invited_length:
  assumes "cache_wf s" "utf8_valid r"
  shows "length (room_members_invited env s r) = card (invitees env s r)"
proof -
  note cols = columns_okD [OF wf_columns [OF assms(1)]]
  have "present (roomuserid_invitecount s) r u = is_invited s u r" if "utf8_valid u" for u
    using assms that by (simp add: cache_wf_def agree_def)
  then have "{b. utf8_valid b \<and> user_valid (ce_ids env) b \<and> present (roomuserid_invitecount s) r b} = invitees env s r"
    by (auto simp: invitees_def)
  then show ?thesis
    using second_ids_length [OF cols(4) cols(17) assms(2)] by (simp add: room_members_invited_def)
qed

lemma room_servers_set:
  assumes "columns_ok s" "utf8_valid r"
  shows "set (room_servers env s r) = {x. utf8_valid x \<and> server_valid (ce_ids env) x \<and> present (roomserverids s) r x}"
    "distinct (room_servers env s r)"
  using second_ids_set [OF columns_okD(10) [OF assms(1)] columns_okD(19) [OF assms(1)] assms(2)]
    second_ids_sorted [OF columns_okD(10) [OF assms(1)] columns_okD(19) [OF assms(1)] assms(2)]
  by (simp_all add: room_servers_def strict_sorted_iff)

definition counted :: "cache_env \<Rightarrow> cache_state \<Rightarrow> ident \<Rightarrow> cache_state" where
  "counted env s r = s\<lparr>roomid_joinedcount := kv_insert r (foldl (\<lambda>n _. saturating_add_u64 n 1) 0 (room_members env s r)) (roomid_joinedcount s),
     roomid_invitedcount := kv_insert r (saturating_add_u64 0 (of_nat (length (room_members_invited env s r)))) (roomid_invitedcount s),
     roomuserid_knockedcount := kv_insert r (saturating_add_u64 0 (of_nat (length (room_members_knocked env s r)))) (roomuserid_knockedcount s)\<rparr>"

lemma counted_ok:
  assumes "columns_ok s" "utf8_valid r"
  shows "columns_ok (counted env s r)" "same_memberships s (counted env s r)"
  using columns_okD [OF assms(1)] assms(2)
  by (simp_all add: columns_ok_def same_memberships_def counted_def column_keeps rows_ok_insert_other present_simps)

lemma update_joined_count_tables:
  assumes wf: "cache_wf s" and r: "utf8_valid r" and law: "server_law env" and servers: "servers_wf env s"
  obtains s2 where "update_joined_count env s r = s2\<lparr>appservice_in_room_cache := (appservice_in_room_cache s2)(r := None)\<rparr>"
    "same_but_servers (counted env s r) s2"
    "server_tables s2 (\<lambda>r' x. if r' = r then x \<in> server_of (ce_ids env) ` members env s r else present (roomserverids s) r' x)"
proof -
  let ?c = "counted env s r"
  define js where "js = foldl add_server [] (map (server_of (ce_ids env)) (room_members env s r))"
  have js: "set js = server_of (ce_ids env) ` members env s r"
    using room_members_set(1) [OF wf r, of env] by (simp add: js_def joined_servers_set)
  then have js_ok: "list_all utf8_valid js"
    using law by (auto simp: list_all_iff server_law_def members_def)
  have c: "columns_ok ?c" "roomserverids ?c = roomserverids s" "serverroomids ?c = serverroomids s"
    using counted_ok(1) [OF wf_columns [OF wf] r] by (simp_all add: counted_def)
  have olds: "set (room_servers env ?c r) = {x. sep_free x \<and> present (roomserverids s) r x}"
    unfolding room_servers_set(1) [OF c(1) r] c(2) using servers_wfD [OF servers utf8_sep_free [OF r]] utf8_sep_free by blast
  then have olds: "set (room_servers env ?c r) = {x. sep_free x \<and> present (roomserverids s) r x}"
    "distinct (room_servers env ?c r)" "list_all sep_free (room_servers env ?c r)"
    using room_servers_set(2) [OF c(1) r, of env] by (simp_all add: list_all_iff)
  have tab: "server_tables ?c (present (roomserverids s))"
    using columns_okD(10,11,19,20) [OF c(1)] c(2,3) servers_wf_tables [OF servers] by (simp add: server_tables_def)
  obtain s1 where s1: "foldl (drop_old_server r) (?c, js) (room_servers env ?c r) =
      (s1, filter (\<lambda>x. x \<notin> set (room_servers env ?c r)) js)" "same_but_servers ?c s1"
    "server_tables s1 (\<lambda>r' x. present (roomserverids s) r' x \<and> \<not> (r' = r \<and> x \<in> set (room_servers env ?c r) \<and> x \<notin> set js))"
    using drop_old_servers [OF tab olds(2,3), of r js] r by auto
  define s2 where "s2 = foldl (add_new_server r) s1 (filter (\<lambda>x. x \<notin> set (room_servers env ?c r)) js)"
  have js_new: "list_all utf8_valid (filter (\<lambda>x. x \<notin> set (room_servers env ?c r)) js)"
    using js_ok by (simp add: list_all_iff)
  note s2 = add_new_servers [OF s1(3) js_new r, folded s2_def]
  show ?thesis
  proof (rule that)
    show "update_joined_count env s r = s2\<lparr>appservice_in_room_cache := (appservice_in_room_cache s2)(r := None)\<rparr>"
      using s1(1) by (simp add: update_joined_count_def Let_def s2_def js_def counted_def)
    obtain a b where "s1 = ?c\<lparr>roomserverids := a, serverroomids := b\<rparr>" using s1(2) by (auto simp: same_but_servers_def)
    then show "same_but_servers ?c s2" using s2 by (auto simp: same_but_servers_def)
    show "server_tables s2 (\<lambda>r' x. if r' = r then x \<in> server_of (ce_ids env) ` members env s r else present (roomserverids s) r' x)"
      by (rule server_tables_cong [OF s2 [THEN conjunct1]]) (use olds js in auto)
  qed
qed

lemma update_joined_count_ok:
  assumes "cache_wf s" "utf8_valid r" "server_law env" "servers_wf env s"
  defines "s' \<equiv> update_joined_count env s r"
  shows "cache_wf s'" "same_memberships s s'" "servers_wf env s'"
    and "map_option unat (room_joined_count s' r) = Some (min (card (members env s r)) u64_max)"
    and "set (room_servers env s' r) = server_of (ce_ids env) ` members env s r"
proof -
  let ?c = "counted env s r"
  obtain s2 where s2: "s' = s2\<lparr>appservice_in_room_cache := (appservice_in_room_cache s2)(r := None)\<rparr>"
    "same_but_servers ?c s2"
    "server_tables s2 (\<lambda>r' x. if r' = r then x \<in> server_of (ce_ids env) ` members env s r else present (roomserverids s) r' x)"
    unfolding s'_def using update_joined_count_tables [OF assms(1-4)] by blast
  obtain a b where ab: "s2 = ?c\<lparr>roomserverids := a, serverroomids := b\<rparr>" using s2(2) by (auto simp: same_but_servers_def)
  have c: "columns_ok ?c" "same_memberships s ?c" using counted_ok [OF wf_columns [OF assms(1)] assms(2)] by simp_all
  have tab: "server_tables s' (\<lambda>r' x. if r' = r then x \<in> server_of (ce_ids env) ` members env s r else present (roomserverids s) r' x)"
    using s2(1,3) by (simp add: server_tables_def)
  have cols: "columns_ok s'" using c(1) tab s2(1) ab by (simp add: columns_ok_def server_tables_def)
  show same: "same_memberships s s'" using c(2) s2(1) ab by (simp add: same_memberships_def)
  show "cache_wf s'" by (rule same_memberships_wf [OF same assms(1) cols])
  have law: "utf8_valid x \<and> server_valid (ce_ids env) x" if "x \<in> server_of (ce_ids env) ` members env s r" for x
    using that assms(3) by (auto simp: server_law_def members_def)
  show "servers_wf env s'"
    unfolding servers_wf_def
  proof (intro allI impI)
    fix q x assume q: "sep_free q" "sep_free x"
    let ?P = "if q = r then x \<in> server_of (ce_ids env) ` members env s r else present (roomserverids s) q x"
    have "present (roomserverids s') q x = ?P" "present (serverroomids s') x q = ?P"
      using tab q unfolding server_tables_def by blast+
    moreover have "utf8_valid x \<and> server_valid (ce_ids env) x" if ?P
      using that law servers_wfD [OF assms(4) q] by (cases "q = r") simp_all
    ultimately show "present (serverroomids s') x q = present (roomserverids s') q x \<and>
        (present (roomserverids s') q x \<longrightarrow> utf8_valid x \<and> server_valid (ce_ids env) x)" by blast
  qed
  show "set (room_servers env s' r) = server_of (ce_ids env) ` members env s r"
  proof -
    have "present (roomserverids s') r x \<longleftrightarrow> x \<in> server_of (ce_ids env) ` members env s r" if "utf8_valid x" for x
      using tab assms(2) that by (simp add: server_tables_def)
    then show ?thesis unfolding room_servers_set(1) [OF cols assms(2)] using law by blast
  qed
  have "kv_sorted (roomid_joinedcount s)" using columns_okD(13) [OF wf_columns [OF assms(1)]] .
  then have "room_joined_count s' r = Some (foldl (\<lambda>n _. saturating_add_u64 n 1) 0 (room_members env s r))"
    using s2(1) ab by (simp add: room_joined_count_def counted_def kv_get_insert)
  then show "map_option unat (room_joined_count s' r) = Some (min (card (members env s r)) u64_max)"
    using room_members_set [OF assms(1,2), of env] saturating_count [of "room_members env s r"]
    by (metis distinct_card option.simps(9))
qed

section \<open>Membership events\<close>

definition membership_after ::
    "cache_env \<Rightarrow> cache_state \<Rightarrow> ident \<Rightarrow> ident \<Rightarrow> membership_state \<Rightarrow> membership_state option" where
  "membership_after env s u r m =
     (case m of
        MJoin \<Rightarrow> Some MJoin
      | MInvite \<Rightarrow> Some MInvite
      | MLeave \<Rightarrow> if forgets env s u r then None else Some MLeave
      | MBan \<Rightarrow> if forgets env s u r then None else Some MLeave
      | MKnock \<Rightarrow> current s u r)"

lemma sets_current: "cache_wf s' \<Longrightarrow> same_memberships s s' \<Longrightarrow> sets_membership s s' u r (current s u r)"
  by (simp add: sets_membership_def same_memberships_current)

lemma apply_join_cases:
  assumes "cache_wf s" "utf8_valid u" "utf8_valid r" "apply_join dj env s r u ev = (s', res)"
  shows "case res of Inr _ \<Rightarrow> sets_membership s s' u r (Some MJoin)
    | Inl e \<Rightarrow> sets_membership s s' u r (current s u r) \<and> (\<exists>a. e = AccountError a)"
proof -
  let ?s1 = "mark_as_once_joined s u r"
  have s1: "same_memberships s ?s1" "cache_wf ?s1"
    using mark_as_once_joined_same [of s u r] same_memberships_wf assms(1) wf_columns by blast+
  show ?thesis
  proof (cases "once_joined s u r")
    case True
    then show ?thesis using assms mark_as_joined_sets [OF assms(1-3)] by (auto simp: apply_join_def)
  next
    case new: False
    show ?thesis
    proof (cases "user_is_local env u \<and> me_predecessor ev \<noteq> None")
      case False
      then have "(s', res) = (mark_as_joined ?s1 u r, Inr ())"
        using new assms(4) by (auto simp: apply_join_def Let_def split: bool.splits option.splits)
      then show ?thesis
        using same_memberships_sets [OF s1(1) mark_as_joined_sets [OF s1(2) assms(2,3)]] by simp
    next
      case True
      then obtain p where p: "user_is_local env u" "me_predecessor ev = Some p" by blast
      obtain s2 res2 where s2: "copy_from_predecessor dj ?s1 p u r = (s2, res2)" by fastforce
      have same: "same_memberships s s2"
        using same_memberships_trans [OF s1(1)] copy_from_predecessor_same(1) [of ?s1 dj p u r] s2 by simp
      moreover have "columns_ok s2"
        using copy_from_predecessor_same(2) [of dj ?s1 p u r] s2 wf_columns [OF s1(2)] by simp
      ultimately have wf: "cache_wf s2" using same_memberships_wf assms(1) by blast
      show ?thesis
      proof (cases res2)
        case (Inl e)
        moreover have "\<exists>a. e = AccountError a"
          using s2 Inl by (auto simp: copy_from_predecessor_def Let_def split: prod.splits sum.splits)
        ultimately show ?thesis
          using new p s2 assms(4) sets_current [OF wf same] by (auto simp: apply_join_def)
      next
        case (Inr x)
        then have "(s', res) = (mark_as_joined s2 u r, Inr ())"
          using new p s2 assms(4) by (simp add: apply_join_def)
        then show ?thesis using same_memberships_sets [OF same mark_as_joined_sets [OF wf assms(2,3)]] by simp
      qed
    qed
  qed
qed

lemma apply_membership_cases:
  assumes "cache_wf s" "utf8_valid u" "utf8_valid r" "apply_membership dj env s r u ev m = (s', res)"
  shows "case res of Inr _ \<Rightarrow> sets_membership s s' u r (membership_after env s u r m)
    | Inl e \<Rightarrow> sets_membership s s' u r (current s u r) \<and>
        (e = InviteBlocked \<and> m = MInvite \<or> (\<exists>a. e = AccountError a) \<and> m = MJoin)"
proof (cases m)
  case MJoin
  then show ?thesis
    using assms(4) apply_join_cases [OF assms(1-3), of dj env ev s' res]
    by (auto simp: apply_membership_def membership_after_def split: sum.splits)
next
  case MInvite
  let ?text = "if user_is_local env u then me_stripped ev else me_no_state ev"
  show ?thesis
  proof (cases "invite_filter_level (ce_ids env) (ce_globs env) (ce_parsers env) (cs_account s) (me_sender ev) u = FBlock")
    case True
    then show ?thesis
      using MInvite assms(1,4) by (auto simp: apply_membership_def mark_as_invited_def sets_current)
  next
    case False
    have "snd (mark_as_invited env s u r (me_sender ev) ?text None) = Inr ()"
      using False by (simp add: mark_as_invited_def Let_def split: prod.split)
    then show ?thesis
      using MInvite assms(4) mark_as_invited_sets [OF assms(1-3) False, of ?text None]
      by (auto simp: apply_membership_def membership_after_def split: if_splits)
  qed
qed (use assms mark_as_left_sets [OF assms(1-3), of env "me_text ev"] sets_current [of s s] in
      \<open>auto simp: apply_membership_def membership_after_def\<close>)

text \<open>The server tables change only when the members are counted.\<close>

definition same_servers :: "cache_state \<Rightarrow> cache_state \<Rightarrow> bool" where
  "same_servers s s' \<longleftrightarrow> roomserverids s' = roomserverids s \<and> serverroomids s' = serverroomids s"

lemma same_servers_wf: "same_servers s s' \<Longrightarrow> servers_wf env s' = servers_wf env s"
  by (simp add: same_servers_def servers_wf_def)

lemma same_servers_ops:
  "same_servers s (mark_as_joined s u r)" "same_servers s (mark_as_left env s u r body)"
  "same_servers s (mark_as_knocked s u r body)" "same_servers s (forget s r u)"
  "same_servers s (fst (mark_as_invited env s u r sender body via))"
  "same_servers s (fst (apply_membership dj env s r u ev m))"
proof -
  note defs = same_servers_def Let_def
  show j: "same_servers s (mark_as_joined s u r)" for s by (simp add: defs mark_as_joined_def)
  show l: "same_servers s (mark_as_left env s u r body)" for body
    by (simp add: defs mark_as_left_def forget_def split: prod.split)
  show "same_servers s (mark_as_knocked s u r body)" by (simp add: defs mark_as_knocked_def split: prod.split)
  show "same_servers s (forget s r u)" by (simp add: defs forget_def)
  show i: "same_servers s (fst (mark_as_invited env s u r sender body via))" for sender body via
    by (auto simp: defs mark_as_invited_def dest: add_servers_same(3,4) split: prod.splits option.split list.split sum.splits)
  have "same_servers s (fst (apply_join dj env s r u ev))"
    using j by (auto simp: defs apply_join_def mark_as_once_joined_def copy_from_predecessor_def mark_as_joined_def
        split: prod.splits bool.split option.split sum.splits)
  with l i show "same_servers s (fst (apply_membership dj env s r u ev m))"
    by (cases m) (auto simp: apply_membership_def same_servers_def)
qed

lemma update_membership_cases:
  assumes "cache_wf s" "servers_wf env s" "server_law env" "utf8_valid u" "utf8_valid r"
    and "update_membership dj env s r u ev update_count = (s', res)"
  shows "servers_wf env s' \<and>
    (case res of
       Inr _ \<Rightarrow> \<exists>m. me_membership ev = Some m \<and> sets_membership s s' u r (membership_after env s u r m)
     | Inl e \<Rightarrow> sets_membership s s' u r (current s u r) \<and>
         (e = BadContent \<and> me_membership ev = None \<or> e = InviteBlocked \<and> me_membership ev = Some MInvite \<or>
          (\<exists>a. e = AccountError a) \<and> me_membership ev = Some MJoin))"
proof (cases "me_membership ev")
  case None
  then show ?thesis using assms by (auto simp: update_membership_def sets_current)
next
  case (Some m)
  define s0 where "s0 = (if user_is_local env u then s else record_remote_user s u)"
  have s0: "same_memberships s s0" "columns_ok s0" "same_servers s s0"
    using record_remote_user_same [of s u] wf_columns [OF assms(1)]
    by (auto simp: s0_def same_servers_def record_remote_user_def columns_ok_def)
  have wf0: "cache_wf s0" by (rule same_memberships_wf [OF s0(1) assms(1) s0(2)])
  have after: "membership_after env s0 u r m = membership_after env s u r m"
  proof -
    have "forgets env s0 u r = forgets env s u r"
      by (simp add: forgets_def s0_def record_remote_user_def is_banned_def is_disabled_def)
    then show ?thesis using same_memberships_current [OF s0(1)] by (simp add: membership_after_def split: membership_state.split)
  qed
  obtain s1 res1 where s1: "apply_membership dj env s0 r u ev m = (s1, res1)" by fastforce
  have sv: "servers_wf env s1"
    using same_servers_wf s0(3) same_servers_ops(6) [of s0 dj env r u ev m] s1 assms(2) by (metis fst_conv)
  note cases = apply_membership_cases [OF wf0 assms(4,5) s1]
  show ?thesis
  proof (cases res1)
    case (Inl e)
    then have "s' = s1" "res = Inl e" using assms(6) Some s1 by (simp_all add: update_membership_def s0_def [symmetric])
    then show ?thesis
      using cases Inl sv Some same_memberships_sets [OF s0(1)] same_memberships_current [OF s0(1)] by auto
  next
    case (Inr x)
    then have s': "s' = (if update_count then update_joined_count env s1 r else s1)" "res = Inr ()"
      using assms(6) Some s1 by (simp_all add: update_membership_def s0_def [symmetric])
    have sets: "sets_membership s s1 u r (membership_after env s u r m)"
      using cases Inr same_memberships_sets [OF s0(1)] after by simp
    note count = update_joined_count_ok [OF sets_membership_wf [OF sets] assms(5,3) sv]
    show ?thesis
    proof (cases update_count)
      case True
      then show ?thesis
        using s' Some sets_membership_same [OF sets count(2) wf_columns [OF count(1)]] count(3) by simp
    qed (use s' Some sets sv in simp)
  qed
qed

section \<open>Any sequence of operations\<close>

inductive cache_step :: "'j direct_ops \<Rightarrow> cache_env \<Rightarrow> cache_state \<Rightarrow> cache_state \<Rightarrow> bool" for dj env where
  step_joined: "utf8_valid u \<Longrightarrow> utf8_valid r \<Longrightarrow> cache_step dj env s (mark_as_joined s u r)"
| step_left: "utf8_valid u \<Longrightarrow> utf8_valid r \<Longrightarrow> cache_step dj env s (mark_as_left env s u r body)"
| step_knocked: "utf8_valid u \<Longrightarrow> utf8_valid r \<Longrightarrow> cache_step dj env s (mark_as_knocked s u r body)"
| step_invited: "utf8_valid u \<Longrightarrow> utf8_valid r \<Longrightarrow>
    cache_step dj env s (fst (mark_as_invited env s u r sender body invite_via))"
| step_forget: "utf8_valid u \<Longrightarrow> utf8_valid r \<Longrightarrow> cache_step dj env s (forget s r u)"
| step_event: "utf8_valid u \<Longrightarrow> utf8_valid r \<Longrightarrow>
    cache_step dj env s (fst (update_membership dj env s r u ev update_count))"
| step_count: "utf8_valid r \<Longrightarrow> cache_step dj env s (update_joined_count env s r)"
| step_servers: "add_servers_invite_via env s r servers = Inr s' \<Longrightarrow> cache_step dj env s s'"
| step_appservice: "cache_step dj env s (fst (appservice_in_room env s r reg bridge is_match))"
| step_ban: "cache_step dj env s (ban_room s r banned)"
| step_disable: "cache_step dj env s (disable_room s r disabled)"

inductive_cases cache_stepE: "cache_step dj env s s'"

lemma quiet_step:
  assumes "same_memberships s s'" "columns_ok s' = columns_ok s" "same_servers s s'" "cache_wf s \<and> servers_wf env s"
  shows "cache_wf s' \<and> servers_wf env s'"
  using assms same_memberships_wf [OF assms(1)] same_servers_wf [OF assms(3)] wf_columns by blast

lemma cache_step_inv:
  assumes "cache_step dj env s s'" "server_law env" and inv: "cache_wf s \<and> servers_wf env s"
  shows "cache_wf s' \<and> servers_wf env s'"
  using assms(1)
proof cases
  case (step_joined u r)
  then show ?thesis using inv sets_membership_wf [OF mark_as_joined_sets] same_servers_wf [OF same_servers_ops(1)] by blast
next
  case (step_left u r body)
  then show ?thesis using inv sets_membership_wf [OF mark_as_left_sets] same_servers_wf [OF same_servers_ops(2)] by blast
next
  case (step_knocked u r body)
  then show ?thesis using inv sets_membership_wf [OF mark_as_knocked_sets] same_servers_wf [OF same_servers_ops(3)] by blast
next
  case (step_invited u r sender body invite_via)
  then show ?thesis
  proof (cases "invite_filter_level (ce_ids env) (ce_globs env) (ce_parsers env) (cs_account s) sender u = FBlock")
    case True
    then show ?thesis using inv step_invited by (simp add: mark_as_invited_blocked)
  next
    case False
    then show ?thesis
      using inv step_invited sets_membership_wf [OF mark_as_invited_sets] same_servers_wf [OF same_servers_ops(5)] by blast
  qed
next
  case (step_forget u r)
  then show ?thesis using inv sets_membership_wf [OF forget_sets] same_servers_wf [OF same_servers_ops(4)] by blast
next
  case (step_event u r ev update_count)
  obtain s1 res where s1: "update_membership dj env s r u ev update_count = (s1, res)" by fastforce
  then show ?thesis
    using update_membership_cases [OF _ _ assms(2) step_event(2,3) s1] inv step_event(1) sets_membership_wf
    by (auto split: sum.splits)
next
  case (step_count r)
  then show ?thesis using inv update_joined_count_ok(1,3) [OF _ _ assms(2)] by blast
next
  case (step_servers r servers)
  show ?thesis
    by (rule quiet_step [OF _ _ _ inv]) (use add_servers_same [OF step_servers] in \<open>simp_all add: same_servers_def\<close>)
next
  case (step_appservice r reg bridge is_match)
  show ?thesis
    by (rule quiet_step [OF _ _ _ inv])
      (simp_all add: step_appservice appservice_in_room_def Let_def same_memberships_def columns_ok_def same_servers_def split: option.split)
next
  case (step_ban r banned)
  show ?thesis
    by (rule quiet_step [OF _ _ _ inv])
      (simp_all add: step_ban ban_room_def same_memberships_def columns_ok_def same_servers_def)
next
  case (step_disable r disabled)
  show ?thesis
    by (rule quiet_step [OF _ _ _ inv])
      (simp_all add: step_disable disable_room_def same_memberships_def columns_ok_def same_servers_def)
qed

lemma cache_reachable:
  assumes "(cache_step dj env)\<^sup>*\<^sup>* s s'" "server_law env" "cache_wf s" "servers_wf env s"
  shows "cache_wf s' \<and> servers_wf env s'"
  using assms(1)
proof (induction rule: rtranclp_induct)
  case (step t t')
  then show ?case using cache_step_inv [OF step(2) assms(2)] by blast
qed (use assms(3,4) in simp)

section \<open>What the lookups report\<close>

lemma user_membership_current:
  assumes "cache_wf s" "sep_free u" "sep_free r"
  shows "user_membership s u r =
    (case current s u r of Some m \<Rightarrow> Some m | None \<Rightarrow> if once_joined s u r then Some MBan else None)"
  using assms by (auto simp: user_membership_def current_def cache_wf_def exclusive_def)

text \<open>The table of past members is written by user and read by room.\<close>

lemma room_useroncejoined_by_room:
  assumes "kv_sorted (roomuseroncejoinedids s)" "rows_ok (roomuseroncejoinedids s)" "utf8_valid r"
  shows "set (room_useroncejoined env s r) = {u. utf8_valid u \<and> user_valid (ce_ids env) u \<and> once_joined s r u}"
  unfolding room_useroncejoined_def second_ids_set [OF assms] by (auto simp: once_joined_def)

lemma second_id_sep_free:
  assumes "sep_free k"
  shows "second_id valid k = None"
proof -
  let ?st = "record_start (sequence_start \<lparr>de_pos = 0, de_rec = 0, de_seq = False\<rparr>)"
  have seq: "de_seq ?st" by (simp add: record_start_def sequence_start_def inc_pos_def inc_rec_def)
  have "takeWhile (\<lambda>b. b \<noteq> SEP) k = k" using assms takeWhile_record [of k "[]"] by (simp only: sep_free_def) simp
  moreover have "de_pos ?st = 0" by simp
  ultimately have "record_next k ?st = Inr (k, inc_pos (length k) ?st)"
    unfolding record_next_def slice_def Let_def by (simp only: drop_0 diff_zero take_all le_refl if_True res_bind.simps simp_thms zero_le)
  then have "from_slice (TTuple [TIgnore, TStr]) k = Inl (InvalidLength (if k = [] then 0 else 1))"
    using seq by (simp add: from_slice_def next_element_def record_ignore_def inc_pos_def)
  then show ?thesis by (simp add: second_id_def)
qed

text \<open>\<open>rooms_joined\<close> scans for the bare user id, so it also finds the rows of users whose id it begins.\<close>

lemma rooms_joined_extended:
  assumes "cache_wf s"
  shows "set (rooms_joined env s u) =
    {r. utf8_valid r \<and> room_valid (ce_ids env) r \<and> (\<exists>u'. utf8_valid u' \<and> starts_with (pair_key u' r) u \<and> is_joined s u' r)}"
proof -
  note cols = columns_okD [OF wf_columns [OF assms]]
  have "(\<exists>k. starts_with k u \<and> kv_get (userroomid_joined s) k \<noteq> None \<and> second_id (room_valid (ce_ids env)) k = Some r) \<longleftrightarrow>
      utf8_valid r \<and> room_valid (ce_ids env) r \<and> (\<exists>u'. utf8_valid u' \<and> starts_with (pair_key u' r) u \<and> is_joined s u' r)" for r
  proof
    assume "\<exists>k. starts_with k u \<and> kv_get (userroomid_joined s) k \<noteq> None \<and> second_id (room_valid (ce_ids env)) k = Some r"
    then obtain k where k: "starts_with k u" "kv_get (userroomid_joined s) k \<noteq> None" "second_id (room_valid (ce_ids env)) k = Some r"
      by blast
    then have "\<not> sep_free k" using second_id_sep_free by fastforce
    with k(2) cols(15) obtain u' r' where u': "utf8_valid u'" "utf8_valid r'" "k = pair_key u' r'" unfolding rows_ok_def by blast
    moreover have "r' = r \<and> room_valid (ce_ids env) r" using k(3) u' by (simp add: second_id_pair split: if_splits)
    ultimately show "utf8_valid r \<and> room_valid (ce_ids env) r \<and> (\<exists>u'. utf8_valid u' \<and> starts_with (pair_key u' r) u \<and> is_joined s u' r)"
      using k(1,2) by (auto simp: is_joined_def present_def)
  next
    assume "utf8_valid r \<and> room_valid (ce_ids env) r \<and> (\<exists>u'. utf8_valid u' \<and> starts_with (pair_key u' r) u \<and> is_joined s u' r)"
    then obtain u' where "utf8_valid r" "room_valid (ce_ids env) r" "utf8_valid u'" "starts_with (pair_key u' r) u" "is_joined s u' r"
      by blast
    then show "\<exists>k. starts_with k u \<and> kv_get (userroomid_joined s) k \<noteq> None \<and> second_id (room_valid (ce_ids env)) k = Some r"
      by (intro exI [of _ "pair_key u' r"]) (simp add: is_joined_def present_def second_id_pair)
  qed
  then show ?thesis
    unfolding rooms_joined_def second_ids_def map_filter_set set_keys_prefix [OF cols(1)] by auto
qed

lemma starts_with_pair:
  assumes "sep_free u"
  shows "starts_with (pair_key u' r) u \<longleftrightarrow> starts_with u' u"
proof
  assume "starts_with (pair_key u' r) u"
  then obtain z where z: "u' @ SEP # r = u @ z" by (auto simp: starts_with_iff pair_key_bytes)
  then consider us where "u' @ us = u" "SEP # r = us @ z" | us where "u' = u @ us"
    by (auto simp: append_eq_append_conv2)
  then show "starts_with u' u"
  proof cases
    case 1
    then have "us = []" using assms by (cases us) (auto simp: sep_free_def)
    with 1 show ?thesis by (simp add: starts_with_def)
  qed (auto simp: starts_with_iff)
qed (auto simp: starts_with_iff pair_key_bytes)

definition unextended :: "cache_state \<Rightarrow> ident \<Rightarrow> bool" where
  "unextended s u \<longleftrightarrow> (\<forall>u' r. utf8_valid u' \<and> utf8_valid r \<and> is_joined s u' r \<and> starts_with u' u \<longrightarrow> u' = u)"

lemma rooms_joined_row:
  assumes "cache_wf s" "unextended s u" "utf8_valid u" "k \<in> set (kv_keys_prefix (userroomid_joined s) u)"
    and "second_id valid k = Some r"
  shows "k = pair_key u r \<and> utf8_valid r \<and> valid r \<and> is_joined s u r"
proof -
  note cols = columns_okD [OF wf_columns [OF assms(1)]]
  have k: "starts_with k u" "kv_get (userroomid_joined s) k \<noteq> None"
    using assms(4) set_keys_prefix [OF cols(1)] by auto
  have "\<not> sep_free k" using assms(5) second_id_sep_free by fastforce
  with k(2) cols(15) obtain u' r' where u': "utf8_valid u'" "utf8_valid r'" "k = pair_key u' r'" unfolding rows_ok_def by blast
  then have "r' = r \<and> valid r" using assms(5) by (simp add: second_id_pair split: if_splits)
  moreover have "is_joined s u' r'" using k(2) u'(3) by (simp add: is_joined_def present_def)
  moreover from this have "u' = u"
    using assms(2,3) u' k(1) starts_with_pair [of u u' r'] by (auto simp: unextended_def)
  ultimately show ?thesis using u' by simp
qed

lemma rooms_joined_sorted:
  assumes "cache_wf s" "unextended s u" "utf8_valid u"
  shows "sorted_wrt (<) (rooms_joined env s u)"
  unfolding rooms_joined_def second_ids_def
proof (rule map_filter_sorted [OF sorted_keys_prefix [OF columns_okD(1) [OF wf_columns [OF assms(1)]]]])
  fix x y a b
  assume "x \<in> set (kv_keys_prefix (userroomid_joined s) u)" "y \<in> set (kv_keys_prefix (userroomid_joined s) u)" "x < y"
    "second_id (room_valid (ce_ids env)) x = Some a" "second_id (room_valid (ce_ids env)) y = Some b"
  then show "a < b" using rooms_joined_row [OF assms] by (metis pair_key_less)
qed

lemma rooms_joined_own:
  assumes "cache_wf s" "unextended s u" "utf8_valid u"
  shows "set (rooms_joined env s u) = {r. utf8_valid r \<and> room_valid (ce_ids env) r \<and> is_joined s u r}"
proof -
  have "starts_with (pair_key u r) u" for r by (simp add: starts_with_iff pair_key_bytes)
  moreover have "u' = u" if "utf8_valid u'" "utf8_valid r" "starts_with (pair_key u' r) u" "is_joined s u' r" for u' r
    using assms(2,3) that starts_with_pair [of u u' r] by (auto simp: unextended_def)
  ultimately show ?thesis unfolding rooms_joined_extended [OF assms(1)] using assms(3) by blast
qed

section \<open>Example states\<close>

definition demo_ids :: ruma_ids where
  "demo_ids = \<lparr>user_valid = utf8_valid, room_valid = utf8_valid, server_valid = utf8_valid, server_of = (\<lambda>u. filter (\<lambda>b. byte_in 0 127 b) u)\<rparr>"

definition demo_env :: cache_env where
  "demo_env = \<lparr>ce_ids = demo_ids, ce_globs = \<lparr>wild_matches = (=), host_of = id\<rparr>,
     ce_parsers = \<lparr>parse_ignored = \<lambda>_. None, parse_invite_config = \<lambda>_. None, ignored_kind = [1],
       invite_config_kind = [2], unstable_invite_config_kind = [3]\<rparr>, ce_server_name = [],
     forget_forced_upon_leave = False\<rparr>"

definition demo_direct :: "unit direct_ops" where
  "demo_direct = \<lparr>dj_json = \<lparr>json_get = (\<lambda>_ _. None), json_text = (\<lambda>_. [])\<rparr>, dj_parse = (\<lambda>_. None),
     dj_direct = (\<lambda>_. None), dj_print_direct = (\<lambda>_. ()), tag_kind = [4], direct_kind = [5]\<rparr>"

definition cache_init :: cache_state where
  "cache_init = \<lparr>cs_globals = short_init, cs_account = \<lparr>roomuserdataid_accountdata = [], roomusertype_roomuserdataid = []\<rparr>,
     remoteuserid_remoteuser = [], bannedroomids = [], disabledroomids = [], roomid_invitedcount = [],
     roomid_inviteviaservers = [], roomid_joinedcount = [], roomserverids = [], roomuserid_invitecount = [],
     roomuserid_joined = [], roomuserid_leftcount = [], roomuserid_knockedcount = [], roomuseroncejoinedids = [],
     serverroomids = [], userroomid_invitestate = [], userroomid_joined = [], userroomid_leftstate = [],
     userroomid_knockedstate = [], userroomid_invitesender = [], appservice_in_room_cache = Map.empty\<rparr>"

lemma cache_init_ok: "cache_wf cache_init" "servers_wf env cache_init"
  by (simp_all add: cache_wf_def columns_ok_def kv_sorted_def rows_ok_def membership_views present_def kv_get_def
      servers_wf_def cache_init_def)

lemma demo_law: "server_law demo_env"
  by (auto simp: server_law_def demo_env_def demo_ids_def intro: utf8_ascii)

lemma joined_after:
  assumes "utf8_valid u" "utf8_valid r" "sep_free u'"
  shows "is_joined (mark_as_joined cache_init u r) u' r' \<longleftrightarrow> u' = u \<and> r' = r"
  using assms present_insert [of "[]" u u' r "()" r']
  by (simp add: is_joined_def mark_as_joined_def cache_init_def kv_sorted_def present_def kv_get_def Let_def)

section \<open>Properties\<close>



text \<open>C24: over any sequence of operations of the service, no user has two memberships in a room, the
  tables by user and by room agree, and so do the two tables of servers; the list of joined members of a
  room is exactly the users who are joined, each once.\<close>

theorem memberships_consistent:
  assumes "(cache_step dj env)\<^sup>*\<^sup>* s s'" "server_law env" "cache_wf s" "servers_wf env s"
    and "utf8_valid r"
  shows "(\<forall>u. utf8_valid u \<longrightarrow> agree s' u r \<and> exclusive s' u r) \<and>
    distinct (room_members env s' r) \<and>
    set (room_members env s' r) = {u. utf8_valid u \<and> user_valid (ce_ids env) u \<and> is_joined s' u r} \<and>
    (\<forall>x. utf8_valid x \<longrightarrow> server_in_room s' x r = (x \<in> set (room_servers env s' r)))"
proof -
  have wf: "cache_wf s'" "servers_wf env s'" using cache_reachable [OF assms(1-4)] by simp_all
  have "server_in_room s' x r = (x \<in> set (room_servers env s' r))" if "utf8_valid x" for x
    using that servers_wf_tables [OF wf(2), of r x] servers_wfD [OF wf(2), of r x] assms(5)
    unfolding server_in_room_def room_servers_set(1) [OF wf_columns [OF wf(1)] assms(5)] by auto
  moreover have "agree s' u r \<and> exclusive s' u r" if "utf8_valid u" for u
    using wf(1) that assms(5) unfolding cache_wf_def by simp
  ultimately show ?thesis using room_members_set [OF wf(1) assms(5), of env] by (simp add: members_def)
qed

theorem memberships_consistent_witness:
  "[64] \<in> set (room_members demo_env (mark_as_joined cache_init [64] [33]) [33])"
proof -
  have utf8: "utf8_valid [64]" "utf8_valid [33]" by (simp_all add: byte_in_def)
  have steps: "(cache_step dj demo_env)\<^sup>*\<^sup>* cache_init (mark_as_joined cache_init [64] [33])" for dj :: "unit direct_ops"
    by (rule r_into_rtranclp) (rule step_joined [OF utf8])
  show ?thesis
    using memberships_consistent [OF steps demo_law cache_init_ok utf8(2)] utf8 joined_after [OF utf8]
    by (simp add: demo_env_def demo_ids_def)
qed

text \<open>C33: counting the members of a room stores the number of joined users (up to the greatest \<open>u64\<close>),
  makes the servers of the room exactly the servers of those users, and changes no membership.\<close>

theorem joined_count_correct:
  assumes "cache_wf s" "utf8_valid r" "server_law env" "servers_wf env s"
  shows "map_option unat (room_joined_count (update_joined_count env s r) r) =
      Some (min (card {u. utf8_valid u \<and> user_valid (ce_ids env) u \<and> is_joined s u r}) u64_max) \<and>
    set (room_servers env (update_joined_count env s r) r) =
      server_of (ce_ids env) ` {u. utf8_valid u \<and> user_valid (ce_ids env) u \<and> is_joined s u r} \<and>
    (\<forall>u' r'. current (update_joined_count env s r) u' r' = current s u' r')"
  using update_joined_count_ok [OF assms] same_memberships_current unfolding members_def by blast

theorem joined_count_correct_witness:
  "map_option unat (room_joined_count (update_joined_count demo_env (mark_as_joined cache_init [64] [33]) [33]) [33]) = Some 1"
proof -
  let ?s = "mark_as_joined cache_init [64] [33]"
  have utf8: "utf8_valid [64]" "utf8_valid [33]" by (simp_all add: byte_in_def)
  have wf: "cache_wf ?s" by (rule sets_membership_wf [OF mark_as_joined_sets [OF cache_init_ok(1) utf8]])
  have sv: "servers_wf demo_env ?s" using same_servers_wf [OF same_servers_ops(1)] cache_init_ok(2) by blast
  have "{u. utf8_valid u \<and> user_valid (ce_ids demo_env) u \<and> is_joined ?s u [33]} = {[64]}"
    using joined_after [OF utf8] utf8 by (auto simp: demo_env_def demo_ids_def)
  with joined_count_correct [OF wf utf8(2) demo_law sv] show ?thesis by simp
qed

text \<open>C34: the rooms a user has joined. The lookup returns the rooms of every user whose id begins with the
  given one, since the scan uses the bare id. When no other such user is joined anywhere it returns
  exactly the rooms of this user, and the rooms two users share are found exactly.\<close>

theorem rooms_joined_exact:
  assumes "cache_wf s" "utf8_valid u" "utf8_valid v"
  shows "set (rooms_joined env s u) =
      {r. utf8_valid r \<and> room_valid (ce_ids env) r \<and> (\<exists>u'. utf8_valid u' \<and> starts_with u' u \<and> is_joined s u' r)} \<and>
    (unextended s u \<and> unextended s v \<longrightarrow>
       set (rooms_joined env s u) = {r. utf8_valid r \<and> room_valid (ce_ids env) r \<and> is_joined s u r} \<and>
       set (get_shared_rooms env s u v) =
         {r. utf8_valid r \<and> room_valid (ce_ids env) r \<and> is_joined s u r \<and> is_joined s v r})"
proof -
  have "set (get_shared_rooms env s u v) =
      {r. utf8_valid r \<and> room_valid (ce_ids env) r \<and> is_joined s u r \<and> is_joined s v r}"
    if "unextended s u" "unextended s v"
    unfolding get_shared_rooms_def
      intersection_sorted_stream2_filter [OF rooms_joined_sorted [OF assms(1) that(1) assms(2)] rooms_joined_sorted [OF assms(1) that(2) assms(3)]]
    using rooms_joined_own [OF assms(1) that(1) assms(2), of env] rooms_joined_own [OF assms(1) that(2) assms(3), of env] by auto
  moreover have "set (rooms_joined env s u) =
      {r. utf8_valid r \<and> room_valid (ce_ids env) r \<and> (\<exists>u'. utf8_valid u' \<and> starts_with u' u \<and> is_joined s u' r)}"
    using rooms_joined_extended [OF assms(1), of env u] assms(2) by (simp add: starts_with_pair)
  ultimately show ?thesis using rooms_joined_own [OF assms(1) _ assms(2), of env] by blast
qed

theorem rooms_joined_exact_witness:
  "[33] \<in> set (rooms_joined demo_env (mark_as_joined cache_init [64, 97] [33]) [64])"
proof -
  have utf8: "utf8_valid [64, 97]" "utf8_valid [64]" "utf8_valid [33]" by (simp_all add: byte_in_def)
  have "cache_wf (mark_as_joined cache_init [64, 97] [33])"
    by (rule sets_membership_wf [OF mark_as_joined_sets [OF cache_init_ok(1) utf8(1,3)]])
  from rooms_joined_exact [OF this utf8(2,2), THEN conjunct1, of demo_env]
  have "[33] \<in> set (rooms_joined demo_env (mark_as_joined cache_init [64, 97] [33]) [64]) \<longleftrightarrow>
      (\<exists>u'. utf8_valid u' \<and> starts_with u' [64] \<and> is_joined (mark_as_joined cache_init [64, 97] [33]) u' [33])"
    using utf8(3) by (simp add: demo_env_def demo_ids_def)
  moreover have "starts_with [64, 97 :: byte] [64]" by (simp add: starts_with_def)
  moreover have "is_joined (mark_as_joined cache_init [64, 97] [33]) [64, 97] [33]"
    using joined_after [OF utf8(1,3)] utf8(1) by simp
  ultimately show ?thesis using utf8(1) by blast
qed

end
