(* ===== verification/Transactions.thy ===== *)
theory Transactions
  imports Account_Data
begin

text \<open>
  Transactions of other servers and of clients: \<open>src/service/transactions/mod.rs\<close> and the handler
  \<open>send_transaction_message_route\<close> of \<open>src/api/server/send.rs\<close> with the task it starts.

  The service keeps a table from transactions to their state: being processed, or answered and cached.
  A request joins the transaction that is being processed, takes the cached answer or starts a task.
  Several requests and tasks run at once: each section under the lock of the table, each access of the
  atomic \<open>last_cleanup\<close> and each sending is one step, and steps of different tasks interleave freely. The watch
  channels of tokio are a parameter: the model records the calls made on them, and a function tells what
  a receiver gets after these calls. The answers to the events inside a transaction are arbitrary.
  A hash map is an association list in its iteration order. Times are nanoseconds since 1970.
\<close>

section \<open>The service\<close>

datatype transaction_error = ShuttingDown | Unexpected

type_synonym txn_key = "ident \<times> ident"
type_synonym chan = nat
type_synonym 'r wrapped = "(transaction_error + 'r) option"

record 'r cached_txn_response =
  response :: 'r
  created :: int

datatype 'r txn_state = Active chan | Cached "'r cached_txn_response"

datatype 'r federation_txn_state = TxnCached 'r | TxnActive chan | TxnStarted chan

datatype txn_limit = StillProcessing | Overloaded

record txn_config =
  max_concurrent_inbound_transactions :: nat
  transaction_id_cache_max_age_secs :: u64
  transaction_id_cache_max_entries :: nat

type_synonym 'r txn_table = "(txn_key \<times> 'r txn_state) list"

record 'r txn_service =
  federation_txn_state :: "'r txn_table"
  last_cleanup :: u64

fun is_active :: "'r txn_state \<Rightarrow> bool" where
  "is_active (Active _) = True"
| "is_active (Cached _) = False"

definition clear_cache :: "'r txn_service \<Rightarrow> 'r txn_service" where
  "clear_cache s = s\<lparr>federation_txn_state := filter (\<lambda>(_, v). is_active v) (federation_txn_state s)\<rparr>"

definition active_count :: "'r txn_table \<Rightarrow> nat" where
  "active_count st = length (filter (\<lambda>(_, v). is_active v) st)"

definition txn_active_handle_count :: "'r txn_service \<Rightarrow> nat" where
  "txn_active_handle_count s = active_count (federation_txn_state s)"

text \<open>The channel that \<open>tokio::sync::watch::channel\<close> returns is the argument \<open>ch\<close>.\<close>

definition get_or_start_federation_txn ::
    "txn_config \<Rightarrow> chan \<Rightarrow> txn_key \<Rightarrow> 'r txn_service \<Rightarrow> (txn_limit + 'r federation_txn_state) \<times> 'r txn_service" where
  "get_or_start_federation_txn cfg ch key s =
     (let state = federation_txn_state s; max_active_txns = max_concurrent_inbound_transactions cfg in
      case map_of state key of
        Some (Cached cached) \<Rightarrow> (Inr (TxnCached (response cached)), s)
      | Some (Active receiver) \<Rightarrow> (Inr (TxnActive receiver), s)
      | None \<Rightarrow>
          if list_ex (\<lambda>(k, v). fst k = fst key \<and> is_active v) state then (Inl StillProcessing, s)
          else if length state \<ge> max_active_txns \<and> active_count state \<ge> max_active_txns then (Inl Overloaded, s)
          else (Inr (TxnStarted ch), s\<lparr>federation_txn_state := al_insert key (Active ch) state\<rparr>))"

definition remove_federation_txn :: "txn_key \<Rightarrow> 'r txn_service \<Rightarrow> 'r txn_service" where
  "remove_federation_txn key s = s\<lparr>federation_txn_state := al_remove key (federation_txn_state s)\<rparr>"

subsection \<open>Cleaning up\<close>

definition CLEANUP_INTERVAL_SECS :: u64 where
  "CLEANUP_INTERVAL_SECS = 30"

abbreviation nanos :: int where "nanos \<equiv> 1000000000"

text \<open>Seconds since 1970; \<open>None\<close> for the \<open>expect\<close> that fails when the clock is before.\<close>

definition epoch_secs :: "int \<Rightarrow> u64 option" where
  "epoch_secs now = (if now < 0 then None else Some (word_of_int (now div nanos)))"

text \<open>\<open>should_try_cleanup\<close> reads the clock and \<open>last_cleanup\<close>, and then exchanges it; another task may
  come in between.\<close>

definition should_try_cleanup_load :: "int \<Rightarrow> 'r txn_service \<Rightarrow> (u64 \<times> u64) option option" where
  "should_try_cleanup_load now s =
     (case epoch_secs now of
        None \<Rightarrow> None
      | Some now \<Rightarrow>
          let previous = last_cleanup s in
          Some (if saturating_sub_u64 now previous \<ge> CLEANUP_INTERVAL_SECS then Some (previous, now) else None))"

definition should_try_cleanup_exchange :: "(u64 \<times> u64) option \<Rightarrow> 'r txn_service \<Rightarrow> bool \<times> 'r txn_service" where
  "should_try_cleanup_exchange due s =
     (case due of
        None \<Rightarrow> (False, s)
      | Some (previous, now) \<Rightarrow> if last_cleanup s = previous then (True, s\<lparr>last_cleanup := now\<rparr>) else (False, s))"

text \<open>\<open>SystemTime::checked_sub\<close>: the seconds of a time are an \<open>i64\<close>.\<close>

definition checked_sub_time :: "int \<Rightarrow> u64 \<Rightarrow> int option" where
  "checked_sub_time t secs = (if t div nanos - uint secs < i64_min then None else Some (t - uint secs * nanos))"

fun cached_since :: "'r txn_state \<Rightarrow> int option" where
  "cached_since (Cached cached) = Some (created cached)"
| "cached_since (Active _) = None"

definition cutoff_time :: "txn_config \<Rightarrow> int \<Rightarrow> int" where
  "cutoff_time cfg now =
     (case checked_sub_time now (transaction_id_cache_max_age_secs cfg) of None \<Rightarrow> 0 | Some t \<Rightarrow> t)"

definition retain_recent :: "int \<Rightarrow> 'r txn_table \<Rightarrow> 'r txn_table" where
  "retain_recent cutoff st = filter (\<lambda>(_, v). case v of Active _ \<Rightarrow> True | Cached cached \<Rightarrow> created cached > cutoff) st"

definition cached_entries :: "'r txn_table \<Rightarrow> (txn_key \<times> int) list" where
  "cached_entries st = List.map_filter (\<lambda>(k, v). map_option (\<lambda>t. (k, t)) (cached_since v)) st"

definition cleanup_entries_locked :: "txn_config \<Rightarrow> int \<Rightarrow> 'r txn_table \<Rightarrow> 'r txn_table" where
  "cleanup_entries_locked cfg now st =
     (let max_entries = transaction_id_cache_max_entries cfg;
          state = retain_recent (cutoff_time cfg now) st;
          cached_count = length (filter (\<lambda>(_, v). \<not> is_active v) state)
      in if cached_count > max_entries then
           let excess = cached_count - max_entries;
               oldest = take excess (sort_key snd (cached_entries state))
           in fold (\<lambda>(key, _) st. al_remove key st) oldest state
         else state)"

text \<open>The part of \<open>finish_federation_txn\<close> under the lock; the clock is read twice.\<close>

definition finish_federation_txn ::
    "txn_config \<Rightarrow> txn_key \<Rightarrow> 'r \<Rightarrow> bool \<Rightarrow> int \<Rightarrow> int \<Rightarrow> 'r txn_service \<Rightarrow> 'r txn_service" where
  "finish_federation_txn cfg key resp should_try_cleanup now later s =
     (let state = al_insert key (Cached \<lparr>response = resp, created = now\<rparr>) (federation_txn_state s) in
      s\<lparr>federation_txn_state := if should_try_cleanup then cleanup_entries_locked cfg later state else state\<rparr>)"

section \<open>Transactions of clients\<close>

text \<open>The key is written byte by byte and read as a tuple of records.\<close>

definition add_client_txnid :: "ident \<Rightarrow> ident option \<Rightarrow> ident \<Rightarrow> byte list \<Rightarrow> byte list column \<Rightarrow> byte list column" where
  "add_client_txnid user_id device_id txn_id data m =
     kv_insert (user_id @ [255] @ (case device_id of None \<Rightarrow> [] | Some d \<Rightarrow> d) @ [255] @ txn_id) data m"

definition get_client_txn :: "byte list column \<Rightarrow> ident \<Rightarrow> ident option \<Rightarrow> ident \<Rightarrow> byte list option" where
  "get_client_txn m user_id device_id txn_id =
     kv_get m (key_of (VTuple [VStr user_id, opt_str device_id, VStr txn_id]))"

section \<open>The handler and its tasks\<close>

datatype txn_failure =
    NotOrigin | TooManyPdus | TooManyEdus | LimitReached txn_limit | TimedOut
  | ShuttingDownRetry | InternalError | ProcessingFailed

definition PDU_LIMIT :: nat where
  "PDU_LIMIT = 50"

definition EDU_LIMIT :: nat where
  "EDU_LIMIT = 100"

text \<open>A request: who signed it, who it says sent it, its number of events, its transaction.\<close>

record txn_request =
  req_identity :: ident
  req_origin :: ident
  req_pdus :: nat
  req_edus :: nat
  req_transaction_id :: ident

definition txn_key_of :: "txn_request \<Rightarrow> txn_key" where
  "txn_key_of body = (req_identity body, req_transaction_id body)"

text \<open>The handler up to the point where it waits.\<close>

definition send_transaction_message_route ::
    "txn_config \<Rightarrow> chan \<Rightarrow> txn_request \<Rightarrow> 'r txn_service \<Rightarrow> (txn_failure + 'r federation_txn_state) \<times> 'r txn_service" where
  "send_transaction_message_route cfg ch body s =
     (if req_identity body \<noteq> req_origin body then (Inl NotOrigin, s)
      else if req_pdus body > PDU_LIMIT then (Inl TooManyPdus, s)
      else if req_edus body > EDU_LIMIT then (Inl TooManyEdus, s)
      else
        let (r, s) = get_or_start_federation_txn cfg ch (txn_key_of body) s in
        (case r of Inl e \<Rightarrow> Inl (LimitReached e) | Inr t \<Rightarrow> Inr t, s))"

fun transaction_error_to_response :: "transaction_error \<Rightarrow> txn_failure" where
  "transaction_error_to_response ShuttingDown = ShuttingDownRetry"
| "transaction_error_to_response Unexpected = InternalError"

text \<open>What the waiting request answers: \<open>None\<close> stands for the timeout, and otherwise the value that is in the
  channel when \<open>changed\<close> returns.\<close>

fun wait_for_result :: "'r wrapped option \<Rightarrow> txn_failure + 'r" where
  "wait_for_result None = Inl TimedOut"
| "wait_for_result (Some (Some (Inr resp))) = Inr resp"
| "wait_for_result (Some (Some (Inl e))) = Inl (transaction_error_to_response e)"
| "wait_for_result (Some None) = Inl ProcessingFailed"

text \<open>The calls on the sending half of a channel.\<close>

datatype 'r watch_call = WSend chan "'r wrapped" | WDrop chan

text \<open>Where \<open>process_inbound_transaction\<close> is: handling the events; after \<open>fail_federation_txn\<close> has removed the
  entry; after it has read \<open>last_cleanup\<close>; about to finish; done.\<close>

datatype 'r txn_task =
    Handling txn_key
  | Failing txn_key transaction_error
  | Deciding txn_key 'r "(u64 \<times> u64) option"
  | Finishing txn_key 'r bool
  | Ended txn_key

datatype 'r request_state = Waiting txn_key chan | Answered txn_key "txn_failure + 'r" | Refused txn_failure

text \<open>The channel of a task is its position in the list of tasks.\<close>

record 'r txn_system =
  sys_service :: "'r txn_service"
  sys_tasks :: "'r txn_task list"
  sys_requests :: "'r request_state list"
  sys_watch :: "'r watch_call list"

definition receive_request :: "txn_config \<Rightarrow> txn_request \<Rightarrow> 'r txn_system \<Rightarrow> 'r txn_system" where
  "receive_request cfg body s =
     (let ch = length (sys_tasks s); key = txn_key_of body;
          (r, svc) = send_transaction_message_route cfg ch body (sys_service s);
          s = s\<lparr>sys_service := svc\<rparr>
      in case r of
           Inl e \<Rightarrow> s\<lparr>sys_requests := sys_requests s @ [Refused e]\<rparr>
         | Inr (TxnCached resp) \<Rightarrow> s\<lparr>sys_requests := sys_requests s @ [Answered key (Inr resp)]\<rparr>
         | Inr (TxnActive c) \<Rightarrow> s\<lparr>sys_requests := sys_requests s @ [Waiting key c]\<rparr>
         | Inr (TxnStarted c) \<Rightarrow> s\<lparr>sys_requests := sys_requests s @ [Waiting key c], sys_tasks := sys_tasks s @ [Handling key]\<rparr>)"

text \<open>The steps of one task. \<open>handle\<close> may return the results, an error, or panic, which is an error too.\<close>

inductive task_step :: "txn_config \<Rightarrow> (int \<Rightarrow> bool) \<Rightarrow> chan \<Rightarrow>
    'r txn_task \<Rightarrow> 'r txn_service \<Rightarrow> 'r txn_task \<Rightarrow> 'r txn_service \<Rightarrow> 'r watch_call list \<Rightarrow> bool" for cfg clock c where
  task_fails: "task_step cfg clock c (Handling key) svc (Failing key e) (remove_federation_txn key svc) []"
| task_reports: "task_step cfg clock c (Failing key e) svc (Ended key) svc [WSend c (Some (Inl e)), WDrop c]"
| task_handled: "clock now \<Longrightarrow> should_try_cleanup_load now svc = Some due \<Longrightarrow>
    task_step cfg clock c (Handling key) svc (Deciding key resp due) svc []"
| task_panics: "clock now \<Longrightarrow> should_try_cleanup_load now svc = None \<Longrightarrow>
    task_step cfg clock c (Handling key) svc (Ended key) svc [WDrop c]"
| task_decides: "should_try_cleanup_exchange due svc = (b, svc') \<Longrightarrow>
    task_step cfg clock c (Deciding key resp due) svc (Finishing key resp b) svc' []"
| task_finishes: "clock now \<Longrightarrow> clock later \<Longrightarrow>
    task_step cfg clock c (Finishing key resp b) svc (Ended key) (finish_federation_txn cfg key resp b now later svc)
      [WSend c (Some (Inr resp)), WDrop c]"

inductive_cases task_stepE: "task_step cfg clock c t svc t' svc' calls"

text \<open>The work that is under way: a task takes a step, or a waiting request gets a value. \<open>watch\<close> tells what
  a receiver that has seen nothing yet gets after the calls on the channel, if it gets anything.\<close>

inductive work_step :: "txn_config \<Rightarrow> (int \<Rightarrow> bool) \<Rightarrow> ('r watch_call list \<Rightarrow> chan \<Rightarrow> 'r wrapped option) \<Rightarrow>
    'r txn_system \<Rightarrow> 'r txn_system \<Rightarrow> bool" for cfg clock watch where
  work_task: "c < length (sys_tasks s) \<Longrightarrow> task_step cfg clock c (sys_tasks s ! c) (sys_service s) t svc calls \<Longrightarrow>
    work_step cfg clock watch s
      (s\<lparr>sys_service := svc, sys_tasks := (sys_tasks s)[c := t], sys_watch := sys_watch s @ calls\<rparr>)"
| work_answer: "i < length (sys_requests s) \<Longrightarrow> sys_requests s ! i = Waiting key c \<Longrightarrow> watch (sys_watch s) c = Some v \<Longrightarrow>
    work_step cfg clock watch s (s\<lparr>sys_requests := (sys_requests s)[i := Answered key (wait_for_result (Some v))]\<rparr>)"

inductive txn_step :: "txn_config \<Rightarrow> (int \<Rightarrow> bool) \<Rightarrow> ('r watch_call list \<Rightarrow> chan \<Rightarrow> 'r wrapped option) \<Rightarrow>
    'r txn_system \<Rightarrow> 'r txn_system \<Rightarrow> bool" for cfg clock watch where
  step_work: "work_step cfg clock watch s s' \<Longrightarrow> txn_step cfg clock watch s s'"
| step_request: "txn_step cfg clock watch s (receive_request cfg body s)"
| step_timeout: "i < length (sys_requests s) \<Longrightarrow> sys_requests s ! i = Waiting key c \<Longrightarrow>
    txn_step cfg clock watch s (s\<lparr>sys_requests := (sys_requests s)[i := Answered key (wait_for_result None)]\<rparr>)"
| step_clear: "txn_step cfg clock watch s (s\<lparr>sys_service := clear_cache (sys_service s)\<rparr>)"

definition txn_init :: "'r txn_system" where
  "txn_init = \<lparr>sys_service = \<lparr>federation_txn_state = [], last_cleanup = 0\<rparr>, sys_tasks = [], sys_requests = [], sys_watch = []\<rparr>"

section \<open>What the table promises\<close>

text \<open>The transactions that are being processed, with the channels of their tasks, and the cached answers.\<close>

definition actives :: "'r txn_table \<Rightarrow> txn_key \<Rightarrow> chan option" where
  "actives st k = (case map_of st k of Some (Active c) \<Rightarrow> Some c | _ \<Rightarrow> None)"

definition answers :: "'r txn_table \<Rightarrow> txn_key \<Rightarrow> 'r option" where
  "answers st k = (case map_of st k of Some (Cached cached) \<Rightarrow> Some (response cached) | _ \<Rightarrow> None)"

lemma is_active_iff: "is_active v \<longleftrightarrow> (\<exists>c. v = Active c)"
  by (cases v) simp_all

lemma actives_Some: "actives st k = Some c \<longleftrightarrow> map_of st k = Some (Active c)"
  by (auto simp: actives_def split: option.splits txn_state.splits)

lemma answers_Some: "answers st k = Some r \<longleftrightarrow> (\<exists>cached. map_of st k = Some (Cached cached) \<and> response cached = r)"
  by (auto simp: answers_def split: option.splits txn_state.splits)

lemma table_empty [simp]: "actives [] = Map.empty" "answers [] = Map.empty"
  by (auto simp: actives_def answers_def)

lemma table_update [simp]:
  "actives (al_insert k (Active c) st) = (actives st)(k \<mapsto> c)"
  "actives (al_insert k (Cached cached) st) = (actives st)(k := None)"
  "actives (al_remove k st) = (actives st)(k := None)"
  "answers (al_insert k (Active c) st) = (answers st)(k := None)"
  "answers (al_insert k (Cached cached) st) = (answers st)(k \<mapsto> response cached)"
  "answers (al_remove k st) = (answers st)(k := None)"
  by (auto simp: actives_def answers_def)

lemma map_of_filter_wf: "al_wf st \<Longrightarrow> map_of (filter P st) k = Some v \<longleftrightarrow> map_of st k = Some v \<and> P (k, v)"
  by (simp add: map_of_Some_in_set distinct_map_fst_filter)

lemma active_count_card:
  assumes "al_wf st"
  shows "active_count st = card (dom (actives st))"
proof -
  have "dom (actives st) = fst ` set (filter (\<lambda>(_, v). is_active v) st)"
  proof (rule set_eqI)
    fix k
    have "k \<in> dom (actives st) \<longleftrightarrow> (\<exists>c. (k, Active c) \<in> set st)"
      using map_of_Some_in_set [OF assms] by (simp add: dom_def actives_Some)
    also have "\<dots> \<longleftrightarrow> k \<in> fst ` set (filter (\<lambda>(_, v). is_active v) st)"
      by (force simp: is_active_iff)
    finally show "k \<in> dom (actives st) \<longleftrightarrow> k \<in> fst ` set (filter (\<lambda>(_, v). is_active v) st)" .
  qed
  then have "card (dom (actives st)) = card (set (map fst (filter (\<lambda>(_, v). is_active v) st)))"
    by (simp only: set_map)
  also have "\<dots> = active_count st"
    using distinct_card [OF distinct_map_fst_filter [OF assms]] by (simp add: active_count_def)
  finally show ?thesis by simp
qed

lemma active_from_origin:
  assumes "al_wf st"
  shows "list_ex (\<lambda>(k, v). fst k = origin \<and> is_active v) st \<longleftrightarrow> origin \<in> fst ` dom (actives st)"
proof -
  have "origin \<in> fst ` dom (actives st) \<longleftrightarrow> (\<exists>k \<in> dom (actives st). fst k = origin)" by auto
  then show ?thesis
    using map_of_Some_in_set [OF assms] by (fastforce simp: list_ex_iff dom_def actives_Some is_active_iff simp del: image_iff)
qed

subsection \<open>Cleaning up keeps what is being processed\<close>

lemma fold_remove:
  "map_of (fold (\<lambda>(key, _) st. al_remove key st) xs st) k = (if k \<in> fst ` set xs then None else map_of st k)"
  "al_wf st \<Longrightarrow> al_wf (fold (\<lambda>(key, _) st. al_remove key st) xs st)"
  by (induction xs arbitrary: st) auto

lemma cached_entries_set: "set (cached_entries st) = {(k, t). \<exists>v. (k, v) \<in> set st \<and> cached_since v = Some t}"
  by (force simp: cached_entries_def List.map_filter_def)

lemma cleanup_wf: "al_wf st \<Longrightarrow> al_wf (cleanup_entries_locked cfg now st)"
  by (simp add: cleanup_entries_locked_def retain_recent_def Let_def fold_remove(2) distinct_map_fst_filter)

lemma retain_recent_get:
  "al_wf st \<Longrightarrow> map_of (retain_recent cutoff st) k = Some v \<longleftrightarrow>
     map_of st k = Some v \<and> (case cached_since v of None \<Rightarrow> True | Some t \<Rightarrow> t > cutoff)"
  by (auto simp: retain_recent_def map_of_filter_wf split: txn_state.splits)

text \<open>The keys of the cached answers, each with its time, and those that the second pass removes.\<close>

definition cached_keys :: "'r txn_table \<Rightarrow> txn_key set" where
  "cached_keys st = dom (answers st)"

definition overfull :: "txn_config \<Rightarrow> 'r txn_table \<Rightarrow> (txn_key \<times> int) list" where
  "overfull cfg st =
     take (length (cached_entries st) - transaction_id_cache_max_entries cfg) (sort_key snd (cached_entries st))"

lemma cached_entries_keys:
  "map fst (cached_entries st) = map fst (filter (\<lambda>(_, v). \<not> is_active v) st)"
proof (induction st)
  case (Cons p st)
  obtain k v where "p = (k, v)" by (cases p)
  with Cons show ?case by (cases v) (simp_all add: cached_entries_def List.map_filter_simps)
qed (simp add: cached_entries_def List.map_filter_simps)

lemma cached_entries_length: "length (cached_entries st) = length (filter (\<lambda>(_, v). \<not> is_active v) st)"
  using arg_cong [OF cached_entries_keys, of length st] by simp

lemma cached_entries_wf: "al_wf st \<Longrightarrow> al_wf (cached_entries st)"
  by (simp add: cached_entries_keys distinct_map_fst_filter)

lemma cached_entries_iff:
  "al_wf st \<Longrightarrow> (k, t) \<in> set (cached_entries st) \<longleftrightarrow> (\<exists>v. map_of st k = Some v \<and> cached_since v = Some t)"
  by (simp add: cached_entries_set map_of_Some_in_set)

lemma cached_since_Some: "cached_since v = Some t \<longleftrightarrow> (\<exists>cached. v = Cached cached \<and> created cached = t)"
  by (cases v) simp_all

lemma cached_keys_entries: "al_wf st \<Longrightarrow> cached_keys st = al_keys (cached_entries st)"
  by (auto simp: cached_keys_def dom_def answers_Some cached_entries_iff cached_since_Some al_key_ex simp del: image_iff)

lemma card_cached_keys: "al_wf st \<Longrightarrow> card (cached_keys st) = length (cached_entries st)"
  using distinct_card [OF cached_entries_wf [of st]] by (simp add: cached_keys_entries)

lemma cleanup_overfull:
  "cleanup_entries_locked cfg now st =
     (let state = retain_recent (cutoff_time cfg now) st in
      fold (\<lambda>(key, _) st. al_remove key st) (overfull cfg state) state)"
  by (simp add: cleanup_entries_locked_def overfull_def Let_def cached_entries_length)

lemma overfull_entries: "set (overfull cfg st) \<subseteq> set (cached_entries st)"
  unfolding overfull_def using set_take_subset [of _ "sort_key snd (cached_entries st)"] by simp

lemma card_overfull:
  assumes "al_wf st"
  shows "card (al_keys (overfull cfg st)) = length (cached_entries st) - transaction_id_cache_max_entries cfg"
proof -
  have "mset (map fst (sort_key snd (cached_entries st))) = mset (map fst (cached_entries st))" by simp
  then have "al_wf (sort_key snd (cached_entries st))"
    using cached_entries_wf [OF assms] mset_eq_imp_distinct_iff by blast
  then have "al_wf (overfull cfg st)" unfolding overfull_def by (metis distinct_take take_map)
  then show ?thesis using distinct_card [of "map fst (overfull cfg st)"] by (simp add: overfull_def)
qed

lemma sorted_before: "sorted (map f (xs @ ys)) \<Longrightarrow> x \<in> set xs \<Longrightarrow> y \<in> set ys \<Longrightarrow> f x \<le> f y"
  by (simp add: sorted_append)

lemma overfull_oldest:
  assumes "al_wf st" "(k, t) \<in> set (overfull cfg st)" "(k', t') \<in> set (cached_entries st)"
    and "k' \<notin> al_keys (overfull cfg st)"
  shows "t \<le> t'"
proof -
  let ?xs = "sort_key snd (cached_entries st)" and ?n = "length (cached_entries st) - transaction_id_cache_max_entries cfg"
  have "(k', t') \<in> set (take ?n ?xs @ drop ?n ?xs)" using assms(3) by simp
  then have "(k', t') \<in> set (drop ?n ?xs)" using assms(4) unfolding overfull_def al_key_ex set_append by blast
  moreover have "(k, t) \<in> set (take ?n ?xs)" using assms(2) by (simp add: overfull_def)
  moreover have "sorted (map snd (take ?n ?xs @ drop ?n ?xs))" by simp
  ultimately show ?thesis using sorted_before [of snd "take ?n ?xs" "drop ?n ?xs" "(k, t)" "(k', t')"] by simp
qed

lemma cleanup_get:
  assumes "al_wf st"
  shows "map_of (cleanup_entries_locked cfg now st) k = Some v \<longleftrightarrow>
    map_of st k = Some v \<and> (case cached_since v of
      None \<Rightarrow> True
    | Some t \<Rightarrow> t > cutoff_time cfg now \<and> k \<notin> al_keys (overfull cfg (retain_recent (cutoff_time cfg now) st)))"
proof -
  let ?st = "retain_recent (cutoff_time cfg now) st"
  have wf: "al_wf ?st" using assms by (simp add: retain_recent_def distinct_map_fst_filter)
  have "cached_since v \<noteq> None" if k: "k \<in> al_keys (overfull cfg ?st)" "map_of ?st k = Some v"
  proof -
    obtain t where "(k, t) \<in> set (cached_entries ?st)" using k(1) overfull_entries [of cfg ?st] unfolding al_key_ex by blast
    then show ?thesis using k(2) by (simp add: cached_entries_iff [OF wf])
  qed
  then show ?thesis
    unfolding cleanup_overfull Let_def fold_remove(1)
    by (cases "k \<in> al_keys (overfull cfg ?st)"; cases "cached_since v") (auto simp del: image_iff simp: retain_recent_get [OF assms])
qed

lemma cleanup_tables:
  assumes "al_wf st"
  shows "actives (cleanup_entries_locked cfg now st) = actives st"
    and "answers (cleanup_entries_locked cfg now st) k = Some r \<Longrightarrow> answers st k = Some r"
proof -
  show "actives (cleanup_entries_locked cfg now st) = actives st"
  proof
    fix k show "actives (cleanup_entries_locked cfg now st) k = actives st k"
      by (rule option_eqI) (simp add: actives_Some cleanup_get [OF assms])
  qed
qed (auto simp: answers_Some cleanup_get [OF assms])

section \<open>The invariant of the running system\<close>

text \<open>What a channel has been sent, and the documented behaviour of a watch channel: a receiver that has seen
  nothing waits until a value is sent and then gets it, or until the sender is dropped and then finds the
  initial value.\<close>

definition sent :: "'r watch_call list \<Rightarrow> chan \<Rightarrow> 'r wrapped list" where
  "sent h c = List.map_filter (\<lambda>call. case call of WSend c' v \<Rightarrow> if c' = c then Some v else None | WDrop _ \<Rightarrow> None) h"

definition watch_law :: "('r watch_call list \<Rightarrow> chan \<Rightarrow> 'r wrapped option) \<Rightarrow> bool" where
  "watch_law watch \<longleftrightarrow> (\<forall>h c.
     (\<forall>v. sent h c = [v] \<longrightarrow> watch h c = Some v) \<and>
     (sent h c = [] \<longrightarrow> watch h c = (if WDrop c \<in> set h then Some None else None)))"

lemma watch_lawD:
  assumes "watch_law watch"
  shows "sent h c = [v] \<Longrightarrow> watch h c = Some v" "sent h c = [] \<Longrightarrow> watch h c = (if WDrop c \<in> set h then Some None else None)"
  using assms unfolding watch_law_def by simp_all

fun task_key :: "'r txn_task \<Rightarrow> txn_key" where
  "task_key (Handling k) = k"
| "task_key (Failing k _) = k"
| "task_key (Deciding k _ _) = k"
| "task_key (Finishing k _ _) = k"
| "task_key (Ended k) = k"

text \<open>Whether the transaction of a task is in the table as being processed.\<close>

fun running :: "'r txn_task \<Rightarrow> bool" where
  "running (Failing _ _) = False"
| "running (Ended _) = False"
| "running _ = True"

fun ended :: "'r txn_task \<Rightarrow> bool" where
  "ended (Ended _) = True"
| "ended _ = False"

text \<open>Some task for the transaction has sent this answer.\<close>

definition produced :: "'r txn_system \<Rightarrow> txn_key \<Rightarrow> 'r \<Rightarrow> bool" where
  "produced s k r \<longleftrightarrow> (\<exists>c < length (sys_tasks s). task_key (sys_tasks s ! c) = k \<and> Some (Inr r) \<in> set (sent (sys_watch s) c))"

fun request_ok :: "'r txn_system \<Rightarrow> 'r request_state \<Rightarrow> bool" where
  "request_ok s (Waiting k c) = (c < length (sys_tasks s) \<and> task_key (sys_tasks s ! c) = k)"
| "request_ok s (Answered k (Inr r)) = produced s k r"
| "request_ok s _ = True"

abbreviation sys_table :: "'r txn_system \<Rightarrow> 'r txn_table" where
  "sys_table s \<equiv> federation_txn_state (sys_service s)"

definition table_ok :: "txn_config \<Rightarrow> 'r txn_system \<Rightarrow> bool" where
  "table_ok cfg s \<longleftrightarrow> al_wf (sys_table s) \<and>
     (\<forall>k c. actives (sys_table s) k = Some c \<longleftrightarrow> c < length (sys_tasks s) \<and> running (sys_tasks s ! c) \<and> task_key (sys_tasks s ! c) = k) \<and>
     inj_on fst (dom (actives (sys_table s))) \<and>
     card (dom (actives (sys_table s))) \<le> max_concurrent_inbound_transactions cfg \<and>
     (\<forall>k r. answers (sys_table s) k = Some r \<longrightarrow> produced s k r)"

definition channel_ok :: "'r txn_system \<Rightarrow> chan \<Rightarrow> bool" where
  "channel_ok s c \<longleftrightarrow>
     (if c < length (sys_tasks s) \<and> ended (sys_tasks s ! c) then \<exists>x. sent (sys_watch s) c = [Some x]
      else sent (sys_watch s) c = [] \<and> WDrop c \<notin> set (sys_watch s))"

definition txn_inv :: "txn_config \<Rightarrow> 'r txn_system \<Rightarrow> bool" where
  "txn_inv cfg s \<longleftrightarrow> table_ok cfg s \<and> (\<forall>c. channel_ok s c) \<and> (\<forall>q \<in> set (sys_requests s). request_ok s q)"

lemma table_okD:
  assumes "table_ok cfg s"
  shows "al_wf (sys_table s)" "inj_on fst (dom (actives (sys_table s)))"
    and "card (dom (actives (sys_table s))) \<le> max_concurrent_inbound_transactions cfg"
    and "actives (sys_table s) k = Some c \<longleftrightarrow> c < length (sys_tasks s) \<and> running (sys_tasks s ! c) \<and> task_key (sys_tasks s ! c) = k"
    and "answers (sys_table s) k = Some r \<Longrightarrow> produced s k r"
  using assms unfolding table_ok_def by blast+

lemma txn_invD:
  assumes "txn_inv cfg s"
  shows "table_ok cfg s" "channel_ok s c" "q \<in> set (sys_requests s) \<Longrightarrow> request_ok s q"
  using assms unfolding txn_inv_def by blast+

lemma sent_simps [simp]:
  "sent [] c = []" "sent (h @ h') c = sent h c @ sent h' c"
  "sent (WSend c' v # h) c = (if c' = c then v # sent h c else sent h c)" "sent (WDrop c' # h) c = sent h c"
  by (simp_all add: sent_def List.map_filter_def)

lemma txn_init_inv: "txn_inv cfg txn_init"
  by (simp add: txn_inv_def table_ok_def channel_ok_def txn_init_def)

lemma produced_mono:
  assumes "produced s k r" "sys_watch s' = sys_watch s @ calls"
    and "\<And>c. c < length (sys_tasks s) \<Longrightarrow> c < length (sys_tasks s') \<and> task_key (sys_tasks s' ! c) = task_key (sys_tasks s ! c)"
  shows "produced s' k r"
  using assms unfolding produced_def by (metis Un_iff sent_simps(2) set_append)

lemma request_ok_mono:
  assumes "request_ok s q" "sys_watch s' = sys_watch s @ calls"
    and "\<And>c. c < length (sys_tasks s) \<Longrightarrow> c < length (sys_tasks s') \<and> task_key (sys_tasks s' ! c) = task_key (sys_tasks s ! c)"
  shows "request_ok s' q"
  using assms produced_mono [OF _ assms(2,3)] by (cases "(s, q)" rule: request_ok.cases) auto

definition task_update :: "'r txn_system \<Rightarrow> chan \<Rightarrow> 'r txn_task \<Rightarrow> 'r txn_service \<Rightarrow> 'r watch_call list \<Rightarrow> 'r txn_system" where
  "task_update s c t svc calls =
     s\<lparr>sys_service := svc, sys_tasks := (sys_tasks s)[c := t], sys_watch := sys_watch s @ calls\<rparr>"

lemma task_update_simps [simp]:
  "sys_service (task_update s c t svc calls) = svc" "sys_tasks (task_update s c t svc calls) = (sys_tasks s)[c := t]"
  "sys_watch (task_update s c t svc calls) = sys_watch s @ calls" "sys_requests (task_update s c t svc calls) = sys_requests s"
  by (simp_all add: task_update_def)

lemma task_update_produced:
  assumes "produced s k r" "c < length (sys_tasks s)" "task_key t = task_key (sys_tasks s ! c)"
  shows "produced (task_update s c t svc calls) k r"
  using assms(1) by (rule produced_mono [where calls = calls]) (use assms(2,3) in \<open>auto simp: nth_list_update\<close>)

lemma table_ok_task:
  assumes ok: "table_ok cfg s" and c: "c < length (sys_tasks s)" "task_key t = task_key (sys_tasks s ! c)"
    and runs: "running t \<Longrightarrow> running (sys_tasks s ! c)" and wf: "al_wf (federation_txn_state svc)"
    and act: "actives (federation_txn_state svc) =
      (if running (sys_tasks s ! c) \<and> \<not> running t then (actives (sys_table s))(task_key t := None) else actives (sys_table s))"
    and ans: "\<And>k r. answers (federation_txn_state svc) k = Some r \<Longrightarrow>
      answers (sys_table s) k = Some r \<or> k = task_key t \<and> Some (Inr r) \<in> set (sent calls c)"
  shows "table_ok cfg (task_update s c t svc calls)"
proof -
  have iff: "actives (sys_table s) k = Some d \<longleftrightarrow>
      d < length (sys_tasks s) \<and> running (sys_tasks s ! d) \<and> task_key (sys_tasks s ! d) = k" for k d
    using ok unfolding table_ok_def by blast
  have sub: "dom (actives (federation_txn_state svc)) \<subseteq> dom (actives (sys_table s))" by (auto simp: act)
  have inj: "inj_on fst (dom (actives (sys_table s)))" "card (dom (actives (sys_table s))) \<le> max_concurrent_inbound_transactions cfg"
    and al: "al_wf (sys_table s)"
    using ok unfolding table_ok_def by simp_all
  have fin: "finite (dom (actives (sys_table s)))"
    by (rule finite_subset [OF _ finite_dom_map_of [of "sys_table s"]]) (auto simp: actives_Some)
  have "card (dom (actives (federation_txn_state svc))) \<le> max_concurrent_inbound_transactions cfg"
    using card_mono [OF fin sub] inj(2) by simp
  moreover have "inj_on fst (dom (actives (federation_txn_state svc)))" by (rule inj_on_subset [OF inj(1) sub])
  moreover have "actives (federation_txn_state svc) k = Some d \<longleftrightarrow> d < length (sys_tasks s) \<and>
      running ((sys_tasks s)[c := t] ! d) \<and> task_key ((sys_tasks s)[c := t] ! d) = k" for k d
  proof (cases "d = c")
    case True
    then show ?thesis using iff [of k c] c runs by (simp add: act) blast
  next
    case False
    then have "actives (federation_txn_state svc) k = Some d \<longleftrightarrow> actives (sys_table s) k = Some d"
      using iff [of "task_key t" c] iff [of k d] c by (simp add: act) (metis option.inject)
    then show ?thesis using False iff [of k d] by simp
  qed
  moreover have "produced (task_update s c t svc calls) k r" if "answers (federation_txn_state svc) k = Some r" for k r
  proof (cases "answers (sys_table s) k = Some r")
    case True
    then have "produced s k r" using ok unfolding table_ok_def by blast
    then show ?thesis using c by (rule task_update_produced)
  next
    case False
    then show ?thesis using ans [OF that] c by (auto simp: produced_def intro!: exI [of _ c])
  qed
  ultimately show ?thesis using wf by (simp add: table_ok_def)
qed

lemma channel_ok_task:
  assumes "\<forall>c. channel_ok s c" "c < length (sys_tasks s)" "\<not> ended (sys_tasks s ! c)"
    and "if ended t then \<exists>x. calls = [WSend c (Some x), WDrop c] else calls = []"
  shows "channel_ok (task_update s c t svc calls) d"
  using assms(1) [rule_format, of d] assms(2-4)
  by (cases "d = c") (auto simp: channel_ok_def nth_list_update split: if_splits)

text \<open>The clock is not before 1970: otherwise \<open>should_try_cleanup\<close> panics.\<close>

definition clock_law :: "(int \<Rightarrow> bool) \<Rightarrow> bool" where
  "clock_law clock \<longleftrightarrow> (\<exists>t. clock t) \<and> (\<forall>t. clock t \<longrightarrow> 0 \<le> t)"

lemma load_ok: "clock_law clock \<Longrightarrow> clock now \<Longrightarrow> should_try_cleanup_load now svc \<noteq> None"
  by (auto simp: clock_law_def should_try_cleanup_load_def epoch_secs_def Let_def)

lemma exchange_table: "should_try_cleanup_exchange due svc = (b, svc') \<Longrightarrow> federation_txn_state svc' = federation_txn_state svc"
  by (auto simp: should_try_cleanup_exchange_def split: option.splits if_splits)

lemma finish_tables:
  assumes "al_wf (federation_txn_state svc)"
  shows "al_wf (federation_txn_state (finish_federation_txn cfg key resp b now later svc))"
    and "actives (federation_txn_state (finish_federation_txn cfg key resp b now later svc)) = (actives (federation_txn_state svc))(key := None)"
    and "answers (federation_txn_state (finish_federation_txn cfg key resp b now later svc)) k = Some r \<Longrightarrow>
      answers (federation_txn_state svc) k = Some r \<or> k = key \<and> r = resp"
proof -
  let ?st = "al_insert key (Cached \<lparr>response = resp, created = now\<rparr>) (federation_txn_state svc)"
  have wf: "al_wf ?st" using assms by simp
  note clean = cleanup_wf [OF wf] cleanup_tables(1) [OF wf]
  show "al_wf (federation_txn_state (finish_federation_txn cfg key resp b now later svc))"
    "actives (federation_txn_state (finish_federation_txn cfg key resp b now later svc)) = (actives (federation_txn_state svc))(key := None)"
    using wf by (simp_all add: finish_federation_txn_def Let_def clean)
  assume "answers (federation_txn_state (finish_federation_txn cfg key resp b now later svc)) k = Some r"
  then have "answers ?st k = Some r"
    using cleanup_tables(2) [OF wf, of cfg later k r] by (cases b) (simp_all add: finish_federation_txn_def Let_def)
  then show "answers (federation_txn_state svc) k = Some r \<or> k = key \<and> r = resp" by (auto split: if_splits)
qed

lemma task_step_control:
  assumes "task_step cfg clock c t svc t' svc' calls" "clock_law clock"
  shows "task_key t' = task_key t \<and> \<not> ended t \<and> (running t' \<longrightarrow> running t) \<and>
    (if ended t' then \<exists>x. calls = [WSend c (Some x), WDrop c] else calls = [])"
  using assms(1)
proof cases
  case (task_panics now key)
  then show ?thesis using load_ok [OF assms(2)] by blast
qed simp_all

lemma task_step_tables:
  assumes "task_step cfg clock c t svc t' svc' calls" "clock_law clock" "al_wf (federation_txn_state svc)"
  shows "al_wf (federation_txn_state svc') \<and>
    actives (federation_txn_state svc') = (if running t \<and> \<not> running t'
      then (actives (federation_txn_state svc))(task_key t' := None) else actives (federation_txn_state svc)) \<and>
    (\<forall>k r. answers (federation_txn_state svc') k = Some r \<longrightarrow>
      answers (federation_txn_state svc) k = Some r \<or> k = task_key t' \<and> Some (Inr r) \<in> set (sent calls c))"
  using assms(1)
proof cases
  case (task_fails key e)
  then show ?thesis using assms(3) by (simp add: remove_federation_txn_def)
next
  case (task_panics now key)
  then show ?thesis using load_ok [OF assms(2)] by blast
next
  case (task_decides due b key resp)
  then show ?thesis using assms(3) exchange_table by fastforce
next
  case (task_finishes now later key resp b)
  then show ?thesis using finish_tables [OF assms(3), of cfg key resp b now later] by simp
qed (simp_all add: assms(3))

lemma task_step_inv:
  assumes "txn_inv cfg s" "c < length (sys_tasks s)" "clock_law clock"
    and step: "task_step cfg clock c (sys_tasks s ! c) (sys_service s) t svc calls"
  shows "txn_inv cfg (task_update s c t svc calls)"
proof -
  have inv: "table_ok cfg s" "\<forall>c. channel_ok s c" "\<forall>q \<in> set (sys_requests s). request_ok s q"
    using assms(1) unfolding txn_inv_def by simp_all
  then have "al_wf (sys_table s)" unfolding table_ok_def by blast
  then have tables: "al_wf (federation_txn_state svc)"
    "actives (federation_txn_state svc) = (if running (sys_tasks s ! c) \<and> \<not> running t
      then (actives (sys_table s))(task_key t := None) else actives (sys_table s))"
    "\<And>k r. answers (federation_txn_state svc) k = Some r \<Longrightarrow>
      answers (sys_table s) k = Some r \<or> k = task_key t \<and> Some (Inr r) \<in> set (sent calls c)"
    using task_step_tables [OF step assms(3)] by blast+
  have control: "task_key t = task_key (sys_tasks s ! c)" "\<not> ended (sys_tasks s ! c)" "running t \<Longrightarrow> running (sys_tasks s ! c)"
    "if ended t then \<exists>x. calls = [WSend c (Some x), WDrop c] else calls = []"
    using task_step_control [OF step assms(3)] by simp_all
  have "table_ok cfg (task_update s c t svc calls)"
    by (rule table_ok_task [OF inv(1) assms(2) control(1,3) tables])
  moreover have "channel_ok (task_update s c t svc calls) d" for d
    by (rule channel_ok_task [OF inv(2) assms(2) control(2,4)])
  moreover have "request_ok (task_update s c t svc calls) q" if "q \<in> set (sys_requests s)" for q
    using bspec [OF inv(3) that]
    by (rule request_ok_mono [where calls = calls]) (use assms(2) control(1) in \<open>auto simp: nth_list_update\<close>)
  ultimately show ?thesis by (simp add: txn_inv_def)
qed

lemma answer_inv:
  assumes "txn_inv cfg s" "request_ok s q"
  shows "txn_inv cfg (s\<lparr>sys_requests := (sys_requests s)[i := q]\<rparr>)"
proof -
  let ?s = "s\<lparr>sys_requests := (sys_requests s)[i := q]\<rparr>"
  have "request_ok s q' \<Longrightarrow> request_ok ?s q'" for q'
    by (rule request_ok_mono [where calls = "[]"]) simp_all
  moreover have "table_ok cfg ?s = table_ok cfg s" "channel_ok ?s c = channel_ok s c" for c
    by (simp_all add: table_ok_def channel_ok_def produced_def)
  ultimately show ?thesis using assms set_update_subset_insert [of "sys_requests s" i q] by (auto simp: txn_inv_def)
qed

lemma watch_answer:
  assumes "txn_inv cfg s" "watch_law watch" "c < length (sys_tasks s)"
  shows "if ended (sys_tasks s ! c) then \<exists>x. sent (sys_watch s) c = [Some x] \<and> watch (sys_watch s) c = Some (Some x)
    else watch (sys_watch s) c = None"
proof -
  have "channel_ok s c" using assms(1) unfolding txn_inv_def by simp
  then show ?thesis
    using assms(3) watch_lawD [OF assms(2), of "sys_watch s" c] by (cases "ended (sys_tasks s ! c)") (auto simp: channel_ok_def)
qed

lemma received_ok:
  assumes "txn_inv cfg s" "watch_law watch" "request_ok s (Waiting k c)" "watch (sys_watch s) c = Some v"
  shows "request_ok s (Answered k (wait_for_result (Some v)))" "v \<noteq> None"
proof -
  have c: "c < length (sys_tasks s)" "task_key (sys_tasks s ! c) = k" using assms(3) by simp_all
  obtain x where x: "sent (sys_watch s) c = [Some x]" "v = Some x"
    using watch_answer [OF assms(1,2) c(1)] assms(4) by (auto split: if_splits)
  then show "request_ok s (Answered k (wait_for_result (Some v)))" using c by (cases x) (auto simp: produced_def)
  show "v \<noteq> None" using x by simp
qed

lemma work_step_inv:
  assumes "work_step cfg clock watch s s'" "txn_inv cfg s" "clock_law clock" "watch_law watch"
  shows "txn_inv cfg s'"
  using assms(1)
proof cases
  case (work_task c t svc calls)
  then show ?thesis using task_step_inv [OF assms(2) _ assms(3)] unfolding task_update_def by blast
next
  case (work_answer i key c v)
  then have "request_ok s (Waiting key c)" using assms(2) nth_mem [of i "sys_requests s"] unfolding txn_inv_def by metis
  with work_answer show ?thesis using answer_inv [OF assms(2)] received_ok(1) [OF assms(2,4)] by blast
qed

lemma get_or_start_cases:
  assumes "al_wf (federation_txn_state svc)" "get_or_start_federation_txn cfg ch key svc = (r, svc')"
  obtains (limited) e where "r = Inl e" "svc' = svc"
  | (cached) resp where "r = Inr (TxnCached resp)" "svc' = svc" "answers (federation_txn_state svc) key = Some resp"
  | (joined) c where "r = Inr (TxnActive c)" "svc' = svc" "actives (federation_txn_state svc) key = Some c"
  | (started) "r = Inr (TxnStarted ch)" "svc' = svc\<lparr>federation_txn_state := al_insert key (Active ch) (federation_txn_state svc)\<rparr>"
      "fst key \<notin> fst ` dom (actives (federation_txn_state svc))"
      "card (dom (actives (federation_txn_state svc))) < max_concurrent_inbound_transactions cfg"
proof -
  let ?st = "federation_txn_state svc"
  note eq = assms(2) [unfolded get_or_start_federation_txn_def Let_def active_from_origin [OF assms(1)]]
  have "active_count ?st \<le> length ?st" by (simp add: active_count_def)
  then have room: "card (dom (actives ?st)) < max_concurrent_inbound_transactions cfg"
    if "\<not> (length ?st \<ge> max_concurrent_inbound_transactions cfg \<and> active_count ?st \<ge> max_concurrent_inbound_transactions cfg)"
    using that active_count_card [OF assms(1)] by linarith
  show thesis
  proof (cases "map_of ?st key")
    case None
    show thesis
    proof (cases "fst key \<in> fst ` dom (actives ?st)")
      case True
      then have "r = Inl StillProcessing" "svc' = svc" using eq None by simp_all
      then show thesis by (rule limited)
    next
      case False
      show thesis
      proof (cases "length ?st \<ge> max_concurrent_inbound_transactions cfg \<and> active_count ?st \<ge> max_concurrent_inbound_transactions cfg")
        case True
        then have "r = Inl Overloaded" "svc' = svc" using eq None False by simp_all
        then show thesis by (rule limited)
      next
        case room': False
        then have "r = Inr (TxnStarted ch)" "svc' = svc\<lparr>federation_txn_state := al_insert key (Active ch) ?st\<rparr>"
          using eq None False room' by (simp_all split: if_splits)
        then show thesis using False room [OF room'] by (rule started)
      qed
    qed
  next
    case (Some v)
    then show thesis using eq cached joined by (cases v) (auto simp: actives_Some answers_Some)
  qed
qed

lemma route_cases:
  assumes "al_wf (federation_txn_state svc)" "send_transaction_message_route cfg ch body svc = (r, svc')"
  obtains e where "r = Inl e" "svc' = svc"
  | t where "r = Inr t" "get_or_start_federation_txn cfg ch (txn_key_of body) svc = (Inr t, svc')"
proof -
  obtain g svc1 where g: "get_or_start_federation_txn cfg ch (txn_key_of body) svc = (g, svc1)" by fastforce
  have "svc1 = svc" if "g = Inl e" for e using that by (cases rule: get_or_start_cases [OF assms(1) g]) simp_all
  then show thesis using assms(2) g that
    by (auto simp: send_transaction_message_route_def split: if_splits sum.splits)
qed

lemma receive_request_cases:
  assumes "al_wf (sys_table s)"
  obtains (refused) e where "receive_request cfg body s = s\<lparr>sys_requests := sys_requests s @ [Refused e]\<rparr>"
  | (cached) resp where "receive_request cfg body s = s\<lparr>sys_requests := sys_requests s @ [Answered (txn_key_of body) (Inr resp)]\<rparr>"
      "answers (sys_table s) (txn_key_of body) = Some resp"
  | (joined) c where "receive_request cfg body s = s\<lparr>sys_requests := sys_requests s @ [Waiting (txn_key_of body) c]\<rparr>"
      "actives (sys_table s) (txn_key_of body) = Some c"
  | (started) svc where "receive_request cfg body s = s\<lparr>sys_service := svc,
        sys_requests := sys_requests s @ [Waiting (txn_key_of body) (length (sys_tasks s))],
        sys_tasks := sys_tasks s @ [Handling (txn_key_of body)]\<rparr>"
      "federation_txn_state svc = al_insert (txn_key_of body) (Active (length (sys_tasks s))) (sys_table s)"
      "fst (txn_key_of body) \<notin> fst ` dom (actives (sys_table s))"
      "card (dom (actives (sys_table s))) < max_concurrent_inbound_transactions cfg"
proof -
  obtain r svc where r: "send_transaction_message_route cfg (length (sys_tasks s)) body (sys_service s) = (r, svc)"
    by fastforce
  show thesis
  proof (cases rule: route_cases [OF assms r])
    case 1
    then show thesis using refused r by (simp add: receive_request_def Let_def)
  next
    case (2 t)
    show thesis
      by (cases rule: get_or_start_cases [OF assms 2(2)])
        (use 2(1) r cached joined started in \<open>simp_all add: receive_request_def Let_def\<close>)
  qed
qed

lemma add_request_inv:
  assumes "txn_inv cfg s" "request_ok s q"
  shows "txn_inv cfg (s\<lparr>sys_requests := sys_requests s @ [q]\<rparr>)"
proof -
  let ?s = "s\<lparr>sys_requests := sys_requests s @ [q]\<rparr>"
  have "request_ok s q' \<Longrightarrow> request_ok ?s q'" for q'
    by (rule request_ok_mono [where calls = "[]"]) simp_all
  moreover have "table_ok cfg ?s = table_ok cfg s" "channel_ok ?s c = channel_ok s c" for c
    by (simp_all add: table_ok_def channel_ok_def produced_def)
  ultimately show ?thesis using assms by (auto simp: txn_inv_def)
qed

text \<open>Starting a transaction: the new task is the only one of its origin.\<close>

lemma start_table_ok:
  assumes ok: "table_ok cfg s" and st: "federation_txn_state svc = al_insert key (Active (length (sys_tasks s))) (sys_table s)"
    and origin: "fst key \<notin> fst ` dom (actives (sys_table s))"
    and room: "card (dom (actives (sys_table s))) < max_concurrent_inbound_transactions cfg"
    and s': "sys_service s' = svc" "sys_tasks s' = sys_tasks s @ [Handling key]" "sys_watch s' = sys_watch s"
  shows "table_ok cfg s'"
proof -
  let ?A = "actives (sys_table s)"
  have iff: "?A k = Some d \<longleftrightarrow> d < length (sys_tasks s) \<and> running (sys_tasks s ! d) \<and> task_key (sys_tasks s ! d) = k" for k d
    using ok unfolding table_ok_def by blast
  have key: "key \<notin> dom ?A" using origin by blast
  have "((?A)(key \<mapsto> length (sys_tasks s))) k = Some d \<longleftrightarrow>
      d < Suc (length (sys_tasks s)) \<and> running (sys_tasks s' ! d) \<and> task_key (sys_tasks s' ! d) = k" for k d
    using iff [of k d] key by (auto simp: s'(2) nth_append less_Suc_eq)
  moreover have "inj_on fst (insert key (dom ?A))" using ok origin by (auto simp: table_ok_def inj_on_insert)
  moreover have "card (insert key (dom ?A)) \<le> max_concurrent_inbound_transactions cfg"
    using card_insert_le_m1 [of "max_concurrent_inbound_transactions cfg" "dom ?A" key] room by simp
  moreover have "produced s' k r" if "answers (sys_table s) k = Some r" for k r
  proof -
    have "produced s k r" using ok that unfolding table_ok_def by blast
    then show ?thesis by (rule produced_mono [where calls = "[]"]) (simp_all add: s' nth_append)
  qed
  ultimately show ?thesis using ok st by (simp add: table_ok_def s' del: fun_upd_apply) simp
qed

lemma start_inv:
  assumes inv: "txn_inv cfg s" and st: "federation_txn_state svc = al_insert key (Active (length (sys_tasks s))) (sys_table s)"
    and "fst key \<notin> fst ` dom (actives (sys_table s))"
    and "card (dom (actives (sys_table s))) < max_concurrent_inbound_transactions cfg"
  shows "txn_inv cfg (s\<lparr>sys_service := svc, sys_requests := sys_requests s @ [Waiting key (length (sys_tasks s))],
    sys_tasks := sys_tasks s @ [Handling key]\<rparr>)" (is "txn_inv cfg ?s")
proof -
  have "table_ok cfg ?s"
    by (rule start_table_ok [OF _ assms(2-4)]) (use inv in \<open>simp_all add: txn_inv_def\<close>)
  moreover have "channel_ok ?s c" for c
  proof -
    have "channel_ok s c" using inv unfolding txn_inv_def by blast
    then show ?thesis by (auto simp: channel_ok_def nth_append split: if_splits)
  qed
  moreover have "request_ok ?s q" if q: "q \<in> set (sys_requests s)" for q
  proof -
    have "request_ok s q" using inv q unfolding txn_inv_def by blast
    then show ?thesis by (rule request_ok_mono [where calls = "[]"]) (simp_all add: nth_append)
  qed
  ultimately show ?thesis by (simp add: txn_inv_def)
qed

lemma receive_request_inv:
  assumes "txn_inv cfg s"
  shows "txn_inv cfg (receive_request cfg body s)"
proof -
  have ok: "table_ok cfg s" and wf: "al_wf (sys_table s)" using assms by (simp_all add: txn_inv_def table_ok_def)
  show ?thesis
  proof (cases cfg body rule: receive_request_cases [OF wf, case_names refused cached joined started])
    case (cached resp)
    then have "request_ok s (Answered (txn_key_of body) (Inr resp))" using table_okD(5) [OF ok] by simp
    then show ?thesis using add_request_inv [OF assms] cached(1) by simp
  next
    case (joined c)
    then have "request_ok s (Waiting (txn_key_of body) c)" using table_okD(4) [OF ok] by simp
    then show ?thesis using add_request_inv [OF assms] joined(1) by simp
  next
    case (started svc)
    then show ?thesis using start_inv [OF assms started(2-4)] by simp
  qed (use add_request_inv [OF assms] in simp)
qed

lemma clear_cache_inv:
  assumes "txn_inv cfg s"
  shows "txn_inv cfg (s\<lparr>sys_service := clear_cache (sys_service s)\<rparr>)" (is "txn_inv cfg ?s")
proof -
  have wf: "al_wf (sys_table s)" using assms by (simp add: txn_inv_def table_ok_def)
  let ?st = "filter (\<lambda>(_, v). is_active v) (sys_table s)"
  have "actives ?st = actives (sys_table s)"
    by (rule ext, rule option_eqI) (simp add: actives_Some map_of_filter_wf [OF wf])
  moreover have "answers ?st k \<noteq> Some r" for k r by (auto simp: answers_Some map_of_filter_wf [OF wf])
  ultimately have "table_ok cfg ?s"
    using assms by (simp add: txn_inv_def table_ok_def clear_cache_def distinct_map_fst_filter)
  moreover have "request_ok s q \<Longrightarrow> request_ok ?s q" for q
    by (rule request_ok_mono [where calls = "[]"]) simp_all
  moreover have "channel_ok ?s c = channel_ok s c" for c by (simp add: channel_ok_def)
  ultimately show ?thesis using assms by (simp add: txn_inv_def)
qed

lemma txn_step_inv:
  assumes "txn_step cfg clock watch s s'" "txn_inv cfg s" "clock_law clock" "watch_law watch"
  shows "txn_inv cfg s'"
  using assms(1)
proof cases
  case step_work
  then show ?thesis by (rule work_step_inv [OF _ assms(2-4)])
next
  case (step_timeout i key c)
  then show ?thesis using answer_inv [OF assms(2)] by simp
qed (simp_all add: receive_request_inv [OF assms(2)] clear_cache_inv [OF assms(2)])

lemma txn_reachable:
  assumes "(txn_step cfg clock watch)\<^sup>*\<^sup>* txn_init s" "clock_law clock" "watch_law watch"
  shows "txn_inv cfg s"
  using assms(1) by (induction rule: rtranclp_induct) (auto intro: txn_init_inv txn_step_inv [OF _ _ assms(2,3)])

section \<open>Progress\<close>

fun task_work :: "'r txn_task \<Rightarrow> nat" where
  "task_work (Handling _) = 3"
| "task_work (Deciding _ _ _) = 2"
| "task_work (Finishing _ _ _) = 1"
| "task_work (Failing _ _) = 1"
| "task_work (Ended _) = 0"

fun request_work :: "'r request_state \<Rightarrow> nat" where
  "request_work (Waiting _ _) = 1"
| "request_work _ = 0"

definition work_left :: "'r txn_system \<Rightarrow> nat" where
  "work_left s = sum_list (map task_work (sys_tasks s)) + sum_list (map request_work (sys_requests s))"

lemma sum_list_update_less:
  "i < length xs \<Longrightarrow> f v < f (xs ! i) \<Longrightarrow> sum_list (map f (xs[i := v])) < (sum_list (map f xs) :: nat)"
  by (induction xs arbitrary: i) (auto split: nat.splits)

lemma work_decreases:
  assumes "work_step cfg clock watch s s'"
  shows "work_left s' < work_left s"
  using assms
proof cases
  case (work_task c t svc calls)
  have "task_work t < task_work (sys_tasks s ! c)" using work_task(3) by cases auto
  then show ?thesis using work_task(1,2) by (simp add: work_left_def sum_list_update_less)
next
  case (work_answer i key c v)
  then show ?thesis using sum_list_update_less [of i "sys_requests s" request_work] by (simp add: work_left_def)
qed

lemma work_bounded: "(work_step cfg clock watch ^^ n) s s' \<Longrightarrow> n + work_left s' \<le> work_left s"
proof (induction n arbitrary: s')
  case (Suc n)
  then obtain s1 where "(work_step cfg clock watch ^^ n) s s1" "work_step cfg clock watch s1 s'" by auto
  then show ?case using Suc.IH work_decreases by fastforce
qed simp

lemma task_progress:
  assumes "clock_law clock" "\<not> ended t"
  shows "\<exists>t' svc' calls. task_step cfg clock c t svc t' svc' calls"
proof -
  obtain now where now: "clock now" using assms(1) unfolding clock_law_def by blast
  show ?thesis
  proof (cases t)
    case (Deciding key resp due)
    then show ?thesis using task_decides [of due svc "fst (should_try_cleanup_exchange due svc)" "snd (should_try_cleanup_exchange due svc)"]
      by fastforce
  next
    case (Finishing key resp b)
    show ?thesis unfolding Finishing by (intro exI) (rule task_finishes [of clock, OF now now])
  next
    case (Handling key)
    show ?thesis unfolding Handling by (intro exI) (rule task_fails)
  next
    case (Failing key e)
    show ?thesis unfolding Failing by (intro exI) (rule task_reports)
  qed (use assms(2) in simp)
qed

lemma work_progress:
  assumes "txn_inv cfg s" "clock_law clock" "watch_law watch" "\<nexists>s'. work_step cfg clock watch s s'"
  shows "list_all ended (sys_tasks s)" "list_all (\<lambda>q. request_work q = 0) (sys_requests s)"
proof -
  have ended: "ended (sys_tasks s ! c)" if "c < length (sys_tasks s)" for c
    using task_progress [OF assms(2)] work_step.work_task [OF that] assms(4) by blast
  then show "list_all ended (sys_tasks s)" by (simp add: list_all_length)
  have "request_work (sys_requests s ! i) = 0" if i: "i < length (sys_requests s)" for i
  proof (cases "sys_requests s ! i")
    case (Waiting k c)
    then have "c < length (sys_tasks s)" using txn_invD(3) [OF assms(1)] nth_mem [OF i] by fastforce
    then have "watch (sys_watch s) c \<noteq> None" using watch_answer [OF assms(1,3)] ended by fastforce
    then show ?thesis using work_step.work_answer [OF i Waiting] assms(4) by blast
  qed simp_all
  then show "list_all (\<lambda>q. request_work q = 0) (sys_requests s)" by (simp add: list_all_length)
qed

text \<open>What becomes of a waiting request while the work goes on.\<close>

definition served :: "'r request_state \<Rightarrow> 'r request_state \<Rightarrow> bool" where
  "served q q' \<longleftrightarrow> q' = q \<or> (\<exists>k c x. q = Waiting k c \<and> q' = Answered k (wait_for_result (Some (Some x))))"

lemma wait_for_result_sent: "wait_for_result (Some (Some x)) \<notin> {Inl TimedOut, Inl ProcessingFailed}"
proof (cases x)
  case (Inl e)
  then show ?thesis by (cases e) simp_all
qed simp

lemma served_trans: "served q q' \<Longrightarrow> served q' q'' \<Longrightarrow> served q q''"
  by (auto simp: served_def)

lemma work_step_serves:
  assumes "work_step cfg clock watch s s'" "txn_inv cfg s" "watch_law watch"
  shows "list_all2 served (sys_requests s) (sys_requests s')"
  using assms(1)
proof cases
  case (work_task c t svc calls)
  then show ?thesis by (simp add: list.rel_refl served_def)
next
  case (work_answer i key c v)
  have "request_ok s (Waiting key c)" using txn_invD(3) [OF assms(2)] work_answer(2,3) nth_mem by metis
  then have "served (sys_requests s ! i) (Answered key (wait_for_result (Some v)))"
    using received_ok(2) [OF assms(2,3) _ work_answer(4)] work_answer(3) unfolding served_def by blast
  then show ?thesis using work_answer(1,2) by (simp add: list_all2_conv_all_nth nth_list_update served_def)
qed

lemma work_serves:
  assumes "(work_step cfg clock watch)\<^sup>*\<^sup>* s s'" "txn_inv cfg s" "clock_law clock" "watch_law watch"
  shows "txn_inv cfg s' \<and> list_all2 served (sys_requests s) (sys_requests s')"
  using assms(1)
proof (induction rule: rtranclp_induct)
  case base
  then show ?case using assms(2) by (simp add: list.rel_refl served_def)
next
  case (step s1 s2)
  then have "txn_inv cfg s2" "list_all2 served (sys_requests s1) (sys_requests s2)"
    using work_step_inv [OF step(2) _ assms(3,4)] work_step_serves [OF step(2) _ assms(4)] by blast+
  moreover have "list_all2 served (sys_requests s) (sys_requests s1)" using step.IH ..
  ultimately show ?case using list_all2_trans [of served served served "sys_requests s" "sys_requests s1" "sys_requests s2"]
    served_trans by blast
qed

lemma running_tasks_card:
  assumes "table_ok cfg s"
  shows "card {c. c < length (sys_tasks s) \<and> running (sys_tasks s ! c)} = card (dom (actives (sys_table s)))"
proof -
  let ?R = "{c. c < length (sys_tasks s) \<and> running (sys_tasks s ! c)}" and ?key = "\<lambda>c. task_key (sys_tasks s ! c)"
  have act: "actives (sys_table s) (?key c) = Some c" if "c \<in> ?R" for c
    using table_okD(4) [OF assms] that by simp
  have "inj_on ?key ?R"
  proof (rule inj_onI)
    fix c d assume cd: "c \<in> ?R" "d \<in> ?R" "?key c = ?key d"
    have "Some c = Some d" using act [OF cd(1)] act [OF cd(2)] unfolding cd(3) by (rule box_equals [OF refl])
    then show "c = d" by simp
  qed
  moreover have "?key ` ?R = dom (actives (sys_table s))"
  proof
    show "?key ` ?R \<subseteq> dom (actives (sys_table s))" 
      by (rule image_subsetI) (simp only: act domIff option.distinct not_False_eq_True)
    show "dom (actives (sys_table s)) \<subseteq> ?key ` ?R"
    proof
      fix k assume "k \<in> dom (actives (sys_table s))"
      then obtain c where "actives (sys_table s) k = Some c" by (blast dest: domD)
      then have "c \<in> ?R" "k = ?key c" using table_okD(4) [OF assms, of k c] by auto
      then show "k \<in> ?key ` ?R" by (rule rev_image_eqI)
    qed
  qed
  ultimately show ?thesis using card_image [of ?key ?R] by (simp only:)
qed

lemma client_key:
  "key_of (VTuple [VStr u, opt_str d, VStr t]) = u @ [255] @ (case d of None \<Rightarrow> [] | Some d \<Rightarrow> d) @ [255] @ t"
  by (simp add: key_of_def serialize_to_vec_def opt_str_def ser_record_start_def separator_def ser_write_def split: option.splits)

section \<open>Example values\<close>

definition demo_watch :: "nat watch_call list \<Rightarrow> chan \<Rightarrow> nat wrapped option" where
  "demo_watch h c = (case sent h c of [] \<Rightarrow> if WDrop c \<in> set h then Some None else None | v # _ \<Rightarrow> Some v)"

definition demo_txn_config :: txn_config where
  "demo_txn_config = \<lparr>max_concurrent_inbound_transactions = 1, transaction_id_cache_max_age_secs = 7200,
     transaction_id_cache_max_entries = 1\<rparr>"

definition demo_request :: txn_request where
  "demo_request = \<lparr>req_identity = [97], req_origin = [97], req_pdus = 1, req_edus = 0, req_transaction_id = [49]\<rparr>"

lemma demo_watch_law: "watch_law demo_watch"
  by (simp add: watch_law_def demo_watch_def)

lemma demo_clock_law: "clock_law (\<lambda>t. t = 0)"
  by (simp add: clock_law_def)

lemma demo_receive:
  "receive_request demo_txn_config demo_request (txn_init :: nat txn_system) =
     \<lparr>sys_service = \<lparr>federation_txn_state = [(([97], [49]), Active 0)], last_cleanup = 0\<rparr>, sys_tasks = [Handling ([97], [49])],
      sys_requests = [Waiting ([97], [49]) 0], sys_watch = []\<rparr>"
  by (simp add: receive_request_def send_transaction_message_route_def get_or_start_federation_txn_def txn_key_of_def
      txn_init_def demo_txn_config_def demo_request_def PDU_LIMIT_def EDU_LIMIT_def active_count_def Let_def)

lemma demo_reach:
  "(txn_step demo_txn_config (\<lambda>t. t = 0) demo_watch)\<^sup>*\<^sup>* txn_init (receive_request demo_txn_config demo_request txn_init)"
  by (intro r_into_rtranclp step_request)

section \<open>Properties\<close>

text \<open>C15: no transaction is processed twice at the same time. In every reachable state of the system, whatever
  the interleaving of requests and tasks, at most one task of each origin is processing, their number is the number of active
  entries of the table and at most the configured maximum, and every answer given to a request is one that a task for
  the same transaction produced.\<close>

theorem transactions_exclusive:
  assumes "(txn_step cfg clock watch)\<^sup>*\<^sup>* txn_init s" "clock_law clock" "watch_law watch"
  shows "(\<forall>c d. c < length (sys_tasks s) \<and> d < length (sys_tasks s) \<and> running (sys_tasks s ! c) \<and> running (sys_tasks s ! d) \<and>
      fst (task_key (sys_tasks s ! c)) = fst (task_key (sys_tasks s ! d)) \<longrightarrow> c = d) \<and>
    card {c. c < length (sys_tasks s) \<and> running (sys_tasks s ! c)} = txn_active_handle_count (sys_service s) \<and>
    txn_active_handle_count (sys_service s) \<le> max_concurrent_inbound_transactions cfg \<and>
    (\<forall>k r. Answered k (Inr r) \<in> set (sys_requests s) \<longrightarrow> produced s k r)"
proof -
  have inv: "txn_inv cfg s" using txn_reachable [OF assms] .
  note ok = txn_invD(1) [OF inv]
  have "c = d" if c: "c < length (sys_tasks s)" "running (sys_tasks s ! c)" and d: "d < length (sys_tasks s)" "running (sys_tasks s ! d)"
    and same: "fst (task_key (sys_tasks s ! c)) = fst (task_key (sys_tasks s ! d))" for c d
  proof -
    have act: "actives (sys_table s) (task_key (sys_tasks s ! c)) = Some c" "actives (sys_table s) (task_key (sys_tasks s ! d)) = Some d"
      using table_okD(4) [OF ok] c d by simp_all
    have "task_key (sys_tasks s ! c) = task_key (sys_tasks s ! d)"
      by (rule inj_onD [OF table_okD(2) [OF ok] same]) (simp_all only: domIff act option.distinct not_False_eq_True)
    then show ?thesis using act by (metis option.inject)
  qed
  moreover have "produced s k r" if "Answered k (Inr r) \<in> set (sys_requests s)" for k r
    using txn_invD(3) [OF inv that] by simp
  moreover have "card {c. c < length (sys_tasks s) \<and> running (sys_tasks s ! c)} = txn_active_handle_count (sys_service s)"
    "txn_active_handle_count (sys_service s) \<le> max_concurrent_inbound_transactions cfg"
    using running_tasks_card [OF ok] table_okD(3) [OF ok] active_count_card [OF table_okD(1) [OF ok]]
    unfolding txn_active_handle_count_def by simp_all
  ultimately show ?thesis by blast
qed

theorem transactions_exclusive_witness:
  "txn_active_handle_count (sys_service (receive_request demo_txn_config demo_request (txn_init :: nat txn_system))) = 1 \<and>
   card {c. c < 1 \<and> running ([Handling ([97], [49]) :: nat txn_task] ! c)} = 1"
proof -
  have "txn_active_handle_count (sys_service (receive_request demo_txn_config demo_request (txn_init :: nat txn_system))) = 1"
    by (simp add: demo_receive txn_active_handle_count_def active_count_def)
  then show ?thesis
    using transactions_exclusive [OF demo_reach demo_clock_law demo_watch_law] by (simp add: demo_receive)
qed



lemma cleanup_keeps_newest:
  assumes "al_wf st" and state_def: "state = retain_recent (cutoff_time cfg now) st" and st'_def: "st' = cleanup_entries_locked cfg now st"
  shows "actives st' = actives st \<and>
    (\<forall>k cached. map_of st' k = Some (Cached cached) \<longrightarrow> map_of st k = Some (Cached cached) \<and> created cached > cutoff_time cfg now) \<and>
    card (dom (answers st')) = min (transaction_id_cache_max_entries cfg) (card (dom (answers state))) \<and>
    (\<forall>k k' old new. map_of state k = Some (Cached old) \<longrightarrow> k \<notin> dom (answers st') \<longrightarrow>
       map_of st' k' = Some (Cached new) \<longrightarrow> created old \<le> created new)"
proof -
  have wf: "al_wf state" using assms(1) by (simp add: state_def retain_recent_def distinct_map_fst_filter)
  let ?gone = "al_keys (overfull cfg state)"
  note get = cleanup_get [OF assms(1), of cfg now, folded state_def st'_def]
  have kept: "map_of st' k = Some (Cached x) \<longleftrightarrow> map_of state k = Some (Cached x) \<and> k \<notin> ?gone" for k x
    unfolding get state_def retain_recent_get [OF assms(1)] by simp
  then have dom: "dom (answers st') = dom (answers state) - ?gone"
    by (auto simp: dom_def answers_Some simp del: image_iff)
  have "?gone \<subseteq> dom (answers state)"
    using overfull_entries [of cfg state] cached_keys_entries [OF wf] by (auto simp: cached_keys_def)
  then have "card (dom (answers st')) = card (dom (answers state)) - card ?gone" unfolding dom by (intro card_Diff_subset) simp
  then have "card (dom (answers st')) = min (transaction_id_cache_max_entries cfg) (card (dom (answers state)))"
    using card_overfull [OF wf] card_cached_keys [OF wf] by (simp add: cached_keys_def)
  moreover have "created old \<le> created new"
    if old: "map_of state k = Some (Cached old)" "k \<notin> dom (answers st')" and new: "map_of st' k' = Some (Cached new)" for k k' old new
  proof -
    have "k \<in> dom (answers state)" using old(1) by (auto simp: dom_def answers_Some)
    with old(2) have "k \<in> ?gone" unfolding dom by blast
    then obtain t where t: "(k, t) \<in> set (overfull cfg state)" unfolding al_key_ex ..
    then have "(k, t) \<in> set (cached_entries state)" using overfull_entries [of cfg state] by blast
    then have "t = created old" using old(1) cached_entries_iff [OF wf] by simp
    moreover have "(k', created new) \<in> set (cached_entries state)" "k' \<notin> ?gone"
      using new kept cached_entries_iff [OF wf] by simp_all
    ultimately show ?thesis using overfull_oldest [OF wf t] by blast
  qed
  moreover have "map_of st k = Some (Cached x) \<and> created x > cutoff_time cfg now" if "map_of st' k = Some (Cached x)" for k x
    using that get by simp
  moreover have "actives st' = actives st" unfolding st'_def by (rule cleanup_tables(1) [OF assms(1)])
  ultimately show ?thesis by blast
qed

text \<open>C25: cleaning up never removes a transaction that is being processed; of the cached answers it removes the ones
  older than the maximal age and then the oldest ones, so that exactly the configured number stays if there
  were more.\<close>

theorem cleanup_correct:
  assumes "al_wf st"
  shows "let state = retain_recent (cutoff_time cfg now) st; st' = cleanup_entries_locked cfg now st in
    actives st' = actives st \<and>
    (\<forall>k cached. map_of st' k = Some (Cached cached) \<longrightarrow> map_of st k = Some (Cached cached) \<and> created cached > cutoff_time cfg now) \<and>
    card (dom (answers st')) = min (transaction_id_cache_max_entries cfg) (card (dom (answers state))) \<and>
    (\<forall>k k' old new. map_of state k = Some (Cached old) \<longrightarrow> k \<notin> dom (answers st') \<longrightarrow>
       map_of st' k' = Some (Cached new) \<longrightarrow> created old \<le> created new)"
  unfolding Let_def by (rule cleanup_keeps_newest [OF assms refl refl])

theorem cleanup_correct_witness:
  "card (dom (answers (cleanup_entries_locked demo_txn_config 0
     [(([97], [49]), Cached \<lparr>response = (1 :: nat), created = 5\<rparr>), (([98], [50]), Active 0),
      (([99], [51]), Cached \<lparr>response = 2, created = 7\<rparr>)]))) = 1"
proof -
  let ?st = "[(([97], [49]), Cached \<lparr>response = (1 :: nat), created = 5\<rparr>), (([98], [50]), Active 0),
      (([99], [51]), Cached \<lparr>response = 2, created = 7\<rparr>)] :: nat txn_table"
  have wf: "al_wf ?st" by simp
  have recent: "retain_recent (cutoff_time demo_txn_config 0) ?st = ?st"
    by (simp add: retain_recent_def cutoff_time_def checked_sub_time_def demo_txn_config_def)
  have "length (cached_entries ?st) = 2" by (simp add: cached_entries_length)
  then have "card (dom (answers ?st)) = 2" using card_cached_keys [OF wf] by (simp add: cached_keys_def)
  then show ?thesis using cleanup_correct [OF wf, of demo_txn_config 0] unfolding Let_def recent by (simp add: demo_txn_config_def)
qed

text \<open>C39: a transaction of a client is found again, under the key written byte by byte, by the query that
  serializes the key as a tuple, and by no other user, device or transaction id; a missing device and an
  empty one are the same.\<close>

theorem client_txn_roundtrip:
  assumes "kv_sorted m" "utf8_valid u" "utf8_valid u'" "\<forall>x \<in> set_option d \<union> set_option d'. utf8_valid x"
  shows "get_client_txn (add_client_txnid u d t data m) u' d' t' =
    (if u' = u \<and> (case d' of None \<Rightarrow> [] | Some x \<Rightarrow> x) = (case d of None \<Rightarrow> [] | Some x \<Rightarrow> x) \<and> t' = t then Some data
     else get_client_txn m u' d' t')"
proof -
  let ?d = "case d of None \<Rightarrow> [] | Some x \<Rightarrow> x" and ?d' = "case d' of None \<Rightarrow> [] | Some x \<Rightarrow> x"
  have d: "sep_free ?d" "sep_free ?d'" using assms(4) by (auto simp: sep_free_def utf8_no_sep split: option.splits)
  have "u' @ [255] @ ?d' @ [255] @ t' = u @ [255] @ ?d @ [255] @ t \<longleftrightarrow> u' = u \<and> ?d' = ?d \<and> t' = t"
    using sep_split [of u' u] sep_split [OF d(2,1)] assms(2,3) by simp
  then show ?thesis
    unfolding get_client_txn_def add_client_txnid_def client_key kv_get_insert [OF assms(1)] fun_upd_apply by simp
qed

theorem client_txn_roundtrip_witness:
  "get_client_txn (add_client_txnid [64] None [49] [1] []) [64] (Some []) [49] = Some [1]"
  using client_txn_roundtrip [of "[]" "[64]" "[64]" None "Some []" "[49]" "[1]" "[49]"]
  by (simp add: kv_sorted_def byte_in_def)

end
