(* ===== verification/Auth_Chain.thy ===== *)
theory Auth_Chain
  imports Short_Ids Matrix_Types "HOL-Library.Product_Lexorder"
begin

text \<open>
  Auth chains, \<open>src/service/rooms/auth_chain/mod.rs\<close> and \<open>data.rs\<close>: all events that a set of events
  refers to through \<open>auth_events\<close>, directly or not, as short ids. Chains are cached: for single
  events in a column and in memory, for groups of events in memory only.

  The stored events are a function \<open>get_pdu\<close>, so that theorems speak of any timeline. The order in which a
  hash set is iterated and in which concurrent lookups complete are parameters; lookups are run one after the other in
  that order. The insertion into the \<open>LruCache\<close> of the crate \<open>lru_cache\<close>, which may evict entries, is a parameter.
\<close>

section \<open>The caches\<close>

record auth_chain_db =
  shorteventid_authchain :: "u64 \<rightharpoonup> byte list"
  auth_chain_cache :: "u64 list \<rightharpoonup> u64 list"

record chain_env =
  chain_lru :: "u64 list \<Rightarrow> u64 list \<Rightarrow> (u64 list \<rightharpoonup> u64 list) \<Rightarrow> (u64 list \<rightharpoonup> u64 list)"
  hash_order :: "u64 set \<Rightarrow> u64 list"
  arrive_events :: "(u64 \<times> string) list \<Rightarrow> (u64 \<times> string) list"
  arrive_buckets :: "(u64 \<times> string) list list \<Rightarrow> (u64 \<times> string) list list"

text \<open>\<open>as_chunks\<close>: whole groups of eight bytes; what is left over is dropped.\<close>

function u64_chunks :: "byte list \<Rightarrow> u64 list" where
  "u64_chunks bs = (if length bs < 8 then [] else from_be_bytes (take 8 bs) # u64_chunks (drop 8 bs))"
  by pat_completeness auto
termination by (relation "measure length") auto

declare u64_chunks.simps [simp del]

definition get_cached_eventid_authchain :: "chain_env \<Rightarrow> auth_chain_db \<Rightarrow> u64 list \<Rightarrow> u64 list option \<times> auth_chain_db" where
  "get_cached_eventid_authchain env db key =
     (case auth_chain_cache db key of
        Some result \<Rightarrow> (Some result, db)
      | None \<Rightarrow>
          if length key \<noteq> 1 then (None, db)
          else
            (case shorteventid_authchain db (key ! 0) of
               None \<Rightarrow> (None, db)
             | Some bytes \<Rightarrow>
                 let chain = u64_chunks bytes in
                 (Some chain, db\<lparr>auth_chain_cache := chain_lru env [key ! 0] chain (auth_chain_cache db)\<rparr>)))"

definition cache_auth_chain :: "chain_env \<Rightarrow> u64 list \<Rightarrow> u64 list \<Rightarrow> auth_chain_db \<Rightarrow> auth_chain_db" where
  "cache_auth_chain env key auth_chain db =
     (let db = (if length key = 1
                then db\<lparr>shorteventid_authchain := (shorteventid_authchain db)(key ! 0 \<mapsto> concat (map to_be_bytes auth_chain))\<rparr>
                else db)
      in db\<lparr>auth_chain_cache := chain_lru env key auth_chain (auth_chain_cache db)\<rparr>)"

definition chain_clear_cache :: "auth_chain_db \<Rightarrow> auth_chain_db" where
  "chain_clear_cache db = db\<lparr>auth_chain_cache := Map.empty\<rparr>"

section \<open>The chain of one event\<close>

datatype chain_error = WrongRoom string

definition wrong_room :: "string \<Rightarrow> pdu \<Rightarrow> bool" where
  "wrong_room room_id p = (case pdu_room_id p of None \<Rightarrow> False | Some claimed_room_id \<Rightarrow> claimed_room_id \<noteq> room_id)"

fun add_auth_events :: "string list \<Rightarrow> string list \<times> u64 set \<times> short_state \<Rightarrow> string list \<times> u64 set \<times> short_state" where
  "add_auth_events [] st = st"
| "add_auth_events (auth_event # rest) (todo, found, s) =
     (let (sauthevent, s) = get_or_create_shorteventid s auth_event in
      add_auth_events rest
        (if sauthevent \<in> found then (todo, found, s) else (todo @ [auth_event], insert sauthevent found, s)))"

partial_function (option) chain_loop ::
    "(string \<Rightarrow> pdu option) \<Rightarrow> string \<Rightarrow> string list \<times> u64 set \<times> short_state \<Rightarrow> ((chain_error + u64 set) \<times> short_state) option" where
  "chain_loop get_pdu room_id st =
     (case st of (todo, found, s) \<Rightarrow>
        case todo of
          [] \<Rightarrow> Some (Inr found, s)
        | event_id # todo \<Rightarrow>
            (case get_pdu event_id of
               None \<Rightarrow> chain_loop get_pdu room_id (todo, found, s)
             | Some p \<Rightarrow>
                 if wrong_room room_id p then Some (Inl (WrongRoom event_id), s)
                 else chain_loop get_pdu room_id (add_auth_events (pdu_auth_events p) (todo, found, s))))"

definition get_auth_chain_inner ::
    "chain_env \<Rightarrow> (string \<Rightarrow> pdu option) \<Rightarrow> string \<Rightarrow> string \<Rightarrow> short_state \<Rightarrow> ((chain_error + u64 list) \<times> short_state) option" where
  "get_auth_chain_inner env get_pdu room_id event_id s =
     map_option (\<lambda>(r, s). (map_sum id (hash_order env) r, s)) (chain_loop get_pdu room_id ([event_id], {}, s))"

section \<open>Chains of groups of events\<close>

type_synonym chain_state = "auth_chain_db \<times> short_state"

definition chunk_event ::
    "chain_env \<Rightarrow> (string \<Rightarrow> pdu option) \<Rightarrow> string \<Rightarrow> u64 \<times> string \<Rightarrow> chain_state \<Rightarrow> ((chain_error + u64 list) \<times> chain_state) option" where
  "chunk_event env get_pdu room_id ev st =
     (case (ev, st) of ((shortid, event_id), (db, s)) \<Rightarrow>
        case get_cached_eventid_authchain env db [shortid] of
          (Some cached, db) \<Rightarrow> Some (Inr cached, (db, s))
        | (None, db) \<Rightarrow>
            Option.bind (get_auth_chain_inner env get_pdu room_id event_id s) (\<lambda>(r, s).
              case r of
                Inl e \<Rightarrow> Some (Inl e, (db, s))
              | Inr auth_chain \<Rightarrow> Some (Inr auth_chain, (cache_auth_chain env [shortid] auth_chain db, s))))"

text \<open>\<open>try_collect\<close>: up to the first error.\<close>

fun try_each :: "('x \<Rightarrow> 's \<Rightarrow> (('e + 'y) \<times> 's) option) \<Rightarrow> 'x list \<Rightarrow> 's \<Rightarrow> (('e + 'y list) \<times> 's) option" where
  "try_each f [] st = Some (Inr [], st)"
| "try_each f (x # xs) st =
     Option.bind (f x st) (\<lambda>(r, st).
       case r of
         Inl e \<Rightarrow> Some (Inl e, st)
       | Inr y \<Rightarrow> Option.bind (try_each f xs st) (\<lambda>(r, st). Some (map_sum id (\<lambda>ys. y # ys) r, st)))"

definition sort_dedup :: "u64 list \<Rightarrow> u64 list" where
  "sort_dedup xs = remdups_adj (sort xs)"

definition get_auth_chain_outer ::
    "chain_env \<Rightarrow> (string \<Rightarrow> pdu option) \<Rightarrow> string \<Rightarrow> (u64 \<times> string) list \<Rightarrow> chain_state \<Rightarrow> ((chain_error + u64 list) \<times> chain_state) option" where
  "get_auth_chain_outer env get_pdu room_id chunk st =
     (let chunk_key = map fst chunk in
      if chunk_key = [] then Some (Inr [], st)
      else
        (case get_cached_eventid_authchain env (fst st) chunk_key of
           (Some cached, db) \<Rightarrow> Some (Inr cached, (db, snd st))
         | (None, db) \<Rightarrow>
             Option.bind (try_each (chunk_event env get_pdu room_id) (arrive_events env chunk) (db, snd st)) (\<lambda>(r, (db, s)).
               case r of
                 Inl e \<Rightarrow> Some (Inl e, (db, s))
               | Inr chain_lists \<Rightarrow>
                   let chunk_cache = sort_dedup (concat chain_lists) in
                   Some (Inr chunk_cache, (cache_auth_chain env chunk_key chunk_cache db, s)))))"

definition NUM_BUCKETS :: nat where
  "NUM_BUCKETS = 50"

text \<open>A \<open>BTreeSet\<close> is a sorted list without duplicates.\<close>

definition chain_buckets :: "(u64 \<times> string) list \<Rightarrow> (u64 \<times> string) list list" where
  "chain_buckets starting =
     map (\<lambda>b. sort (remdups (filter (\<lambda>(short, _). unat short mod NUM_BUCKETS = b) starting))) [0..<NUM_BUCKETS]"

definition get_auth_chain ::
    "chain_env \<Rightarrow> (string \<Rightarrow> pdu option) \<Rightarrow> string \<Rightarrow> string list \<Rightarrow> chain_state \<Rightarrow> ((chain_error + u64 list) \<times> chain_state) option" where
  "get_auth_chain env get_pdu room_id starting_events st =
     (let (shorts, s) = multi_get_or_create_shorteventid (snd st) starting_events;
          buckets = chain_buckets (zip shorts starting_events)
      in Option.bind (try_each (get_auth_chain_outer env get_pdu room_id) (arrive_buckets env buckets) (fst st, s)) (\<lambda>(r, st).
           Some (map_sum id (\<lambda>chain_lists. sort_dedup (concat chain_lists)) r, st)))"

definition event_ids_iter ::
    "chain_env \<Rightarrow> (string \<Rightarrow> pdu option) \<Rightarrow> string \<Rightarrow> string list \<Rightarrow> chain_state \<Rightarrow> ((chain_error + string list) \<times> chain_state) option" where
  "event_ids_iter env get_pdu room_id starting_events st =
     Option.bind (get_auth_chain env get_pdu room_id starting_events st) (\<lambda>(r, st).
       Some (map_sum id (\<lambda>chain. List.map_filter id (multi_get_eventid_from_short (snd st) chain)) r, st))"

section \<open>Short ids while a chain is built\<close>

text \<open>\<open>shorts s F\<close> are the short ids of the events \<open>F\<close>. There is room for the ids of \<open>U\<close> if the counter does not reach
  its end when the missing ones are created.\<close>

definition shorts :: "short_state \<Rightarrow> string set \<Rightarrow> u64 set" where
  "shorts s F = {n. \<exists>e \<in> F. get_shorteventid s e = Some n}"

definition known :: "short_state \<Rightarrow> string set \<Rightarrow> bool" where
  "known s F \<longleftrightarrow> (\<forall>e \<in> F. get_shorteventid s e \<noteq> None)"

definition has_room :: "string set \<Rightarrow> short_state \<Rightarrow> bool" where
  "has_room U s \<longleftrightarrow> finite U \<and> unat (counter s) + card {e \<in> U. get_shorteventid s e = None} < u64_max"

definition grows :: "short_state \<Rightarrow> short_state \<Rightarrow> bool" where
  "grows s s' \<longleftrightarrow> (\<forall>e n. get_shorteventid s e = Some n \<longrightarrow> get_shorteventid s' e = Some n)"

lemma grows_refl [simp]: "grows s s"
  by (simp add: grows_def)

lemma grows_trans: "grows s s' \<Longrightarrow> grows s' s'' \<Longrightarrow> grows s s''"
  by (simp add: grows_def)

lemma grows_known: "grows s s' \<Longrightarrow> known s F \<Longrightarrow> known s' F"
  unfolding grows_def known_def by fastforce

lemma grows_shorts:
  assumes "grows s s'" "known s F"
  shows "shorts s' F = shorts s F"
proof -
  have "get_shorteventid s' e = get_shorteventid s e" if "e \<in> F" for e
    using assms that unfolding grows_def known_def by (metis option.exhaust)
  then show ?thesis by (simp add: shorts_def)
qed

lemma known_union [simp]: "known s (F \<union> G) \<longleftrightarrow> known s F \<and> known s G" "known s (insert e F) \<longleftrightarrow> get_shorteventid s e \<noteq> None \<and> known s F"
  by (auto simp: known_def)

lemma known_UN [simp]: "known s (\<Union>x \<in> A. F x) \<longleftrightarrow> (\<forall>x \<in> A. known s (F x))"
  by (auto simp: known_def)

lemma shorts_union [simp]: "shorts s (F \<union> G) = shorts s F \<union> shorts s G" "shorts s {} = {}" "known s {}"
  by (auto simp: shorts_def known_def)

lemma shorts_UN: "shorts s (\<Union>x \<in> A. F x) = (\<Union>x \<in> A. shorts s (F x))"
  by (auto simp: shorts_def)

lemma shorts_insert: "get_shorteventid s e = Some n \<Longrightarrow> shorts s (insert e F) = insert n (shorts s F)"
  by (auto simp: shorts_def)

lemma shorts_mem: "short_wf s \<Longrightarrow> get_shorteventid s e = Some n \<Longrightarrow> n \<in> shorts s F \<longleftrightarrow> e \<in> F"
  using eid.look_inj by (auto simp: shorts_def)

lemma has_room_counter: "has_room U s \<Longrightarrow> counter s < - 1"
  by (auto simp: has_room_def word_less_nat_alt unsigned_minus_1_eq_mask mask_eq_exp_minus_1)

lemma intern_event:
  assumes "short_wf s" "has_room U s" "e \<in> U" "get_or_create_shorteventid s e = (n, s')"
  shows "short_wf s'" "has_room U s'" "get_shorteventid s' e = Some n" "grows s s'"
proof -
  have g: "fetch_or_create get_shorteventid create_shorteventid s e = (n, s')"
    using assms(4) by (simp add: get_or_create_fetch(1))
  note spec = eid.fetch_or_create_spec [OF assms(1) has_room_counter [OF assms(2)] g]
  show "short_wf s'" "get_shorteventid s' e = Some n" by (rule spec(1), rule spec(2))
  show grow: "grows s s'" unfolding grows_def using spec(5) by blast
  show "has_room U s'"
  proof (cases "get_shorteventid s e")
    case (Some m)
    then have "s' = s" using g by (simp add: fetch_or_create_def)
    then show ?thesis using assms(2) by simp
  next
    case None
    let ?M = "\<lambda>s. {e \<in> U. get_shorteventid s e = None}"
    have fin: "finite U" using assms(2) by (simp add: has_room_def)
    have "?M s' \<subseteq> ?M s" using grow unfolding grows_def by (auto intro: option.exhaust)
    moreover have "e \<in> ?M s" "e \<notin> ?M s'" using None assms(3) spec(2) by simp_all
    ultimately have "card (?M s') < card (?M s)" using fin by (intro psubset_card_mono) (simp, blast)
    moreover have "unat (counter s') = unat (counter s) + 1"
      using None g create_counts(1) [OF has_room_counter [OF assms(2)]] unat_counter_step [OF has_room_counter [OF assms(2)]]
      by (simp add: fetch_or_create_def)
    ultimately show ?thesis using assms(2) by (simp add: has_room_def)
  qed
qed

section \<open>The chain of one event is the set of what it refers to\<close>

definition auth_ref :: "(string \<Rightarrow> pdu option) \<Rightarrow> string \<Rightarrow> string \<Rightarrow> bool" where
  "auth_ref get_pdu a b \<longleftrightarrow> (\<exists>p. get_pdu a = Some p \<and> b \<in> set (pdu_auth_events p))"

definition chain_of :: "(string \<Rightarrow> pdu option) \<Rightarrow> string \<Rightarrow> string set" where
  "chain_of get_pdu e = {b. (auth_ref get_pdu)\<^sup>+\<^sup>+ e b}"

definition closed :: "(string \<Rightarrow> pdu option) \<Rightarrow> string set \<Rightarrow> bool" where
  "closed get_pdu U \<longleftrightarrow> (\<forall>a \<in> U. \<forall>b. auth_ref get_pdu a b \<longrightarrow> b \<in> U)"

definition misplaced :: "(string \<Rightarrow> pdu option) \<Rightarrow> string \<Rightarrow> string \<Rightarrow> bool" where
  "misplaced get_pdu room_id a \<longleftrightarrow> (\<exists>p. get_pdu a = Some p \<and> wrong_room room_id p)"

lemma chain_of_ref: "auth_ref get_pdu a b \<Longrightarrow> b \<in> chain_of get_pdu a" "auth_ref get_pdu a b \<Longrightarrow> chain_of get_pdu b \<subseteq> chain_of get_pdu a"
  by (auto simp: chain_of_def intro: tranclp_into_tranclp2)

lemma chain_of_closed:
  assumes "closed get_pdu F" "\<forall>b. auth_ref get_pdu e b \<longrightarrow> b \<in> F"
  shows "chain_of get_pdu e \<subseteq> F"
proof
  fix b assume "b \<in> chain_of get_pdu e"
  then have "(auth_ref get_pdu)\<^sup>+\<^sup>+ e b" by (simp add: chain_of_def)
  then show "b \<in> F" by (induction rule: tranclp_induct) (use assms in \<open>auto simp: closed_def\<close>)
qed

lemma chain_of_subset: "closed get_pdu U \<Longrightarrow> e \<in> U \<Longrightarrow> chain_of get_pdu e \<subseteq> U"
  by (rule chain_of_closed) (auto simp: closed_def)

lemma add_auth_events_spec:
  assumes "add_auth_events refs (todo, shorts s F, s) = (todo', found', s')"
    and "short_wf s" "has_room U s" "known s F" "set refs \<subseteq> U"
  shows "short_wf s' \<and> has_room U s' \<and> grows s s' \<and> known s' (F \<union> set refs) \<and> found' = shorts s' (F \<union> set refs) \<and>
    (\<exists>new. todo' = todo @ new \<and> distinct new \<and> set new = set refs - F)"
  using assms
proof (induction refs arbitrary: todo F s)
  case (Cons e refs)
  obtain n s1 where n: "get_or_create_shorteventid s e = (n, s1)" by fastforce
  have U: "e \<in> U" "set refs \<subseteq> U" using Cons.prems(5) by simp_all
  note s1 = intern_event [OF Cons.prems(2,3) U(1) n]
  have known: "known s1 (insert e F)" using s1(3) grows_known [OF s1(4) Cons.prems(4)] by simp
  have F: "shorts s F = shorts s1 F" using grows_shorts [OF s1(4) Cons.prems(4)] by simp
  show ?case
  proof (cases "e \<in> F")
    case True
    then have "insert e F = F" by blast
    moreover have "add_auth_events refs (todo, shorts s1 F, s1) = (todo', found', s')"
      using Cons.prems(1) True shorts_mem [OF s1(1,3), of F] by (simp add: n F)
    ultimately show ?thesis
      using Cons.IH [OF _ s1(1,2) _ U(2), of todo F] known True grows_trans [OF s1(4)] by (simp add: insert_absorb)
  next
    case False
    have "add_auth_events refs (todo @ [e], shorts s1 (insert e F), s1) = (todo', found', s')"
      using Cons.prems(1) False shorts_mem [OF s1(1,3), of F] shorts_insert [OF s1(3), of F] by (simp add: n F)
    note ih = Cons.IH [OF this s1(1,2) known U(2)]
    then obtain new where new: "todo' = todo @ [e] @ new" "distinct new" "set new = set refs - insert e F" by auto
    have "\<exists>new. todo' = todo @ new \<and> distinct new \<and> set new = set (e # refs) - F"
      by (rule exI [of _ "e # new"]) (use new False in auto)
    moreover have "insert e F \<union> set refs = F \<union> set (e # refs)" by auto
    ultimately show ?thesis using ih grows_trans [OF s1(4)] by metis
  qed
qed auto

text \<open>The state of the loop: what has been found is known, and what has been found and is no longer to do has been
  looked at.\<close>

definition chain_inv :: "(string \<Rightarrow> pdu option) \<Rightarrow> string \<Rightarrow> string set \<Rightarrow> string list \<Rightarrow> string set \<Rightarrow> short_state \<Rightarrow> bool" where
  "chain_inv get_pdu room_id U todo F s \<longleftrightarrow> short_wf s \<and> has_room U s \<and> known s F \<and> F \<subseteq> U \<and> set todo \<subseteq> U \<and>
     (\<forall>a \<in> F - set todo. \<not> misplaced get_pdu room_id a \<and> (\<forall>b. auth_ref get_pdu a b \<longrightarrow> b \<in> F))"

definition chain_result :: "(string \<Rightarrow> pdu option) \<Rightarrow> string \<Rightarrow> string list \<Rightarrow> string set \<Rightarrow> chain_error + u64 set \<Rightarrow> short_state \<Rightarrow> bool" where
  "chain_result get_pdu room_id todo F r s \<longleftrightarrow>
     (case r of
        Inl _ \<Rightarrow> \<exists>t \<in> set todo. \<exists>a \<in> insert t (chain_of get_pdu t). misplaced get_pdu room_id a
      | Inr found \<Rightarrow> \<exists>F'. found = shorts s F' \<and> known s F' \<and> F \<subseteq> F' \<and> closed get_pdu F' \<and>
          F' \<subseteq> F \<union> (\<Union>t \<in> set todo. chain_of get_pdu t) \<and>
          (\<forall>t \<in> set todo. \<forall>b. auth_ref get_pdu t b \<longrightarrow> b \<in> F') \<and> (\<forall>a \<in> F' \<union> set todo. \<not> misplaced get_pdu room_id a))"

lemma chain_invD:
  assumes "chain_inv get_pdu room_id U todo F s"
  shows "short_wf s" "has_room U s" "known s F" "F \<subseteq> U" "set todo \<subseteq> U" "finite U"
  using assms unfolding chain_inv_def has_room_def by simp_all

lemma chain_result_skip:
  assumes "chain_result get_pdu room_id todo F r s" "\<forall>b. \<not> auth_ref get_pdu e b" "\<not> misplaced get_pdu room_id e"
  shows "chain_result get_pdu room_id (e # todo) F r s"
proof -
  have "chain_of get_pdu e = {}" using chain_of_closed [of get_pdu "{}" e] assms(2) by (simp add: closed_def)
  then show ?thesis using assms by (auto simp: chain_result_def split: sum.splits)
qed

lemma chain_inv_skip:
  assumes "chain_inv get_pdu room_id U (e # todo) F s" "\<forall>b. \<not> auth_ref get_pdu e b" "\<not> misplaced get_pdu room_id e"
  shows "chain_inv get_pdu room_id U todo F s"
proof -
  have "\<not> misplaced get_pdu room_id a \<and> (\<forall>b. auth_ref get_pdu a b \<longrightarrow> b \<in> F)" if a: "a \<in> F - set todo" for a
  proof (cases "a = e")
    case True
    then show ?thesis using assms(2,3) by blast
  next
    case False
    then have "a \<in> F - set (e # todo)" using a by simp
    then show ?thesis using assms(1) unfolding chain_inv_def by blast
  qed
  moreover have "set todo \<subseteq> U" using chain_invD(5) [OF assms(1)] by simp
  ultimately show ?thesis using chain_invD(1-4) [OF assms(1)] unfolding chain_inv_def by blast
qed

text \<open>Looking at an event: its references join what is found, and the new ones are to do.\<close>

lemma chain_result_visit:
  assumes e: "get_pdu e = Some p" "\<not> wrong_room room_id p" and new: "set new = set (pdu_auth_events p) - F"
    and r: "chain_result get_pdu room_id (todo @ new) (F \<union> set (pdu_auth_events p)) r s"
  shows "chain_result get_pdu room_id (e # todo) F r s"
proof -
  have refs: "auth_ref get_pdu e b \<longleftrightarrow> b \<in> set (pdu_auth_events p)" for b using e(1) by (simp add: auth_ref_def)
  have placed: "\<not> misplaced get_pdu room_id e" using e by (simp add: misplaced_def)
  have sub: "b \<in> chain_of get_pdu e" "chain_of get_pdu b \<subseteq> chain_of get_pdu e" if "b \<in> set (pdu_auth_events p)" for b
    using chain_of_ref [of get_pdu e b] that refs by simp_all
  show ?thesis
  proof (cases r)
    case (Inl er)
    then obtain t a where "t \<in> set (todo @ new)" "a \<in> insert t (chain_of get_pdu t)" "misplaced get_pdu room_id a"
      using r by (auto simp: chain_result_def)
    then have "\<exists>t \<in> set (e # todo). \<exists>a \<in> insert t (chain_of get_pdu t). misplaced get_pdu room_id a"
      using new sub by fastforce
    then show ?thesis using Inl by (simp add: chain_result_def)
  next
    case (Inr found)
    then obtain F' where F': "found = shorts s F'" "known s F'" "F \<union> set (pdu_auth_events p) \<subseteq> F'" "closed get_pdu F'"
      "F' \<subseteq> F \<union> set (pdu_auth_events p) \<union> (\<Union>t \<in> set (todo @ new). chain_of get_pdu t)"
      "\<forall>t \<in> set (todo @ new). \<forall>b. auth_ref get_pdu t b \<longrightarrow> b \<in> F'" "\<forall>a \<in> F' \<union> set (todo @ new). \<not> misplaced get_pdu room_id a"
      using r by (auto simp: chain_result_def)
    have "F' \<subseteq> F \<union> (\<Union>t \<in> set (e # todo). chain_of get_pdu t)" using F'(5) sub new by (fastforce simp del: Un_iff)
    then show ?thesis using Inr F' refs placed by (auto simp: chain_result_def intro!: exI [of _ F'])
  qed
qed

lemma chain_inv_visit:
  assumes "chain_inv get_pdu room_id U (e # todo) F s" "closed get_pdu U" and e: "get_pdu e = Some p" "\<not> wrong_room room_id p"
    and add: "add_auth_events (pdu_auth_events p) (todo, shorts s F, s) = (todo', found', s')"
  shows "\<exists>new. todo' = todo @ new \<and> set new = set (pdu_auth_events p) - F \<and> found' = shorts s' (F \<union> set (pdu_auth_events p)) \<and>
    grows s s' \<and> chain_inv get_pdu room_id U todo' (F \<union> set (pdu_auth_events p)) s' \<and>
    length todo' + card (U - (F \<union> set (pdu_auth_events p))) = length todo + card (U - F)"
proof -
  note inv = chain_invD [OF assms(1)]
  have refs: "auth_ref get_pdu e b \<longleftrightarrow> b \<in> set (pdu_auth_events p)" for b using e(1) by (simp add: auth_ref_def)
  have U: "e \<in> U" "set todo \<subseteq> U" "set (pdu_auth_events p) \<subseteq> U" using inv(5) assms(2) refs by (auto simp: closed_def)
  let ?F = "F \<union> set (pdu_auth_events p)"
  obtain new where s': "short_wf s'" "has_room U s'" "grows s s'" "known s' ?F" "found' = shorts s' ?F"
    and new: "todo' = todo @ new" "distinct new" "set new = set (pdu_auth_events p) - F"
    using add_auth_events_spec [OF add inv(1-3) U(3)] by blast
  have "\<not> misplaced get_pdu room_id a \<and> (\<forall>b. auth_ref get_pdu a b \<longrightarrow> b \<in> ?F)" if a: "a \<in> ?F - set todo'" for a
  proof (cases "a = e")
    case True
    then show ?thesis using e refs by (simp add: misplaced_def)
  next
    case False
    then have "a \<in> F - set (e # todo)" using a new(1,3) by auto
    then show ?thesis using assms(1) unfolding chain_inv_def by blast
  qed
  then have "chain_inv get_pdu room_id U todo' ?F s'"
    using s' inv(4) U new(1,3) by (auto simp: chain_inv_def simp del: known_union)
  moreover have "card (U - ?F) + length new = card (U - F)"
  proof -
    have "U - F = (U - ?F) \<union> set new" "(U - ?F) \<inter> set new = {}" using new(3) U(3) by auto
    then have "card (U - F) = card (U - ?F) + card (set new)" using inv(6) by (metis card_Un_disjoint finite_Diff List.finite_set)
    then show ?thesis using distinct_card [OF new(2)] by simp
  qed
  ultimately show ?thesis using new s' by auto
qed

lemma chain_loop_spec:
  assumes "chain_inv get_pdu room_id U todo F s" "closed get_pdu U"
  shows "\<exists>r s'. chain_loop get_pdu room_id (todo, shorts s F, s) = Some (r, s') \<and>
    short_wf s' \<and> has_room U s' \<and> grows s s' \<and> chain_result get_pdu room_id todo F r s'"
  using assms(1)
proof (induction "length todo + card (U - F)" arbitrary: todo F s rule: less_induct)
  case less
  note inv = chain_invD [OF less.prems]
  show ?case
  proof (cases todo)
    case Nil
    then have "chain_result get_pdu room_id todo F (Inr (shorts s F)) s"
      using less.prems by (auto simp: chain_result_def chain_inv_def closed_def)
    then show ?thesis using inv Nil by (subst chain_loop.simps) simp
  next
    case (Cons e rest)
    note inv' = less.prems [unfolded Cons]
    show ?thesis
    proof (cases "get_pdu e")
      case None
      then have e: "\<forall>b. \<not> auth_ref get_pdu e b" "\<not> misplaced get_pdu room_id e" by (simp_all add: auth_ref_def misplaced_def)
      have "chain_inv get_pdu room_id U rest F s" by (rule chain_inv_skip [OF inv' e])
      moreover have "length rest + card (U - F) < length todo + card (U - F)" using Cons by simp
      ultimately obtain r s' where r: "chain_loop get_pdu room_id (rest, shorts s F, s) = Some (r, s')"
        "short_wf s'" "has_room U s'" "grows s s'" "chain_result get_pdu room_id rest F r s'" using less.hyps by blast
      have "chain_loop get_pdu room_id (todo, shorts s F, s) = Some (r, s')" using r(1) None Cons by (subst chain_loop.simps) simp
      then show ?thesis using r(2-4) chain_result_skip [OF r(5) e] Cons by blast
    next
      case (Some p)
      show ?thesis
      proof (cases "wrong_room room_id p")
        case True
        then have "chain_result get_pdu room_id todo F (Inl (WrongRoom e)) s"
          using Some Cons by (auto simp: chain_result_def misplaced_def)
        then show ?thesis using inv True Some Cons by (subst chain_loop.simps) simp
      next
        case False
        obtain todo' found' s1 where add: "add_auth_events (pdu_auth_events p) (rest, shorts s F, s) = (todo', found', s1)"
          by (rule prod_cases3)
        obtain new where v: "todo' = rest @ new" "set new = set (pdu_auth_events p) - F" "found' = shorts s1 (F \<union> set (pdu_auth_events p))"
          "grows s s1" "chain_inv get_pdu room_id U todo' (F \<union> set (pdu_auth_events p)) s1"
          "length todo' + card (U - (F \<union> set (pdu_auth_events p))) = length rest + card (U - F)"
          using chain_inv_visit [OF inv' assms(2) Some False add] by blast
        have "length todo' + card (U - (F \<union> set (pdu_auth_events p))) < length todo + card (U - F)" using v(6) Cons by simp
        from less.hyps [OF this v(5)] obtain r s' where r: "chain_loop get_pdu room_id (todo', found', s1) = Some (r, s')"
          "short_wf s'" "has_room U s'" "grows s1 s'" "chain_result get_pdu room_id todo' (F \<union> set (pdu_auth_events p)) r s'"
          unfolding v(3) by blast
        have "chain_loop get_pdu room_id (todo, shorts s F, s) = Some (r, s')"
          using r(1) add Some Cons False by (subst chain_loop.simps) simp
        then show ?thesis
          using r grows_trans [OF v(4) r(4)] chain_result_visit [of get_pdu, OF Some False v(2)] v(1) Cons by blast
      qed
    qed
  qed
qed

section \<open>The caches hold whole chains\<close>

text \<open>What is assumed of the parameters: an insertion into the LRU cache adds the new entry and otherwise
  only forgets; iterating a hash set visits each element; concurrent lookups all complete.\<close>

definition chain_env_law :: "chain_env \<Rightarrow> bool" where
  "chain_env_law env \<longleftrightarrow>
     (\<forall>k v cache k' v'. chain_lru env k v cache k' = Some v' \<longrightarrow> k' = k \<and> v' = v \<or> cache k' = Some v') \<and>
     (\<forall>S. finite S \<longrightarrow> set (hash_order env S) = S) \<and>
     (\<forall>xs. mset (arrive_events env xs) = mset xs) \<and> (\<forall>xs. mset (arrive_buckets env xs) = mset xs)"

definition chain_entry :: "(string \<Rightarrow> pdu option) \<Rightarrow> short_state \<Rightarrow> u64 list \<Rightarrow> u64 list \<Rightarrow> bool" where
  "chain_entry get_pdu s key v \<longleftrightarrow>
     (\<exists>es. map (get_shorteventid s) es = map Some key \<and> known s (\<Union>e \<in> set es. chain_of get_pdu e) \<and>
        set v = shorts s (\<Union>e \<in> set es. chain_of get_pdu e))"

definition caches_ok :: "(string \<Rightarrow> pdu option) \<Rightarrow> short_state \<Rightarrow> auth_chain_db \<Rightarrow> bool" where
  "caches_ok get_pdu s db \<longleftrightarrow>
     (\<forall>n bytes. shorteventid_authchain db n = Some bytes \<longrightarrow> chain_entry get_pdu s [n] (u64_chunks bytes)) \<and>
     (\<forall>key v. auth_chain_cache db key = Some v \<longrightarrow> chain_entry get_pdu s key v)"

lemma u64_chunks_concat [simp]: "u64_chunks (concat (map to_be_bytes ws)) = ws"
proof (induction ws)
  case (Cons w ws)
  then show ?case by (subst u64_chunks.simps) simp
qed (simp add: u64_chunks.simps)

lemma chain_entry_grows:
  assumes "chain_entry get_pdu s key v" "grows s s'"
  shows "chain_entry get_pdu s' key v"
proof -
  obtain es where es: "map (get_shorteventid s) es = map Some key" "known s (\<Union>e \<in> set es. chain_of get_pdu e)"
    "set v = shorts s (\<Union>e \<in> set es. chain_of get_pdu e)"
    using assms(1) unfolding chain_entry_def by blast
  have "map (get_shorteventid s') es = map Some key"
    using es(1) assms(2) by (auto simp: list_eq_iff_nth_eq grows_def)
  then show ?thesis
    unfolding chain_entry_def using es(2,3) grows_known [OF assms(2) es(2)] grows_shorts [OF assms(2) es(2)] by blast
qed

lemma caches_ok_grows: "caches_ok get_pdu s db \<Longrightarrow> grows s s' \<Longrightarrow> caches_ok get_pdu s' db"
  using chain_entry_grows unfolding caches_ok_def by blast

lemma caches_ok_lru:
  assumes "chain_env_law env" "caches_ok get_pdu s db" "chain_entry get_pdu s key v"
  shows "caches_ok get_pdu s (db\<lparr>auth_chain_cache := chain_lru env key v (auth_chain_cache db)\<rparr>)"
  using assms unfolding caches_ok_def chain_env_law_def by (auto; metis)

lemma cached_ok:
  assumes "chain_env_law env" "caches_ok get_pdu s db" "get_cached_eventid_authchain env db key = (r, db')"
  shows "caches_ok get_pdu s db'" "r = Some v \<Longrightarrow> chain_entry get_pdu s key v"
proof -
  have "caches_ok get_pdu s db' \<and> (\<forall>v. r = Some v \<longrightarrow> chain_entry get_pdu s key v)"
  proof (cases "auth_chain_cache db key")
    case (Some c)
    then have "r = Some c" "db' = db" using assms(3) by (simp_all add: get_cached_eventid_authchain_def)
    then show ?thesis using assms(2) Some unfolding caches_ok_def by blast
  next
    case None
    show ?thesis
    proof (cases "length key = 1 \<and> shorteventid_authchain db (key ! 0) \<noteq> None")
      case True
      then obtain n bytes where n: "key = [n]" "shorteventid_authchain db n = Some bytes" by (auto simp: length_Suc_conv)
      then have "r = Some (u64_chunks bytes)"
        "db' = db\<lparr>auth_chain_cache := chain_lru env [n] (u64_chunks bytes) (auth_chain_cache db)\<rparr>"
        using assms(3) None by (simp_all add: get_cached_eventid_authchain_def Let_def)
      moreover have "chain_entry get_pdu s [n] (u64_chunks bytes)" using assms(2) n(2) unfolding caches_ok_def by blast
      ultimately show ?thesis using caches_ok_lru [OF assms(1,2)] n(1) by simp
    next
      case False
      then have "r = None" "db' = db" using assms(3) None by (auto simp: get_cached_eventid_authchain_def split: if_splits)
      then show ?thesis using assms(2) by simp
    qed
  qed
  then show "caches_ok get_pdu s db'" "r = Some v \<Longrightarrow> chain_entry get_pdu s key v" by simp_all
qed

lemma cache_auth_chain_ok:
  assumes "chain_env_law env" "caches_ok get_pdu s db" "chain_entry get_pdu s key v"
  shows "caches_ok get_pdu s (cache_auth_chain env key v db)"
proof -
  let ?db = "if length key = 1
    then db\<lparr>shorteventid_authchain := (shorteventid_authchain db)(key ! 0 \<mapsto> concat (map to_be_bytes v))\<rparr> else db"
  have "caches_ok get_pdu s ?db"
    using assms(2,3) by (auto simp: caches_ok_def length_Suc_conv)
  then show ?thesis using caches_ok_lru [OF assms(1) _ assms(3)] by (simp add: cache_auth_chain_def Let_def)
qed

text \<open>The events of a key are determined by it.\<close>

lemma chain_entry_events:
  assumes "short_wf s" "chain_entry get_pdu s key v" "map (get_shorteventid s) es = map Some key"
  shows "known s (\<Union>e \<in> set es. chain_of get_pdu e)" "set v = shorts s (\<Union>e \<in> set es. chain_of get_pdu e)"
proof -
  obtain es' where es': "map (get_shorteventid s) es' = map Some key" "known s (\<Union>e \<in> set es'. chain_of get_pdu e)"
    "set v = shorts s (\<Union>e \<in> set es'. chain_of get_pdu e)"
    using assms(2) unfolding chain_entry_def by blast
  have len: "length es' = length key" "length es = length key" using es'(1) assms(3) map_eq_imp_length_eq by fastforce+
  have "es' ! i = es ! i" if "i < length key" for i
  proof -
    have "get_shorteventid s (es' ! i) = Some (key ! i)" "get_shorteventid s (es ! i) = Some (key ! i)"
      using that len es'(1) assms(3) by (metis nth_map)+
    then show ?thesis using eid.look_inj [OF assms(1)] by blast
  qed
  then have "es' = es" using len by (intro nth_equalityI) simp_all
  then show "known s (\<Union>e \<in> set es. chain_of get_pdu e)" "set v = shorts s (\<Union>e \<in> set es. chain_of get_pdu e)"
    using es'(2,3) by simp_all
qed

section \<open>Chains of groups\<close>

text \<open>The setting: all events within reach are in the room, and there are short ids left for them.\<close>

definition chain_ok :: "(string \<Rightarrow> pdu option) \<Rightarrow> string set \<Rightarrow> chain_state \<Rightarrow> bool" where
  "chain_ok get_pdu U st \<longleftrightarrow> short_wf (snd st) \<and> has_room U (snd st) \<and> caches_ok get_pdu (snd st) (fst st)"

definition room_events :: "(string \<Rightarrow> pdu option) \<Rightarrow> string \<Rightarrow> string set \<Rightarrow> bool" where
  "room_events get_pdu room_id U \<longleftrightarrow> closed get_pdu U \<and> (\<forall>e \<in> U. \<not> misplaced get_pdu room_id e)"

definition holds_chain :: "(string \<Rightarrow> pdu option) \<Rightarrow> string set \<Rightarrow> u64 list \<Rightarrow> chain_state \<Rightarrow> bool" where
  "holds_chain get_pdu E v st \<longleftrightarrow> known (snd st) (\<Union>e \<in> E. chain_of get_pdu e) \<and>
     set v = shorts (snd st) (\<Union>e \<in> E. chain_of get_pdu e)"

lemma holds_chain_grows: "holds_chain get_pdu E v st \<Longrightarrow> grows (snd st) (snd st') \<Longrightarrow> holds_chain get_pdu E v st'"
  unfolding holds_chain_def by (metis grows_known grows_shorts)

lemma inner_spec:
  assumes "short_wf s" "has_room U s" "closed get_pdu U" "e \<in> U" "chain_env_law env"
  shows "\<exists>r s'. get_auth_chain_inner env get_pdu room_id e s = Some (r, s') \<and> short_wf s' \<and> has_room U s' \<and> grows s s' \<and>
    (case r of
       Inl _ \<Rightarrow> \<exists>a \<in> insert e (chain_of get_pdu e). misplaced get_pdu room_id a
     | Inr v \<Rightarrow> (\<forall>a \<in> insert e (chain_of get_pdu e). \<not> misplaced get_pdu room_id a) \<and>
         known s' (chain_of get_pdu e) \<and> set v = shorts s' (chain_of get_pdu e))"
proof -
  have "chain_inv get_pdu room_id U [e] {} s" using assms(1,2,4) by (simp add: chain_inv_def)
  from chain_loop_spec [OF this assms(3)] obtain r s' where r: "chain_loop get_pdu room_id ([e], {}, s) = Some (r, s')"
    "short_wf s'" "has_room U s'" "grows s s'" "chain_result get_pdu room_id [e] {} r s'" by auto
  have fin: "finite (chain_of get_pdu e)"
    using chain_of_subset [OF assms(3,4)] assms(2) finite_subset unfolding has_room_def by blast
  show ?thesis
  proof (cases r)
    case (Inl er)
    then show ?thesis using r by (auto simp: get_auth_chain_inner_def chain_result_def)
  next
    case (Inr found)
    then obtain F' where F': "found = shorts s' F'" "known s' F'" "closed get_pdu F'" "F' \<subseteq> chain_of get_pdu e"
      "\<forall>b. auth_ref get_pdu e b \<longrightarrow> b \<in> F'" "\<forall>a \<in> insert e F'. \<not> misplaced get_pdu room_id a"
      using r(5) by (auto simp: chain_result_def)
    have eq: "F' = chain_of get_pdu e" using chain_of_closed [OF F'(3,5)] F'(4) by blast
    have "shorts s' F' \<subseteq> (\<lambda>e. the (get_shorteventid s' e)) ` F'" by (force simp: shorts_def)
    then have "finite found" using fin eq F'(1) finite_subset by blast
    then have "set (hash_order env found) = shorts s' (chain_of get_pdu e)"
      using assms(5) eq F'(1) unfolding chain_env_law_def by blast
    then show ?thesis using r(1-4) Inr F'(2,6) eq by (simp add: get_auth_chain_inner_def)
  qed
qed

lemma holds_chain_join:
  assumes "holds_chain get_pdu E v st" "holds_chain get_pdu E' v' st"
  shows "holds_chain get_pdu (E \<union> E') (v @ v') st"
  using assms by (simp add: holds_chain_def UN_Un)

text \<open>Looking up the chains of several groups one after the other.\<close>

lemma chain_try_each:
  assumes "\<And>x st. x \<in> set xs \<Longrightarrow> chain_ok get_pdu U st \<Longrightarrow> grows base (snd st) \<Longrightarrow>
      \<exists>y st'. f x st = Some (Inr y, st') \<and> chain_ok get_pdu U st' \<and> grows (snd st) (snd st') \<and> holds_chain get_pdu (G x) y st'"
    and "chain_ok get_pdu U st" "grows base (snd st)"
  shows "\<exists>ys st'. try_each f xs st = Some (Inr ys, st') \<and> chain_ok get_pdu U st' \<and> grows (snd st) (snd st') \<and>
    holds_chain get_pdu (\<Union>x \<in> set xs. G x) (concat ys) st'"
  using assms
proof (induction xs arbitrary: st)
  case Nil
  then show ?case by (simp add: holds_chain_def)
next
  case (Cons x xs)
  obtain y st1 where y: "f x st = Some (Inr y, st1)" "chain_ok get_pdu U st1" "grows (snd st) (snd st1)" "holds_chain get_pdu (G x) y st1"
    using Cons.prems(1) [of x st] Cons.prems(2,3) by auto
  have st1: "grows base (snd st1)" using grows_trans Cons.prems(3) y(3) by blast
  obtain ys st' where ys: "try_each f xs st1 = Some (Inr ys, st')" "chain_ok get_pdu U st'" "grows (snd st1) (snd st')"
    "holds_chain get_pdu (\<Union>x \<in> set xs. G x) (concat ys) st'"
    using Cons.IH [OF _ y(2) st1] Cons.prems(1) by (metis list.set_intros(2))
  have "holds_chain get_pdu (\<Union>x \<in> set (x # xs). G x) (concat (y # ys)) st'"
    using holds_chain_join [OF holds_chain_grows [OF y(4) ys(3)] ys(4)] by simp
  moreover have "try_each f (x # xs) st = Some (Inr (y # ys), st')" using y(1) ys(1) by simp
  ultimately show ?case using ys(2) grows_trans [OF y(3) ys(3)] by blast
qed

lemma sort_dedup_set [simp]: "set (sort_dedup xs) = set xs"
  by (simp add: sort_dedup_def)

lemma distinct_remdups_adj_sorted: "sorted xs \<Longrightarrow> distinct (remdups_adj xs)"
  by (induction xs rule: remdups_adj.induct) auto

lemma sort_dedup_sorted: "sorted (sort_dedup xs)" "distinct (sort_dedup xs)"
  by (simp_all add: sort_dedup_def distinct_remdups_adj_sorted)

lemma chunk_event_spec:
  assumes env: "chain_env_law env" and U: "room_events get_pdu room_id U" "e \<in> U"
    and st: "chain_ok get_pdu U st" "get_shorteventid (snd st) e = Some n"
  shows "\<exists>v st'. chunk_event env get_pdu room_id (n, e) st = Some (Inr v, st') \<and> chain_ok get_pdu U st' \<and>
    grows (snd st) (snd st') \<and> holds_chain get_pdu {e} v st'"
proof -
  obtain db s where s: "st = (db, s)" by (cases st)
  have ok: "short_wf s" "has_room U s" "caches_ok get_pdu s db" using st(1) s by (simp_all add: chain_ok_def)
  have look: "get_shorteventid s e = Some n" using st(2) s by simp
  obtain r db1 where c: "get_cached_eventid_authchain env db [n] = (r, db1)" by fastforce
  note db1 = cached_ok [OF env ok(3) c]
  show ?thesis
  proof (cases r)
    case (Some v)
    have "known s (\<Union>e \<in> set [e]. chain_of get_pdu e)" "set v = shorts s (\<Union>e \<in> set [e]. chain_of get_pdu e)"
      by (rule chain_entry_events [OF ok(1) db1(2) [OF Some]], simp add: look)+
    then show ?thesis using Some c s ok db1(1) by (auto simp: chunk_event_def chain_ok_def holds_chain_def)
  next
    case None
    have closed: "closed get_pdu U" "\<forall>a \<in> insert e (chain_of get_pdu e). \<not> misplaced get_pdu room_id a"
      using U chain_of_subset [of get_pdu U e] unfolding room_events_def by blast+
    obtain v s' where v: "get_auth_chain_inner env get_pdu room_id e s = Some (Inr v, s')" "short_wf s'" "has_room U s'" "grows s s'"
      "known s' (chain_of get_pdu e)" "set v = shorts s' (chain_of get_pdu e)"
      using inner_spec [OF ok(1,2) closed(1) U(2) env, of room_id] closed(2) by (elim exE conjE) (case_tac r; auto)
    have "chain_entry get_pdu s' [n] v"
      unfolding chain_entry_def by (rule exI [of _ "[e]"]) (use v look in \<open>auto simp: grows_def\<close>)
    then have "caches_ok get_pdu s' (cache_auth_chain env [n] v db1)"
      using cache_auth_chain_ok [OF env caches_ok_grows [OF db1(1) v(4)]] by blast
    then show ?thesis using None c s v by (auto simp: chunk_event_def chain_ok_def holds_chain_def)
  qed
qed

lemma outer_spec:
  assumes env: "chain_env_law env" and U: "room_events get_pdu room_id U" "snd ` set chunk \<subseteq> U"
    and st: "chain_ok get_pdu U st" "\<forall>(n, e) \<in> set chunk. get_shorteventid (snd st) e = Some n"
  shows "\<exists>v st'. get_auth_chain_outer env get_pdu room_id chunk st = Some (Inr v, st') \<and> chain_ok get_pdu U st' \<and>
    grows (snd st) (snd st') \<and> holds_chain get_pdu (snd ` set chunk) v st'"
proof (cases "chunk = []")
  case True
  then show ?thesis using st(1) by (simp add: get_auth_chain_outer_def holds_chain_def)
next
  case False
  obtain db s where s: "st = (db, s)" by (cases st)
  have ok: "short_wf s" "has_room U s" "caches_ok get_pdu s db" using st(1) s by (simp_all add: chain_ok_def)
  have key: "map (get_shorteventid s) (map snd chunk) = map Some (map fst chunk)" using st(2) s by (auto simp: case_prod_beta)
  obtain r db1 where c: "get_cached_eventid_authchain env db (map fst chunk) = (r, db1)" by fastforce
  note db1 = cached_ok [OF env ok(3) c]
  show ?thesis
  proof (cases r)
    case (Some v)
    have "holds_chain get_pdu (snd ` set chunk) v (db1, s)"
      using chain_entry_events [OF ok(1) db1(2) [OF Some] key] by (simp add: holds_chain_def)
    then show ?thesis using Some c s ok db1(1) False by (auto simp: get_auth_chain_outer_def Let_def chain_ok_def)
  next
    case None
    let ?evs = "arrive_events env chunk"
    have "mset ?evs = mset chunk" using env unfolding chain_env_law_def by blast
    then have evs: "set ?evs = set chunk" by (rule mset_eq_setD)
    have st1: "chain_ok get_pdu U (db1, s)" using ok db1(1) by (simp add: chain_ok_def)
    have step: "\<exists>y st'. chunk_event env get_pdu room_id x t = Some (Inr y, st') \<and> chain_ok get_pdu U st' \<and>
        grows (snd t) (snd st') \<and> holds_chain get_pdu {snd x} y st'"
      if x: "x \<in> set ?evs" and t: "chain_ok get_pdu U t" "grows s (snd t)" for x t
    proof -
      obtain n e where ne: "x = (n, e)" by (cases x)
      then have "(n, e) \<in> set chunk" using x evs by simp
      then have "e \<in> U" "get_shorteventid s e = Some n" using U(2) st(2) s by force+
      then show ?thesis using chunk_event_spec [OF env U(1) _ t(1)] t(2) ne by (simp add: grows_def)
    qed
    obtain vs st' where vs: "try_each (chunk_event env get_pdu room_id) ?evs (db1, s) = Some (Inr vs, st')" "chain_ok get_pdu U st'"
      "grows s (snd st')" "holds_chain get_pdu (\<Union>x \<in> set ?evs. {snd x}) (concat vs) st'"
      using chain_try_each [of ?evs get_pdu U s "chunk_event env get_pdu room_id" "\<lambda>x. {snd x}" "(db1, s)", OF step st1] by auto
    obtain db2 s2 where s2: "st' = (db2, s2)" by (cases st')
    have hold: "holds_chain get_pdu (snd ` set chunk) (sort_dedup (concat vs)) (db, s2)" for db
      using vs(4) by (simp add: holds_chain_def evs s2)
    have "chain_entry get_pdu s2 (map fst chunk) (sort_dedup (concat vs))"
      unfolding chain_entry_def
      by (rule exI [of _ "map snd chunk"]) (use hold vs(3) s2 st(2) s in \<open>auto simp: holds_chain_def grows_def case_prod_beta\<close>)
    then have "caches_ok get_pdu s2 (cache_auth_chain env (map fst chunk) (sort_dedup (concat vs)) db2)"
      using cache_auth_chain_ok [OF env] vs(2) s2 by (simp add: chain_ok_def)
    then show ?thesis using None c s vs s2 hold False by (auto simp: get_auth_chain_outer_def Let_def chain_ok_def)
  qed
qed

lemma each_get_or_create_spec:
  assumes "short_wf s" "has_room U s" "set es \<subseteq> U" "each_get_or_create s es = (ns, s')"
  shows "short_wf s' \<and> has_room U s' \<and> grows s s' \<and> map (get_shorteventid s') es = map Some ns"
  using assms
proof (induction es arbitrary: s ns)
  case (Cons e es)
  obtain n s1 where n: "get_or_create_shorteventid s e = (n, s1)" by fastforce
  obtain ns1 s2 where each: "each_get_or_create s1 es = (ns1, s2)" by fastforce
  then have ns: "each_get_or_create s1 es = (ns1, s')" "ns = n # ns1" using Cons.prems(4) n by simp_all
  note s1 = intern_event [OF Cons.prems(1,2) _ n]
  have U: "e \<in> U" "set es \<subseteq> U" using Cons.prems(3) by simp_all
  have ih: "short_wf s'" "has_room U s'" "grows s1 s'" "map (get_shorteventid s') es = map Some ns1"
    using Cons.IH [OF s1(1,2) [OF U(1)] U(2) ns(1)] by simp_all
  then show ?case using s1(3,4) [OF U(1)] ns(2) grows_trans by (auto simp: grows_def)
qed simp

lemma chain_buckets_events:
  assumes "length ns = length es"
  shows "(\<Union>b \<in> set (chain_buckets (zip ns es)). snd ` set b) = set es" "b \<in> set (chain_buckets (zip ns es)) \<Longrightarrow> set b \<subseteq> set (zip ns es)"
proof -
  show sub: "b \<in> set (chain_buckets (zip ns es)) \<Longrightarrow> set b \<subseteq> set (zip ns es)" for b
    by (auto simp: chain_buckets_def)
  have "p \<in> (\<Union>b \<in> set (chain_buckets (zip ns es)). set b)" if "p \<in> set (zip ns es)" for p
    using that by (auto simp: chain_buckets_def NUM_BUCKETS_def intro!: bexI [of _ "unat (fst p) mod 50"])
  then have "(\<Union>b \<in> set (chain_buckets (zip ns es)). set b) = set (zip ns es)" using sub by blast
  then have "snd ` (\<Union>b \<in> set (chain_buckets (zip ns es)). set b) = snd ` set (zip ns es)" by (rule arg_cong)
  also have "\<dots> = set es" using assms by (simp only: map_snd_zip flip: set_map)
  finally show "(\<Union>b \<in> set (chain_buckets (zip ns es)). snd ` set b) = set es" by (simp only: image_UN)
qed

lemma get_auth_chain_spec:
  assumes env: "chain_env_law env" and U: "room_events get_pdu room_id U" "set es \<subseteq> U" "distinct es" and st: "chain_ok get_pdu U st"
  shows "\<exists>v st'. get_auth_chain env get_pdu room_id es st = Some (Inr v, st') \<and> chain_ok get_pdu U st' \<and>
    grows (snd st) (snd st') \<and> sorted v \<and> distinct v \<and> holds_chain get_pdu (set es) v st'"
proof -
  obtain db s where s: "st = (db, s)" by (cases st)
  have ok: "short_wf s" "has_room U s" "caches_ok get_pdu s db" using st s by (simp_all add: chain_ok_def)
  obtain ns s1 where ns: "multi_get_or_create_shorteventid s es = (ns, s1)" by fastforce
  then have "each_get_or_create s es = (ns, s1)" using U(3) create_missing_each [of es "eventid_shorteventid s" s]
    by (simp add: multi_get_or_create_shorteventid_def)
  from each_get_or_create_spec [OF ok(1,2) U(2) this]
  have s1: "short_wf s1" "has_room U s1" "grows s s1" "map (get_shorteventid s1) es = map Some ns" by simp_all
  have st1: "chain_ok get_pdu U (db, s1)" using s1 caches_ok_grows [OF ok(3)] by (simp add: chain_ok_def)
  have len: "length ns = length es" using map_eq_imp_length_eq [OF s1(4)] by simp
  have look: "get_shorteventid s1 e = Some n" if ne: "(n, e) \<in> set (zip ns es)" for n e
  proof -
    obtain i where "i < length es" "es ! i = e" "ns ! i = n" using ne len by (auto simp: in_set_zip)
    then show ?thesis using s1(4) len by (metis nth_map)
  qed
  let ?bs = "arrive_buckets env (chain_buckets (zip ns es))"
  have "mset ?bs = mset (chain_buckets (zip ns es))" using env unfolding chain_env_law_def by blast
  then have bs: "set ?bs = set (chain_buckets (zip ns es))" by (rule mset_eq_setD)
  have step: "\<exists>y st'. get_auth_chain_outer env get_pdu room_id b t = Some (Inr y, st') \<and> chain_ok get_pdu U st' \<and>
      grows (snd t) (snd st') \<and> holds_chain get_pdu (snd ` set b) y st'"
    if b: "b \<in> set ?bs" and t: "chain_ok get_pdu U t" "grows s1 (snd t)" for b t
  proof -
    have sub: "set b \<subseteq> set (zip ns es)" using chain_buckets_events(2) [OF len] b bs by simp
    then have "snd ` set b \<subseteq> U" using U(2) set_zip_rightD by fastforce
    moreover have "\<forall>(n, e) \<in> set b. get_shorteventid (snd t) e = Some n" using sub look t(2) by (auto simp: grows_def)
    ultimately show ?thesis using outer_spec [OF env U(1) _ t(1)] by blast
  qed
  obtain vs st' where vs: "try_each (get_auth_chain_outer env get_pdu room_id) ?bs (db, s1) = Some (Inr vs, st')" "chain_ok get_pdu U st'"
    "grows s1 (snd st')" "holds_chain get_pdu (\<Union>b \<in> set ?bs. snd ` set b) (concat vs) st'"
    using chain_try_each [of ?bs get_pdu U s1 "get_auth_chain_outer env get_pdu room_id" "\<lambda>b. snd ` set b" "(db, s1)", OF step st1] by auto
  have "holds_chain get_pdu (set es) (sort_dedup (concat vs)) st'"
    using vs(4) chain_buckets_events(1) [OF len] by (simp add: holds_chain_def bs)
  moreover have "get_auth_chain env get_pdu room_id es st = Some (Inr (sort_dedup (concat vs)), st')"
    using vs(1) ns s by (simp add: get_auth_chain_def Let_def)
  ultimately show ?thesis using vs(2) grows_trans [OF s1(3) vs(3)] sort_dedup_sorted s by auto
qed

text \<open>A chain is computed once: whatever events arrive later, and for whatever room it is asked for, the next lookup
  returns the same chain. Since an event that is not stored has no references, a chain that was computed while an event of
  it was missing stays incomplete.\<close>

lemma chain_computed_once:
  assumes env: "chain_env_law env" and first: "chunk_event env get_pdu room_id (n, e) st = Some (Inr v, st')"
  shows "\<exists>st''. chunk_event env get_pdu' room_id' (n, e) st' = Some (Inr v, st'')"
proof -
  obtain db s where s: "st = (db, s)" by (cases st)
  have lru: "v' = v \<or> cache k = Some v'" if found: "chain_lru env k v cache k = Some v'" for k v cache v'
  proof -
    have "\<forall>k v cache k' v'. chain_lru env k v cache k' = Some v' \<longrightarrow> k' = k \<and> v' = v \<or> cache k' = Some v'"
      using env unfolding chain_env_law_def by (elim conjE)
    then show ?thesis using found by blast
  qed
  obtain r db1 where c: "get_cached_eventid_authchain env db [n] = (r, db1)" by fastforce
  have "\<exists>db2. get_cached_eventid_authchain env (fst st') [n] = (Some v, db2)"
  proof (cases r)
    case (Some w)
    then have v: "v = w" "fst st' = db1" using first c s by (auto simp: chunk_event_def)
    show ?thesis
    proof (cases "auth_chain_cache db [n]")
      case None
      then obtain bytes where b: "shorteventid_authchain db n = Some bytes" "w = u64_chunks bytes"
        "db1 = db\<lparr>auth_chain_cache := chain_lru env [n] w (auth_chain_cache db)\<rparr>"
        using c Some by (auto simp: get_cached_eventid_authchain_def Let_def split: option.splits)
      have "x = w" if "auth_chain_cache db1 [n] = Some x" for x using lru that None b(3) by fastforce
      then show ?thesis using v b by (cases "auth_chain_cache db1 [n]") (simp_all add: get_cached_eventid_authchain_def Let_def)
    qed (use c Some v in \<open>simp add: get_cached_eventid_authchain_def\<close>)
  next
    case None
    then have none: "auth_chain_cache db [n] = None" "db1 = db"
      using c by (auto simp: get_cached_eventid_authchain_def Let_def split: option.splits)
    have st': "fst st' = cache_auth_chain env [n] v db"
    proof -
      obtain q s2 where q: "get_auth_chain_inner env get_pdu room_id e s = Some (q, s2)"
        using first c s None by (auto simp: chunk_event_def bind_eq_Some_conv)
      then show ?thesis using first c s None none(2) by (cases q) (auto simp: chunk_event_def)
    qed
    have "x = v" if "auth_chain_cache (fst st') [n] = Some x" for x
      using lru that none(1) by (fastforce simp: st' cache_auth_chain_def Let_def)
    moreover have "shorteventid_authchain (fst st') n = Some (concat (map to_be_bytes v))"
      by (simp add: st' cache_auth_chain_def Let_def)
    ultimately show ?thesis
      by (cases "auth_chain_cache (fst st') [n]") (simp_all add: get_cached_eventid_authchain_def Let_def)
  qed
  then show ?thesis by (cases st') (auto simp: chunk_event_def)
qed

section \<open>Example values\<close>

definition demo_chain_env :: chain_env where
  "demo_chain_env = \<lparr>chain_lru = (\<lambda>k v cache. cache(k \<mapsto> v)), hash_order = sorted_list_of_set, arrive_events = id, arrive_buckets = rev\<rparr>"

definition demo_event :: "string \<Rightarrow> string list \<Rightarrow> pdu" where
  "demo_event e refs = \<lparr>pdu_event_id = e, pdu_room_id = Some ''!r'', pdu_sender = ''@u:x'', pdu_origin_server_ts = 0,
     pdu_kind = RoomMember, pdu_content = [], pdu_state_key = None, pdu_prev_events = [], pdu_auth_events = refs,
     pdu_redacts = None, pdu_unsigned = None\<rparr>"


definition demo_get_pdu :: "string \<Rightarrow> pdu option" where
  "demo_get_pdu = [''$a'' \<mapsto> demo_event ''$a'' [''$b'', ''$c''], ''$b'' \<mapsto> demo_event ''$b'' [''$c'']]"

definition demo_chain_db :: auth_chain_db where
  "demo_chain_db = \<lparr>shorteventid_authchain = Map.empty, auth_chain_cache = Map.empty\<rparr>"

lemma demo_chain_law: "chain_env_law demo_chain_env"
  by (auto simp: chain_env_law_def demo_chain_env_def split: if_splits)

lemma demo_refs: "auth_ref demo_get_pdu a b \<longleftrightarrow> a = ''$a'' \<and> b \<in> {''$b'', ''$c''} \<or> a = ''$b'' \<and> b = ''$c''"
  by (auto simp: auth_ref_def demo_get_pdu_def demo_event_def split: if_splits)

lemma demo_chain: "chain_of demo_get_pdu ''$a'' = {''$b'', ''$c''}"
proof
  show "chain_of demo_get_pdu ''$a'' \<subseteq> {''$b'', ''$c''}" by (rule chain_of_closed) (auto simp: closed_def demo_refs)
  show "{''$b'', ''$c''} \<subseteq> chain_of demo_get_pdu ''$a''" using chain_of_ref(1) [of demo_get_pdu "''$a''"] by (auto simp: demo_refs)
qed

lemma demo_room: "room_events demo_get_pdu ''!r'' {''$a'', ''$b'', ''$c''}"
proof -
  have "\<not> misplaced demo_get_pdu ''!r'' e" for e
    by (auto simp: misplaced_def wrong_room_def demo_get_pdu_def demo_event_def split: if_splits)
  then show ?thesis by (auto simp: room_events_def closed_def demo_refs)
qed

lemma demo_state: "has_room {''$a'', ''$b'', ''$c''} short_init" "chain_ok demo_get_pdu {''$a'', ''$b'', ''$c''} (demo_chain_db, short_init)"
proof -
  have "card {e \<in> {''$a'', ''$b'', ''$c''}. get_shorteventid short_init e = None} \<le> card {''$a'', ''$b'', ''$c''}"
    by (rule card_mono) auto
  then show room: "has_room {''$a'', ''$b'', ''$c''} short_init" by (simp add: has_room_def)
  then show "chain_ok demo_get_pdu {''$a'', ''$b'', ''$c''} (demo_chain_db, short_init)"
    by (simp add: chain_ok_def caches_ok_def demo_chain_db_def)
qed

section \<open>Properties\<close>

text \<open>C40: the walk over the auth events of an event always ends. It fails exactly if the event or something it
  refers to claims another room; otherwise it finds the short ids of exactly the events that the event refers to, directly or
  through others.\<close>

theorem auth_chain_inner_exact:
  assumes "short_wf s" "has_room U s" "closed get_pdu U" "e \<in> U" "chain_env_law env"
  shows "\<exists>r s'. get_auth_chain_inner env get_pdu room_id e s = Some (r, s') \<and>
    ((\<exists>er. r = Inl er) \<longleftrightarrow> (\<exists>a \<in> insert e (chain_of get_pdu e). misplaced get_pdu room_id a)) \<and>
    (\<forall>v. r = Inr v \<longrightarrow> set v = shorts s' (chain_of get_pdu e) \<and> known s' (chain_of get_pdu e))"
proof -
  obtain r s' where r: "get_auth_chain_inner env get_pdu room_id e s = Some (r, s')"
    "case r of Inl _ \<Rightarrow> \<exists>a \<in> insert e (chain_of get_pdu e). misplaced get_pdu room_id a
     | Inr v \<Rightarrow> (\<forall>a \<in> insert e (chain_of get_pdu e). \<not> misplaced get_pdu room_id a) \<and>
         known s' (chain_of get_pdu e) \<and> set v = shorts s' (chain_of get_pdu e)"
    using inner_spec [OF assms(1-5), of room_id] by blast
  then show ?thesis by (cases r) auto
qed

theorem auth_chain_inner_exact_witness:
  "\<exists>v s'. get_auth_chain_inner demo_chain_env demo_get_pdu ''!r'' ''$a'' short_init = Some (Inr v, s') \<and>
     set v = shorts s' {''$b'', ''$c''}"
proof -
  have placed: "\<forall>a \<in> {''$a'', ''$b'', ''$c''}. \<not> misplaced demo_get_pdu ''!r'' a" and closed: "closed demo_get_pdu {''$a'', ''$b'', ''$c''}"
    using demo_room by (simp_all add: room_events_def)
  obtain r s' where r: "get_auth_chain_inner demo_chain_env demo_get_pdu ''!r'' ''$a'' short_init = Some (r, s')"
    "(\<exists>er. r = Inl er) \<longleftrightarrow> (\<exists>a \<in> insert ''$a'' (chain_of demo_get_pdu ''$a''). misplaced demo_get_pdu ''!r'' a)"
    "\<forall>v. r = Inr v \<longrightarrow> set v = shorts s' (chain_of demo_get_pdu ''$a'') \<and> known s' (chain_of demo_get_pdu ''$a'')"
    using auth_chain_inner_exact [OF short_wf_init demo_state(1) closed insertI1 demo_chain_law, of "''!r''"] by blast
  then obtain v where "r = Inr v" using placed by (cases r) (auto simp: demo_chain)
  then show ?thesis using r(1,3) demo_chain by simp
qed

text \<open>C12: for events of a room whose references are all within it, the service returns the ids of exactly the
  events in their auth chains, each once, whether the chains come from the caches or are computed; the caches
  afterwards hold whole chains again.\<close>

theorem auth_chain_exact:
  assumes "chain_env_law env" "room_events get_pdu room_id U" "set es \<subseteq> U" "distinct es" "chain_ok get_pdu U st"
  shows "\<exists>ids st'. event_ids_iter env get_pdu room_id es st = Some (Inr ids, st') \<and> distinct ids \<and>
    set ids = (\<Union>e \<in> set es. chain_of get_pdu e) \<and> chain_ok get_pdu U st'"
proof -
  let ?C = "\<Union>e \<in> set es. chain_of get_pdu e"
  obtain v st' where v: "get_auth_chain env get_pdu room_id es st = Some (Inr v, st')" "chain_ok get_pdu U st'" "distinct v"
    "known (snd st') ?C" "set v = shorts (snd st') ?C"
    using get_auth_chain_spec [OF assms] unfolding holds_chain_def by blast
  let ?ids = "List.map_filter id (multi_get_eventid_from_short (snd st') v)"
  have wf: "short_wf (snd st')" using v(2) by (simp add: chain_ok_def)
  have inv: "get_eventid_from_short (snd st') n = Some e \<longleftrightarrow> get_shorteventid (snd st') e = Some n" for n e
    by (rule get_eventid_inverse [OF wf])
  have ids: "?ids = List.map_filter (get_eventid_from_short (snd st')) v"
    by (simp add: multi_get_eventid_from_short_def get_eventid_from_short_def List.map_filter_def filter_map comp_def)
  have "set ?ids = {e. \<exists>n \<in> set v. get_eventid_from_short (snd st') n = Some e}"
    unfolding ids by (force simp: List.map_filter_def)
  also have "\<dots> = ?C"
  proof
    show "{e. \<exists>n \<in> set v. get_eventid_from_short (snd st') n = Some e} \<subseteq> ?C"
      unfolding inv v(5) using shorts_mem [OF wf] by blast
    show "?C \<subseteq> {e. \<exists>n \<in> set v. get_eventid_from_short (snd st') n = Some e}"
    proof
      fix e assume e: "e \<in> ?C"
      then obtain n where "get_shorteventid (snd st') e = Some n" using v(4) unfolding known_def by blast
      with e show "e \<in> {e. \<exists>n \<in> set v. get_eventid_from_short (snd st') n = Some e}"
        unfolding inv v(5) shorts_def by blast
    qed
  qed
  finally have "set ?ids = ?C" .
  moreover have "distinct ?ids"
  proof -
    have "inj_on (the \<circ> get_eventid_from_short (snd st')) {n \<in> set v. get_eventid_from_short (snd st') n \<noteq> None}"
    proof (rule inj_onI)
      fix n m assume "n \<in> {n \<in> set v. get_eventid_from_short (snd st') n \<noteq> None}" "m \<in> {n \<in> set v. get_eventid_from_short (snd st') n \<noteq> None}"
        "(the \<circ> get_eventid_from_short (snd st')) n = (the \<circ> get_eventid_from_short (snd st')) m"
      then obtain e where "get_eventid_from_short (snd st') n = Some e" "get_eventid_from_short (snd st') m = Some e" by auto
      then show "n = m" by (simp add: inv)
    qed
    then show ?thesis unfolding ids using v(3) by (simp add: List.map_filter_def distinct_map comp_def)
  qed
  ultimately show ?thesis using v(1,2) by (simp add: event_ids_iter_def)
qed

theorem auth_chain_exact_witness:
  "\<exists>ids st'. event_ids_iter demo_chain_env demo_get_pdu ''!r'' [''$a''] (demo_chain_db, short_init) = Some (Inr ids, st') \<and>
     set ids = {''$b'', ''$c''}"
  using auth_chain_exact [OF demo_chain_law demo_room _ _ demo_state(2), of "[''$a'']"] by (auto simp: demo_chain)

end
