(* ===== verification/Spec2Isabelle.thy ===== *)
theory Spec2Isabelle
  imports Prelude Pdu_Count Kv_Map Pdu_Id Timeline_Data Short_Ids Matrix_Types Power_Levels Event_Auth
    Topo_Sort State_Sets Auth_Graph Mainline Conflicted_Subgraph State_Res State_Diff Room_State Records Account_Data
    Set_Ops Invite_Filter State_Cache Memberships Transactions Auth_Chain
begin

text \<open>
  A verification library for the core of continuwuity, a Matrix homeserver.

  \<^bold>\<open>The program.\<close> A homeserver holds copies of rooms that it shares with other servers. A room is a graph
  of signed events; each event names the events before it and the events that authorize it. The server
  decides whether an event is allowed (\<open>src/core/matrix/state_res/event_auth.rs\<close>), merges the room
  states of concurrent branches (\<open>src/core/matrix/state_res/mod.rs\<close>), and stores states, the order of
  events and who is in which room in the ordered columns of RocksDB (\<open>src/service\<close>, \<open>src/database\<close>).
  The services call each other: the room state (\<open>rooms/state\<close>) uses the compressor
  (\<open>rooms/state_compressor\<close>) and the table of short ids (\<open>rooms/short\<close>), which uses the global counter
  (\<open>globals\<close>); the membership tables (\<open>rooms/state_cache\<close>) use account data and the invite filter; every
  key goes through the record codec (\<open>database/ser.rs\<close>, \<open>de.rs\<close>).

  \<^bold>\<open>Theories\<close>, in the order in which they build on each other.
  \<^item> \<^theory_text>\<open>Prelude\<close>: Rust's integers, big-endian bytes, association lists for hash maps, results as sums.
  \<^item> \<^theory_text>\<open>Pdu_Count\<close> (\<open>core/matrix/pdu/count.rs\<close>): positions in a timeline, their arithmetic with overflow and
    their tokens. Lemmas: order, exact steps within bounds, round trip of tokens.
  \<^item> \<^theory_text>\<open>Kv_Map\<close> (\<open>database/map\<close>): the contract of an ordered column as the locale \<open>ordered_column\<close>,
    interpreted on sorted association lists, with prefix scans.
  \<^item> \<^theory_text>\<open>Pdu_Id\<close> (\<open>core/matrix/pdu/id.rs\<close>, \<open>raw_id.rs\<close>) and \<^theory_text>\<open>Timeline_Data\<close>
    (\<open>service/rooms/timeline/data.rs\<close>): keys of events and the timeline columns. Lemmas: the order of keys is the
    order of positions, pagination returns exactly the events after or before a position, in order.
  \<^item> \<^theory_text>\<open>Short_Ids\<close> (\<open>service/globals/data.rs\<close>, \<open>service/rooms/short/mod.rs\<close>): the counter and the interning
    tables, one locale \<open>short_table\<close> interpreted for each of the four. Lemmas: ids are unique and stable.
  \<^item> \<^theory_text>\<open>Matrix_Types\<close> (\<open>core/matrix/pdu.rs\<close>, \<open>event/redact.rs\<close>), \<^theory_text>\<open>Power_Levels\<close>
    (\<open>state_res/power_levels.rs\<close>) and \<^theory_text>\<open>Event_Auth\<close> (\<open>state_res/event_auth.rs\<close>): events, power
    levels and the whole of \<open>auth_check\<close>, split at its early returns. Lemmas: what an accepted event satisfies, that a
    sender cannot raise power above their own, that bans hold, that authorization reads only the
    state it announces.
  \<^item> \<^theory_text>\<open>Topo_Sort\<close>, \<^theory_text>\<open>State_Sets\<close>, \<^theory_text>\<open>Auth_Graph\<close>, \<^theory_text>\<open>Mainline\<close>,
    \<^theory_text>\<open>Conflicted_Subgraph\<close>, \<^theory_text>\<open>State_Res\<close> (\<open>state_res/mod.rs\<close>): one theory per phase of state resolution, and
    \<open>resolve\<close>. Lemmas: each phase is correct against a direct specification (the sort is the least one in its order,
    the subgraph is the set of events between conflicted ones), the result is sound, does not depend
    on iteration orders, and is reached for every finite acyclic input.
  \<^item> \<^theory_text>\<open>State_Diff\<close> (\<open>service/rooms/state_compressor/mod.rs\<close>) and \<^theory_text>\<open>Room_State\<close>
    (\<open>service/rooms/state/mod.rs\<close>): states as layers of differences, and the states of rooms and events over time. Lemmas:
    what is saved is what is loaded, saved states never change, appending an event refines the update of a map.
  \<^item> \<^theory_text>\<open>Records\<close> (\<open>database/ser.rs\<close>, \<open>de.rs\<close>) and \<^theory_text>\<open>Account_Data\<close> (\<open>service/account_data/mod.rs\<close>):
    the codec of keys, with its errors, and account data over byte keys. Lemmas: round trip, typing of what is
    read, the changes since a count.
  \<^item> \<^theory_text>\<open>Set_Ops\<close> (\<open>core/utils/set.rs\<close>), \<^theory_text>\<open>Invite_Filter\<close> (\<open>ruminuwuity/invite_permission_config.rs\<close>),
    \<^theory_text>\<open>State_Cache\<close> (\<open>service/rooms/state_cache\<close>) and \<^theory_text>\<open>Memberships\<close>: the
    membership tables over bytes and what they promise: one membership per user and room through any sequence of operations.
  \<^item> \<^theory_text>\<open>Transactions\<close> (\<open>service/transactions/mod.rs\<close>, \<open>api/server/send.rs\<close>): incoming transactions as a
    system of concurrent requests and tasks. Lemmas: one transaction per origin at a time, every request is answered, what
    cleaning up keeps.
  \<^item> \<^theory_text>\<open>Auth_Chain\<close> (\<open>service/rooms/auth_chain\<close>): the walk along auth events, with its caches over short ids.
    Lemmas: the result is the transitive closure of the references, with or without the caches.
  \<^bold>\<open>Conventions.\<close> A struct is a record, an enum a datatype, \<open>Result\<close> a sum with the error on the left,
  \<open>u64\<close> and \<open>i64\<close> are 64-bit words. Operations take the state and return it. A hash map or set is a list in
  an arbitrary iteration order, and so is the order in which concurrent fetches complete: theorems hold for
  every such order. Identifiers are strings in the state resolution and byte strings where they become keys.

  \<^bold>\<open>Loops, bounds and fuel.\<close> A loop over a worklist is a \<open>partial_function\<close> in the option type, and that it
  returns is proved where it is used (acyclic finite graphs for the sort, finite fetched sets for the walks). Reading a sequence of
  records has the fuel \<open>length buf + 2\<close>: each element after the first takes a separator, so the
  error \<open>OutOfFuel\<close> never occurs, which is part of the typing theorem. The compressor assumes states of fewer than \<open>2 ^ 30\<close> entries
  where the code multiplies sizes. Counters wrap at \<open>2 ^ 64\<close>; theorems say where they assume the counter has room.

  \<^bold>\<open>Parameters.\<close> Code outside the repository is an argument: validity of ids and decoding of event
  contents (ruma), JSON (serde_json), SHA-256 (sha2), eviction of the LRU cache (lru_cache), glob matching
  (wildmatch), watch channels (tokio). What is assumed of them is a named hypothesis with a witness.

  \<^bold>\<open>Not modelled.\<close> HTTP handlers, the router, admin commands and the migration from Synapse, which move
  data between formats and services without logic of the room model; the bindings to RocksDB, network
  requests, media, push, login and the web pages, which are I/O; configuration, logging and macros. In the modelled components
  logging, metrics, debug assertions and waking of waiting syncs are left out.
\<close>

end
